(* ===== verification/Prelude.thy ===== *)
theory Prelude
  imports Main "HOL-Library.Word"
begin

unbundle bit_operations_syntax

text \<open>
  Shared vocabulary of the development: the machine types of the Rust sources, the outcomes a
  Rust computation can have besides returning, checked and unchecked access to byte slices, and
  the lemmas on lists and words that the component theories share.

  Two collections carry the proofs of the components: \<open>outcome_simps\<close> (how outcomes compose)
  and \<open>slice_simps\<close> (when an access is in bounds).
\<close>

named_theorems outcome_simps "composition of outcomes"
named_theorems slice_simps "in-bounds accesses to slices and raw memory"

section \<open>Machine types\<close>

type_synonym byte = "8 word"
type_synonym u16 = "16 word"
type_synonym u32 = "32 word"
type_synonym u64 = "64 word"

text \<open>Byte string literals.\<close>

definition ascii :: "string \<Rightarrow> byte list" where
  "ascii s = map of_char s"

lemma ascii_simps [simp]:
  "ascii [] = []"
  "ascii (c # cs) = of_char c # ascii cs"
  by (simp_all add: ascii_def)

lemma length_ascii [simp]: "length (ascii s) = length s"
  by (simp add: ascii_def)

text \<open>\<open>u64::from_le_bytes\<close>.\<close>

definition from_le_bytes :: "byte list \<Rightarrow> u64" where
  "from_le_bytes bs = word_of_int (horner_sum uint 256 bs)"

lemma bit_from_le_bytes:
  "bit (from_le_bytes bs) n \<longleftrightarrow> n < 64 \<and> n div 8 < length bs \<and> bit (bs ! (n div 8)) (n mod 8)"
  using bit_horner_sum_uint_exp_iff [of bs n] by (simp add: from_le_bytes_def bit_simps)

section \<open>Outcomes\<close>

text \<open>
  A computation of the sources returns, panics (an index out of range, an \<open>unwrap\<close> of a missing
  value, a failed \<open>expect\<close>), leaves the memory it may touch (undefined behaviour), returns an
  \<open>io::Error\<close>, kills the process on purpose, or never returns.
\<close>

datatype fault = Panic | Undefined_Behaviour | Os_Error int | Aborted | Diverges

type_synonym 'a outcome = "fault + 'a"

definition obind :: "'a outcome \<Rightarrow> ('a \<Rightarrow> 'b outcome) \<Rightarrow> 'b outcome" where
  "obind m f = (case m of Inl e \<Rightarrow> Inl e | Inr x \<Rightarrow> f x)"

lemma obind_Inl [simp, outcome_simps]: "obind (Inl e) f = Inl e"
  by (simp add: obind_def)

lemma obind_Inr [simp, outcome_simps]: "obind (Inr x) f = f x"
  by (simp add: obind_def)

lemma obind_eq_Inr_iff [outcome_simps]:
  "obind m f = Inr y \<longleftrightarrow> (\<exists>x. m = Inr x \<and> f x = Inr y)"
  by (cases m) auto

lemma obind_assoc [outcome_simps]: "obind (obind m f) g = obind m (\<lambda>x. obind (f x) g)"
  by (cases m) auto

lemma obind_cong [fundef_cong]:
  "m = m' \<Longrightarrow> (\<And>x. m' = Inr x \<Longrightarrow> f x = f' x) \<Longrightarrow> obind m f = obind m' f'"
  by (cases m') auto

lemma obind_split:
  "P (obind m f) \<longleftrightarrow> (\<forall>e. m = Inl e \<longrightarrow> P (Inl e)) \<and> (\<forall>x. m = Inr x \<longrightarrow> P (f x))"
  by (cases m) auto

text \<open>The error a check raises when it fails.\<close>

definition guard_or :: "fault \<Rightarrow> bool \<Rightarrow> unit outcome" where
  "guard_or e b = (if b then Inr () else Inl e)"

lemma guard_or_simps [simp, outcome_simps]:
  "guard_or e True = Inr ()"
  "guard_or e False = Inl e"
  by (simp_all add: guard_or_def)

lemma guard_or_eq_Inr [outcome_simps]: "guard_or e b = Inr u \<longleftrightarrow> b"
  by (simp add: guard_or_def)

text \<open>An option whose \<open>None\<close> is a fault: \<open>unwrap\<close> and \<open>get_unchecked\<close>.\<close>

definition or_fault :: "fault \<Rightarrow> 'a option \<Rightarrow> 'a outcome" where
  "or_fault e x = (case x of None \<Rightarrow> Inl e | Some y \<Rightarrow> Inr y)"

lemma or_fault_simps [simp, outcome_simps]:
  "or_fault e None = Inl e"
  "or_fault e (Some y) = Inr y"
  by (simp_all add: or_fault_def)

lemma or_fault_eq_Inr [outcome_simps]: "or_fault e x = Inr y \<longleftrightarrow> x = Some y"
  by (cases x) auto

text \<open>One operation after the other, over a list of arguments.\<close>

fun run_all :: "('x \<Rightarrow> 's \<Rightarrow> 's outcome) \<Rightarrow> 'x list \<Rightarrow> 's \<Rightarrow> 's outcome" where
  "run_all f [] s = Inr s"
| "run_all f (x # xs) s = obind (f x s) (run_all f xs)"

section \<open>Slices\<close>

text \<open>
  \<open>slice_get\<close> is the checked \<open>xs[i]\<close> of Rust, \<open>ptr_read\<close> and \<open>ptr_write\<close> are reads and writes
  through a raw pointer (or \<open>get_unchecked\<close>), which are undefined outside the object.
  \<open>slice_raw\<close> is \<open>from_raw_parts\<close>, \<open>slice\<close> and \<open>slice_from\<close> are the checked range
  expressions \<open>&xs[a..b]\<close> and \<open>&xs[a..]\<close>.
\<close>

definition slice_get :: "'a list \<Rightarrow> nat \<Rightarrow> 'a outcome" where
  "slice_get xs i = (if i < length xs then Inr (xs ! i) else Inl Panic)"

definition slice_set :: "'a list \<Rightarrow> nat \<Rightarrow> 'a \<Rightarrow> 'a list outcome" where
  "slice_set xs i v = (if i < length xs then Inr (xs[i := v]) else Inl Panic)"

definition ptr_read :: "'a list \<Rightarrow> nat \<Rightarrow> 'a outcome" where
  "ptr_read xs i = (if i < length xs then Inr (xs ! i) else Inl Undefined_Behaviour)"

definition ptr_write :: "'a list \<Rightarrow> nat \<Rightarrow> 'a \<Rightarrow> 'a list outcome" where
  "ptr_write xs i v = (if i < length xs then Inr (xs[i := v]) else Inl Undefined_Behaviour)"

definition slice_raw :: "'a list \<Rightarrow> nat \<Rightarrow> nat \<Rightarrow> 'a list outcome" where
  "slice_raw xs off n =
     (if off + n \<le> length xs then Inr (take n (drop off xs)) else Inl Undefined_Behaviour)"

definition slice :: "'a list \<Rightarrow> nat \<Rightarrow> nat \<Rightarrow> 'a list outcome" where
  "slice xs a b = (if a \<le> b \<and> b \<le> length xs then Inr (take (b - a) (drop a xs)) else Inl Panic)"

definition slice_from :: "'a list \<Rightarrow> nat \<Rightarrow> 'a list outcome" where
  "slice_from xs a = (if a \<le> length xs then Inr (drop a xs) else Inl Panic)"

text \<open>Overwriting the bytes of a memory object from offset \<open>off\<close> on.\<close>

definition blit :: "'a list \<Rightarrow> nat \<Rightarrow> 'a list \<Rightarrow> 'a list" where
  "blit mem off bs = take off mem @ bs @ drop (off + length bs) mem"

definition ptr_copy :: "'a list \<Rightarrow> nat \<Rightarrow> 'a list \<Rightarrow> 'a list outcome" where
  "ptr_copy mem off bs =
     (if off + length bs \<le> length mem then Inr (blit mem off bs) else Inl Undefined_Behaviour)"

lemma slice_get_in [slice_simps]: "i < length xs \<Longrightarrow> slice_get xs i = Inr (xs ! i)"
  by (simp add: slice_get_def)

lemma slice_set_in [slice_simps]: "i < length xs \<Longrightarrow> slice_set xs i v = Inr (xs[i := v])"
  by (simp add: slice_set_def)

lemma ptr_read_in [slice_simps]: "i < length xs \<Longrightarrow> ptr_read xs i = Inr (xs ! i)"
  by (simp add: ptr_read_def)

lemma ptr_write_in [slice_simps]: "i < length xs \<Longrightarrow> ptr_write xs i v = Inr (xs[i := v])"
  by (simp add: ptr_write_def)

lemma slice_raw_in [slice_simps]:
  "off + n \<le> length xs \<Longrightarrow> slice_raw xs off n = Inr (take n (drop off xs))"
  by (simp add: slice_raw_def)

lemma slice_in [slice_simps]:
  "a \<le> b \<Longrightarrow> b \<le> length xs \<Longrightarrow> slice xs a b = Inr (take (b - a) (drop a xs))"
  by (simp add: slice_def)

lemma slice_from_in [slice_simps]: "a \<le> length xs \<Longrightarrow> slice_from xs a = Inr (drop a xs)"
  by (simp add: slice_from_def)

lemma ptr_copy_in [slice_simps]:
  "off + length bs \<le> length mem \<Longrightarrow> ptr_copy mem off bs = Inr (blit mem off bs)"
  by (simp add: ptr_copy_def)

lemma length_blit [simp]: "off + length bs \<le> length mem \<Longrightarrow> length (blit mem off bs) = length mem"
  by (simp add: blit_def)

lemma blit_blit:
  "off' = off + length bs \<Longrightarrow> off \<le> length mem \<Longrightarrow>
   blit (blit mem off bs) off' cs = blit mem off (bs @ cs)"
  by (simp add: blit_def ac_simps)

lemma blit_Nil [simp]: "blit mem off [] = mem"
  by (simp add: blit_def)

lemma list_update_blit: "i < length mem \<Longrightarrow> mem[i := v] = blit mem i [v]"
  by (simp add: blit_def upd_conv_take_nth_drop)

lemma blit_extend:
  "off + length bs \<le> length mem \<Longrightarrow> off' = off + length bs \<Longrightarrow>
   blit (blit mem off bs) off' cs = blit mem off (bs @ cs)"
  by (rule blit_blit) simp_all

lemma blit_end: "off + length bs = length mem \<Longrightarrow> blit mem off bs = take off mem @ bs"
  by (simp add: blit_def)

lemma take_blit_prefix:
  "off \<le> length mem \<Longrightarrow> take (off + length bs) (blit mem off bs) = take off mem @ bs"
  by (simp add: blit_def)

section \<open>Lists\<close>

lemma drop_takeWhile_length:
  "drop (length (takeWhile P xs)) xs = dropWhile P xs"
  by (induction xs) auto

lemma replicate_length_iff: "xs = replicate (length xs) c \<longleftrightarrow> (\<forall>x \<in> set xs. x = c)"
  by (induction xs) auto

lemma dropWhile_append_all: "(\<forall>x \<in> set xs. P x) \<Longrightarrow> dropWhile P (xs @ ys) = dropWhile P ys"
  by (induction xs) auto

lemma dropWhile_append_some:
  "\<exists>x \<in> set xs. \<not> P x \<Longrightarrow> dropWhile P (xs @ ys) = dropWhile P xs @ ys"
  by (induction xs) auto

lemma dropWhile_drop_all:
  assumes "\<forall>x \<in> set (take n xs). P x"
  shows "dropWhile P (drop n xs) = dropWhile P xs"
  using dropWhile_append_all [OF assms, of "drop n xs"] by simp

lemma length_takeWhile_less: "\<exists>x \<in> set xs. \<not> P x \<Longrightarrow> length (takeWhile P xs) < length xs"
  by (induction xs) auto

lemma length_takeWhile_take:
  assumes "\<exists>x \<in> set (take n xs). \<not> P x"
  shows "length (takeWhile P xs) = length (takeWhile P (take n xs))"
proof -
  from assms obtain x where "x \<in> set (take n xs)" "\<not> P x" by blast
  then have "takeWhile P (take n xs @ drop n xs) = takeWhile P (take n xs)"
    by (rule takeWhile_append1)
  then show ?thesis by simp
qed

lemma upt_split_at: "k < n \<Longrightarrow> [0..<n] = [0..<k] @ k # [Suc k..<n]" for k n :: nat
  using upt_add_eq_append [of 0 k "n - k"] by (simp add: upt_conv_Cons)

lemma upt_extend: "i \<le> j \<Longrightarrow> [0..<j] = [0..<i] @ [i..<j]" for i j :: nat
  using upt_add_eq_append [of 0 i "j - i"] by simp

lemma upt_shift: "[i..<i + n] = map ((+) i) [0..<n]" for i n :: nat
  by (rule nth_equalityI) auto

lemma filter_upt_shift: "filter P [i..<i + n] = map ((+) i) (filter (P \<circ> (+) i) [0..<n])"
  for i n :: nat
  by (simp only: upt_shift filter_map)

lemma dvd_step: "d dvd a \<Longrightarrow> d dvd b \<Longrightarrow> a < b \<Longrightarrow> a + d \<le> b" for a b d :: nat
  using dvd_imp_le [of d "b - a"] dvd_diff_nat [of d b a] by simp

lemma length_takeWhile_upt:
  "length (takeWhile (\<lambda>i. \<not> P i) [0..<n]) < n \<longleftrightarrow> (\<exists>i<n. P i)"
proof -
  have "length (takeWhile (\<lambda>i. \<not> P i) [0..<n]) < n \<longleftrightarrow> takeWhile (\<lambda>i. \<not> P i) [0..<n] \<noteq> [0..<n]"
    by (metis length_takeWhile_le length_upt minus_nat.diff_0 nat_less_le takeWhile_eq_take take_all)
  also have "\<dots> \<longleftrightarrow> (\<exists>i<n. P i)"
    by (auto simp: takeWhile_eq_all_conv)
  finally show ?thesis .
qed

section \<open>Arrays filled from the front\<close>

text \<open>
  A fixed array of \<open>N\<close> cells and a fill count, as the scanners return them: the first
  \<open>N\<close> elements of a list, padded with the initial value.
\<close>

definition filled :: "nat \<Rightarrow> 'a \<Rightarrow> 'a list \<Rightarrow> 'a list \<times> nat" where
  "filled N d xs = (take N xs @ replicate (N - length xs) d, min N (length xs))"

lemma filled_Nil: "filled N d [] = (replicate N d, 0)"
  by (simp add: filled_def)

lemma length_fst_filled [simp]: "length (fst (filled N d xs)) = N"
  by (simp add: filled_def)

lemma snd_filled [simp]: "snd (filled N d xs) = min N (length xs)"
  by (simp add: filled_def)

lemma filled_push:
  assumes "length xs < N"
  shows "slice_set (fst (filled N d xs)) (snd (filled N d xs)) v = Inr (fst (filled N d (xs @ [v])))"
    and "snd (filled N d xs) + 1 = snd (filled N d (xs @ [v]))"
proof -
  have "N - length xs = Suc (N - Suc (length xs))" using assms by simp
  then have "(fst (filled N d xs))[length xs := v] = fst (filled N d (xs @ [v]))"
    using assms by (simp add: filled_def list_update_append)
  moreover have "snd (filled N d xs) = length xs" using assms by simp
  ultimately show "slice_set (fst (filled N d xs)) (snd (filled N d xs)) v
      = Inr (fst (filled N d (xs @ [v])))"
    using assms by (simp only: slice_set_in length_fst_filled)
  show "snd (filled N d xs) + 1 = snd (filled N d (xs @ [v]))" using assms by simp
qed

lemma snd_filled_less: "snd (filled N d xs) < N \<longleftrightarrow> length xs < N"
  by auto

lemma filled_full: "N \<le> length xs \<Longrightarrow> filled N d (xs @ ys) = filled N d xs"
  by (simp add: filled_def)

lemma take_filled: "take (snd (filled N d xs)) (fst (filled N d xs)) = take N xs"
  by (simp add: filled_def min_def)

lemma nth_filled: "i < min N (length xs) \<Longrightarrow> fst (filled N d xs) ! i = xs ! i"
  by (simp add: filled_def nth_append)

end
