(* ===== verification/User_Data.thy ===== *)
theory User_Data
  imports Prelude
begin

text \<open>
  The tags of \<open>src/src/library/server_internals.rs\<close>: every request the server submits to the
  ring carries a 64-bit user datum, and every completion returns it. A client's requests carry the
  client, a buffer and the kind of operation packed into one word, shifted up by
  \<open>REQ_RESP_OFFSET\<close> so that they cannot be confused with the two fixed codes.
\<close>

section \<open>Constants and packing\<close>

definition BUF_GROUP :: u16 where "BUF_GROUP = 42"
definition REQ_RESP_OFFSET :: u64 where "REQ_RESP_OFFSET = - 1 div 2"
definition BUFFER_REGISTER_CODE :: u64 where "BUFFER_REGISTER_CODE = 0xFAB"
definition INIT_REQUEST :: u16 where "INIT_REQUEST = 0xCCA"
definition POLL_EVENT :: u16 where "POLL_EVENT = 0xAAA"
definition CODE_ACCEPT :: u64 where "CODE_ACCEPT = 0xA"

text \<open>The kind of a send, which \<open>server.rs\<close> writes as a literal.\<close>

definition SEND_EVENT :: u16 where "SEND_EVENT = 0xCCC"

record user_data =
  client_id :: u32
  buffer_id :: u16
  uniq_id :: u16

text \<open>
  In Rust \<open>+\<close> binds tighter than \<open>|\<close>: the offset is added to the client alone. All
  arithmetic is that of a release build and wraps.
\<close>

definition pack_user_data :: "user_data \<Rightarrow> u64" where
  "pack_user_data u =
     (push_bit 48 (ucast (uniq_id u)) OR push_bit 32 (ucast (buffer_id u)))
       OR (ucast (client_id u) + REQ_RESP_OFFSET)"

definition unpack_user_data :: "u64 \<Rightarrow> user_data" where
  "unpack_user_data user_data =
     (let raw = user_data - REQ_RESP_OFFSET in
      \<lparr>client_id = ucast (raw AND 0xFFFFFFFF),
       buffer_id = ucast (drop_bit 32 raw AND 0xFFFF),
       uniq_id = ucast (drop_bit 48 raw AND 0xFFFF)\<rparr>)"

section \<open>Packing and unpacking\<close>

lemma REQ_RESP_OFFSET_eq: "REQ_RESP_OFFSET = 0x7FFFFFFFFFFFFFFF"
  by (simp add: REQ_RESP_OFFSET_def)

lemma and_mask32: "x AND 0xFFFFFFFF = take_bit 32 x" for x :: u64
  by (simp add: take_bit_eq_mask mask_eq_exp_minus_1)

lemma and_mask16: "x AND 0xFFFF = take_bit 16 x" for x :: u64
  by (simp add: take_bit_eq_mask mask_eq_exp_minus_1)

lemma bit_top63: "bit (push_bit 63 1 :: u64) n \<longleftrightarrow> n = 63"
  unfolding bit_push_bit_iff by (auto simp only: bit_1_iff) simp

lemma bit_0x8000: "bit (0x8000 :: u16) n \<longleftrightarrow> n = 15"
proof -
  have "(0x8000 :: u16) = push_bit 15 1" by simp
  then have "bit (0x8000 :: u16) n \<longleftrightarrow> bit (push_bit 15 1 :: u16) n" by (rule arg_cong)
  also have "\<dots> \<longleftrightarrow> n = 15" unfolding bit_push_bit_iff by (auto simp only: bit_1_iff) simp
  finally show ?thesis .
qed

lemma u16_eq_iff: "x = y \<longleftrightarrow> (\<forall>n<16. bit x n = bit y n)" for x y :: u16
  by (auto intro: bit_word_eqI)

lemma and_0x7FFF: "x AND 0x7FFF = take_bit 15 x" for x :: u16
  by (simp add: take_bit_eq_mask mask_eq_exp_minus_1)

lemma bit_offset: "bit REQ_RESP_OFFSET n \<longleftrightarrow> n < 63"
proof -
  have "REQ_RESP_OFFSET = mask 63" by (simp add: REQ_RESP_OFFSET_eq mask_eq_exp_minus_1)
  then have "bit REQ_RESP_OFFSET n \<longleftrightarrow> bit (mask 63 :: u64) n" by simp
  also have "\<dots> \<longleftrightarrow> n < 63" by (simp only: bit_mask_iff) auto
  finally show ?thesis .
qed

lemma bit_u16_bound: "bit (w :: u16) n \<Longrightarrow> n < 16"
  using bit_imp_le_length [of w n] by simp

lemma bit_u32_bound: "bit (w :: u32) n \<Longrightarrow> n < 32"
  using bit_imp_le_length [of w n] by simp

text \<open>The three fields side by side, the layout the packing aims at.\<close>

definition layout :: "user_data \<Rightarrow> u64" where
  "layout u = push_bit 48 (ucast (uniq_id u)) + push_bit 32 (ucast (buffer_id u))
     + ucast (client_id u)"

lemma add_or_fields:
  fixes c :: u32 and b k :: u16
  shows "push_bit 48 (ucast k :: u64) + push_bit 32 (ucast b) + ucast c
    = push_bit 48 (ucast k) OR push_bit 32 (ucast b) OR ucast c"
proof -
  have "push_bit 48 (ucast k :: u64) + push_bit 32 (ucast b)
      = push_bit 48 (ucast k) OR push_bit 32 (ucast b)"
    by (rule disjunctive_add) (auto simp: bit_simps dest: bit_u16_bound)
  moreover have "(push_bit 48 (ucast k :: u64) OR push_bit 32 (ucast b)) + ucast c
      = push_bit 48 (ucast k) OR push_bit 32 (ucast b) OR ucast c"
    by (rule disjunctive_add [THEN trans])
       (auto simp: bit_simps or.assoc dest: bit_u16_bound bit_u32_bound)
  ultimately show ?thesis by simp
qed

lemma unpack_layout: "unpack_user_data (layout u + REQ_RESP_OFFSET) = u"
proof -
  have raw: "layout u = push_bit 48 (ucast (uniq_id u)) OR push_bit 32 (ucast (buffer_id u))
      OR ucast (client_id u)"
    by (simp add: layout_def add_or_fields)
  have "ucast (layout u AND 0xFFFFFFFF) = client_id u"
    by (rule bit_word_eqI) (auto simp: raw and_mask32 bit_simps)
  moreover have "ucast (drop_bit 32 (layout u) AND 0xFFFF) = buffer_id u"
    by (rule bit_word_eqI) (auto simp: raw and_mask16 bit_simps dest: bit_u32_bound)
  moreover have "ucast (drop_bit 48 (layout u) AND 0xFFFF) = uniq_id u"
    by (rule bit_word_eqI)
       (auto simp: raw and_mask16 bit_simps dest: bit_u32_bound bit_u16_bound)
  ultimately show ?thesis by (simp add: unpack_user_data_def Let_def)
qed

lemma layout_inj: "layout u = layout v \<longleftrightarrow> u = v"
  by (metis unpack_layout)

text \<open>
  For a client other than 0 the sum carries into bit 63 and leaves the client minus one in the
  low 32 bits. The top bit of the kind meets that carry and is lost; the rest is layout plus
  offset.
\<close>

lemma client_sum:
  fixes c :: u32
  assumes "c \<noteq> 0"
  shows "ucast c + REQ_RESP_OFFSET = ucast (c - 1) OR (push_bit 63 1 :: u64)"
    and "ucast c = ucast (c - 1) + (1 :: u64)"
proof -
  have "unat c = unat (c - 1) + 1"
    using assms by (simp add: unat_minus_one unat_gt_0)
  then have "of_nat (unat c) = (of_nat (unat (c - 1) + 1) :: u64)"
    by (rule arg_cong)
  then show c1: "ucast c = ucast (c - 1) + (1 :: u64)"
    by (simp only: of_nat_add of_nat_1 of_nat_unat)
  have "ucast (c - 1) + (push_bit 63 1 :: u64) = ucast (c - 1) OR push_bit 63 1"
    by (rule disjunctive_add) (auto simp only: bit_top63 bit_ucast_iff dest!: bit_u32_bound)
  then show "ucast c + REQ_RESP_OFFSET = ucast (c - 1) OR (push_bit 63 1 :: u64)"
    by (simp add: c1 REQ_RESP_OFFSET_eq algebra_simps)
qed

lemma pack_nonzero_client:
  assumes "client_id u \<noteq> 0"
  shows "pack_user_data u = layout (u\<lparr>uniq_id := take_bit 15 (uniq_id u)\<rparr>) + REQ_RESP_OFFSET"
proof -
  define top :: u64 where "top = push_bit 63 1"
  have bit_top: "bit top n \<longleftrightarrow> n = 63" for n
    unfolding top_def by (rule bit_top63)
  have top_eq: "top = REQ_RESP_OFFSET + 1" by (simp add: REQ_RESP_OFFSET_eq top_def)
  let ?k = "push_bit 48 (ucast (uniq_id u) :: u64)"
  let ?k15 = "push_bit 48 (ucast (take_bit 15 (uniq_id u)) :: u64)"
  let ?b = "push_bit 32 (ucast (buffer_id u) :: u64)" and ?c1 = "ucast (client_id u - 1) :: u64"
  have k: "?k OR top = ?k15 OR top"
    by (rule bit_word_eqI) (auto simp: bit_simps bit_top dest: bit_u16_bound)
  have "pack_user_data u = ?b OR ?c1 OR (?k OR top)"
    by (simp add: pack_user_data_def client_sum(1) [OF assms] top_def or.assoc or.commute
        or.left_commute)
  also have "\<dots> = (?k15 OR ?b OR ?c1) OR top"
    unfolding k by (simp add: or.assoc or.commute or.left_commute)
  also have "\<dots> = (?k15 OR ?b OR ?c1) + top"
    by (rule disjunctive_add [symmetric])
       (auto simp: bit_simps bit_top dest: bit_u32_bound bit_u16_bound)
  also have "\<dots> = layout (u\<lparr>uniq_id := take_bit 15 (uniq_id u)\<rparr>) + REQ_RESP_OFFSET"
    by (simp add: layout_def add_or_fields [symmetric] client_sum(2) [OF assms] top_eq)
  finally show ?thesis .
qed

text \<open>
  For client 0 the sum is the offset itself, whose low 63 bits are all ones and swallow the other
  fields.
\<close>

lemma pack_zero_client:
  assumes "client_id u = 0"
  shows "pack_user_data u = (if bit (uniq_id u) 15 then - 1 else REQ_RESP_OFFSET)"
proof (rule bit_word_eqI)
  fix n assume "n < LENGTH(64)"
  then consider "n < 63" | "n = 63" by fastforce
  then show "bit (pack_user_data u) n
      \<longleftrightarrow> bit (if bit (uniq_id u) 15 then - 1 else REQ_RESP_OFFSET) n"
    by cases (auto simp: pack_user_data_def assms bit_simps bit_offset dest: bit_u16_bound)
qed

lemma unpack_pack_eq:
  "unpack_user_data (pack_user_data u) =
     (if client_id u = 0
      then \<lparr>client_id = 0, buffer_id = 0, uniq_id = uniq_id u AND 0x8000\<rparr>
      else u\<lparr>uniq_id := uniq_id u AND 0x7FFF\<rparr>)"
proof (cases "client_id u = 0")
  case True
  have top: "uniq_id u AND 0x8000 = (if bit (uniq_id u) 15 then 0x8000 else 0)"
    by (rule bit_word_eqI) (auto simp only: bit_and_iff bit_0x8000 bit_0_eq bot_apply bot_bool_def split: if_splits)
  let ?v = "\<lparr>client_id = 0, buffer_id = 0, uniq_id = uniq_id u AND 0x8000\<rparr>"
  have "pack_user_data u = layout ?v + REQ_RESP_OFFSET"
    unfolding pack_zero_client [OF True] top by (simp add: layout_def REQ_RESP_OFFSET_eq)
  then show ?thesis using True by (simp only: unpack_layout if_True simp_thms)
next
  case False
  then show ?thesis
    by (simp only: pack_nonzero_client unpack_layout and_0x7FFF if_False simp_thms)
qed

text \<open>
  C16: what a completion handler reads back from the tag it submitted, for every tag. A client
  other than 0 gets back its own number, its buffer and the low 15 bits of the operation kind;
  client 0 gets back only the top bit of the kind.
\<close>

theorem unpack_pack:
  "unpack_user_data (pack_user_data u) =
     (if client_id u = 0
      then \<lparr>client_id = 0, buffer_id = 0, uniq_id = uniq_id u AND 0x8000\<rparr>
      else u\<lparr>uniq_id := uniq_id u AND 0x7FFF\<rparr>)"
  by (rule unpack_pack_eq)

text \<open>
  Packing then unpacking is the identity exactly for client 0 with an empty buffer field and
  kind 0 or \<open>0x8000\<close>, and for every other client with a kind below \<open>0x8000\<close>. The three kinds
  the server uses are below \<open>0x8000\<close>, so its tags round trip for every client but 0.
\<close>

theorem user_data_roundtrip_iff:
  "unpack_user_data (pack_user_data u) = u \<longleftrightarrow>
     (if client_id u = 0 then buffer_id u = 0 \<and> uniq_id u AND 0x7FFF = 0
      else uniq_id u AND 0x8000 = 0)"
proof -
  have "uniq_id u AND 0x8000 = uniq_id u \<longleftrightarrow> uniq_id u AND 0x7FFF = 0"
    unfolding u16_eq_iff and_0x7FFF bit_and_iff bit_0x8000 bit_take_bit_iff by fastforce
  moreover have "uniq_id u AND 0x7FFF = uniq_id u \<longleftrightarrow> uniq_id u AND 0x8000 = 0"
    unfolding u16_eq_iff and_0x7FFF bit_and_iff bit_0x8000 bit_take_bit_iff by fastforce
  ultimately show ?thesis
    by (cases u) (auto simp: unpack_pack_eq)
qed

text \<open>What the server relies on: the tags it builds for a real client come back unchanged.\<close>

lemma unpack_pack_server:
  assumes "c \<noteq> 0" and "kind \<in> {INIT_REQUEST, POLL_EVENT, SEND_EVENT}"
  shows "unpack_user_data (pack_user_data \<lparr>client_id = c, buffer_id = b, uniq_id = kind\<rparr>)
    = \<lparr>client_id = c, buffer_id = b, uniq_id = kind\<rparr>"
  using assms
  by (auto simp: unpack_pack_eq INIT_REQUEST_def POLL_EVENT_def SEND_EVENT_def)

lemma code_below_offset: "CODE_ACCEPT < REQ_RESP_OFFSET" "BUFFER_REGISTER_CODE < REQ_RESP_OFFSET"
  by (simp_all add: CODE_ACCEPT_def BUFFER_REGISTER_CODE_def REQ_RESP_OFFSET_eq)

lemma pack_ge_offset: "REQ_RESP_OFFSET \<le> pack_user_data u"
proof (cases "client_id u = 0")
  case True
  then show ?thesis by (simp add: pack_zero_client)
next
  case False
  have "REQ_RESP_OFFSET \<le> (push_bit 63 1 :: u64)"
    by (simp add: REQ_RESP_OFFSET_eq)
  also have "\<dots> \<le> ((push_bit 48 (ucast (uniq_id u)) OR push_bit 32 (ucast (buffer_id u)))
      OR ucast (client_id u - 1)) OR push_bit 63 1"
    by (rule le_word_or1)
  also have "\<dots> = pack_user_data u"
    unfolding pack_user_data_def client_sum(1) [OF False] by (simp only: or.assoc)
  finally show ?thesis .
qed

lemma pack_tag_bounds:
  "REQ_RESP_OFFSET \<le> pack_user_data u" "pack_user_data u \<noteq> CODE_ACCEPT"
  "pack_user_data u \<noteq> BUFFER_REGISTER_CODE"
  using pack_ge_offset [of u] code_below_offset by auto

text \<open>
  A packed tag is never below \<open>REQ_RESP_OFFSET\<close>, so the dispatcher can tell it from the
  accept code and the buffer registration code, which are.
\<close>

theorem pack_user_data_disjoint_codes:
  "REQ_RESP_OFFSET \<le> pack_user_data u \<and> pack_user_data u \<noteq> CODE_ACCEPT \<and>
   pack_user_data u \<noteq> BUFFER_REGISTER_CODE \<and> CODE_ACCEPT < REQ_RESP_OFFSET \<and>
   BUFFER_REGISTER_CODE < REQ_RESP_OFFSET"
  using pack_tag_bounds [of u] code_below_offset by simp

end
