(* ===== verification/Simd.thy ===== *)
theory Simd
  imports Prelude
begin

text \<open>
  The AVX2 intrinsics and bit counts of \<open>std::arch\<close> and \<open>core::num\<close> that the byte scanners
  use, on vectors of 32 bytes. Loads and stores go through raw pointers: outside the object they
  are undefined. The second half is the bit-loop theory of the scanners: which positions a
  comparison mask has set, and how \<open>bits &= bits - 1\<close> walks through them.
\<close>

section \<open>Vectors of 32 bytes\<close>

type_synonym vec256 = "byte list"

definition mm256_loadu :: "byte list \<Rightarrow> nat \<Rightarrow> vec256 outcome" where
  "mm256_loadu mem off = slice_raw mem off 32"

definition mm256_storeu :: "byte list \<Rightarrow> nat \<Rightarrow> vec256 \<Rightarrow> byte list outcome" where
  "mm256_storeu mem off v = ptr_copy mem off v"

definition mm256_set1 :: "byte \<Rightarrow> vec256" where
  "mm256_set1 b = replicate 32 b"

definition mm256_cmpeq :: "vec256 \<Rightarrow> vec256 \<Rightarrow> vec256" where
  "mm256_cmpeq a b = map2 (\<lambda>x y. if x = y then 255 else 0) a b"

definition mm256_and :: "vec256 \<Rightarrow> vec256 \<Rightarrow> vec256" where
  "mm256_and a b = map2 (AND) a b"

text \<open>One mask bit per byte: its most significant bit, byte 0 in bit 0.\<close>

definition mm256_movemask :: "vec256 \<Rightarrow> u32" where
  "mm256_movemask v = horner_sum of_bool 2 (map (\<lambda>x. bit x 7) v)"

lemma mm256_loadu_in [slice_simps]:
  "off + 32 \<le> length mem \<Longrightarrow> mm256_loadu mem off = Inr (take 32 (drop off mem))"
  by (simp add: mm256_loadu_def slice_simps)

lemma mm256_loadu_out: "\<not> off + 32 \<le> length mem \<Longrightarrow> mm256_loadu mem off = Inl Undefined_Behaviour"
  by (simp add: mm256_loadu_def slice_raw_def)

lemma mm256_storeu_in [slice_simps]:
  "off + length v \<le> length mem \<Longrightarrow> mm256_storeu mem off v = Inr (blit mem off v)"
  by (simp add: mm256_storeu_def slice_simps)

lemma length_mm256_set1 [simp]: "length (mm256_set1 b) = 32"
  by (simp add: mm256_set1_def)

lemma length_mm256_cmpeq [simp]: "length (mm256_cmpeq a b) = min (length a) (length b)"
  by (simp add: mm256_cmpeq_def)

lemma length_mm256_and [simp]: "length (mm256_and a b) = min (length a) (length b)"
  by (simp add: mm256_and_def)

lemma bit_movemask:
  "bit (mm256_movemask v) j \<longleftrightarrow> j < 32 \<and> j < length v \<and> bit (v ! j) 7"
  by (auto simp: mm256_movemask_def bit_horner_sum_bit_word_iff)

lemma nth_cmpeq_set1:
  "j < length a \<Longrightarrow> j < 32 \<Longrightarrow>
   mm256_cmpeq a (mm256_set1 b) ! j = (if a ! j = b then 255 else 0)"
  by (simp add: mm256_cmpeq_def mm256_set1_def)

lemma nth_mm256_and:
  "j < length a \<Longrightarrow> j < length b \<Longrightarrow> mm256_and a b ! j = a ! j AND b ! j"
  by (simp add: mm256_and_def)

lemma bit_255_7 [simp]: "bit (255 :: byte) 7"
  by simp

text \<open>A comparison mask has bit \<open>j\<close> set exactly where byte \<open>j\<close> is the byte looked for.\<close>

lemma bit_movemask_cmpeq:
  "length a = 32 \<Longrightarrow>
   bit (mm256_movemask (mm256_cmpeq a (mm256_set1 b))) j \<longleftrightarrow> j < 32 \<and> a ! j = b"
  by (auto simp: bit_movemask nth_cmpeq_set1 split: if_splits)

lemma bit_movemask_cmpeq3:
  assumes "length a = 32" "length b = 32" "length c = 32"
  shows "bit (mm256_movemask (mm256_and (mm256_cmpeq a (mm256_set1 x))
      (mm256_and (mm256_cmpeq b (mm256_set1 y)) (mm256_cmpeq c (mm256_set1 z))))) j
    \<longleftrightarrow> j < 32 \<and> a ! j = x \<and> b ! j = y \<and> c ! j = z"
  using assms
  by (auto simp: bit_movemask nth_mm256_and nth_cmpeq_set1 bit_and_iff split: if_splits)

section \<open>Counting bits\<close>

definition trailing_zeros :: "u32 \<Rightarrow> nat" where
  "trailing_zeros w = length (takeWhile (\<lambda>i. \<not> bit w i) [0..<32])"

definition trailing_ones :: "u32 \<Rightarrow> nat" where
  "trailing_ones w = length (takeWhile (bit w) [0..<32])"

lemma trailing_zeros_le: "trailing_zeros w \<le> 32"
  unfolding trailing_zeros_def by (metis length_takeWhile_le length_upt minus_nat.diff_0)

lemma u32_eq_0_iff: "w = 0 \<longleftrightarrow> (\<forall>i<32. \<not> bit w i)" for w :: u32
  by (auto simp: bit_eq_iff dest: bit_imp_le_length)

lemma u32_eq_minus_1_iff: "w = - 1 \<longleftrightarrow> (\<forall>i<32. bit w i)" for w :: u32
  by (auto simp: bit_eq_iff dest: bit_imp_le_length)

lemma trailing_zeros_less: "w \<noteq> 0 \<Longrightarrow> trailing_zeros w < 32"
  by (simp add: trailing_zeros_def length_takeWhile_upt) (auto simp: u32_eq_0_iff)

lemma length_takeWhile_eqI:
  assumes "k < n" "\<not> P k" "\<And>j. j < k \<Longrightarrow> P j"
  shows "length (takeWhile P [0..<n]) = k"
proof -
  have "takeWhile P ([0..<k] @ k # [Suc k..<n]) = [0..<k] @ takeWhile P (k # [Suc k..<n])"
    by (rule takeWhile_append2) (simp add: assms(3))
  then have "takeWhile P [0..<n] = [0..<k]"
    using assms(2) by (simp only: upt_split_at [OF assms(1)]) simp
  then show ?thesis by simp
qed

lemma trailing_zeros_eqI:
  "k < 32 \<Longrightarrow> bit w k \<Longrightarrow> (\<And>j. j < k \<Longrightarrow> \<not> bit w j) \<Longrightarrow> trailing_zeros w = k"
  unfolding trailing_zeros_def by (rule length_takeWhile_eqI) auto

lemma trailing_ones_eqI:
  "k < 32 \<Longrightarrow> \<not> bit w k \<Longrightarrow> (\<And>j. j < k \<Longrightarrow> bit w j) \<Longrightarrow> trailing_ones w = k"
  unfolding trailing_ones_def by (rule length_takeWhile_eqI) auto

lemma bit_trailing_zeros: "w \<noteq> 0 \<Longrightarrow> bit w (trailing_zeros w)"
  using trailing_zeros_less [of w] nth_length_takeWhile [of "\<lambda>i. \<not> bit w i" "[0..<32]"]
  by (simp add: trailing_zeros_def)

lemma below_trailing_zeros: "j < trailing_zeros w \<Longrightarrow> \<not> bit w j"
  using takeWhile_nth [of j "\<lambda>i. \<not> bit w i" "[0..<32]"]
    set_takeWhileD [of j "\<lambda>i. \<not> bit w i" "[0..<32]"] trailing_zeros_le [of w]
  unfolding trailing_zeros_def by (metis nth_mem nth_upt add_0 order.strict_trans2 set_takeWhileD)

section \<open>Walking the set bits of a mask\<close>

lemma clear_lowest_nat:
  fixes n :: nat
  shows "n \<noteq> 0 \<Longrightarrow> \<exists>k. bit n k \<and> (\<forall>j<k. \<not> bit n j) \<and>
    (\<forall>i. bit (n AND (n - 1)) i \<longleftrightarrow> bit n i \<and> i \<noteq> k)"
proof (induction n rule: less_induct)
  case (less n)
  show ?case
  proof (cases "odd n")
    case True
    then have half: "(n - 1) div 2 = n div 2" "even (n - 1)" by (auto elim: oddE)
    have "bit (n - 1) i \<longleftrightarrow> bit n i \<and> i \<noteq> 0" for i
      using half by (cases i) (auto simp: bit_0 bit_Suc)
    then have "bit (n AND (n - 1)) i \<longleftrightarrow> bit n i \<and> i \<noteq> 0" for i
      by (auto simp only: bit_and_iff)
    then show ?thesis using True by (intro exI [of _ 0]) (auto simp: bit_0)
  next
    case False
    then obtain m where m: "n = 2 * m" by (auto elim: evenE)
    with less.prems have "m \<noteq> 0" "m < n" by auto
    with less.IH obtain k where k: "bit m k" "\<forall>j<k. \<not> bit m j"
      "\<forall>i. bit (m AND (m - 1)) i \<longleftrightarrow> bit m i \<and> i \<noteq> k" by blast
    have half: "(n - 1) div 2 = m - 1" using m \<open>m \<noteq> 0\<close> by simp
    have "bit (n AND (n - 1)) i \<longleftrightarrow> bit n i \<and> i \<noteq> Suc k" for i
    proof (cases i)
      case 0
      then show ?thesis using m by (simp only: bit_and_iff) (simp add: bit_0)
    next
      case (Suc i')
      then have "bit (n AND (n - 1)) i \<longleftrightarrow> bit m i' \<and> bit (m - 1) i'"
        using half m by (simp only: bit_and_iff) (simp add: bit_Suc)
      then show ?thesis using k(3) Suc m by (simp add: bit_Suc bit_and_iff)
    qed
    moreover have "bit n (Suc k)" using k(1) m by (simp add: bit_Suc)
    moreover have "\<not> bit n j" if "j < Suc k" for j
      using that k(2) m by (cases j) (auto simp: bit_0 bit_Suc)
    ultimately show ?thesis by blast
  qed
qed

lemma bit_word_unat: "bit w i \<longleftrightarrow> bit (unat w) i" for w :: u32
  by (simp add: bit_unsigned_iff)

lemma bit_clear_lowest:
  fixes w :: u32
  assumes "w \<noteq> 0"
  shows "bit (w AND (w - 1)) i \<longleftrightarrow> bit w i \<and> i \<noteq> trailing_zeros w"
proof -
  have nz: "unat w \<noteq> 0" using assms by (simp add: unat_eq_zero)
  then obtain k where k: "bit (unat w) k" "\<forall>j<k. \<not> bit (unat w) j"
    "\<forall>i. bit (unat w AND (unat w - 1)) i \<longleftrightarrow> bit (unat w) i \<and> i \<noteq> k"
    using clear_lowest_nat by blast
  have "unat (w - 1) = unat w - 1"
    using assms by (simp add: unat_minus_one)
  then have "unat (w AND (w - 1)) = unat w AND (unat w - 1)"
    by (simp add: unsigned_and_eq)
  then have "bit (w AND (w - 1)) i \<longleftrightarrow> bit w i \<and> i \<noteq> k"
    using k(3) by (metis bit_word_unat)
  moreover have "k < 32"
    using k(1) bit_imp_le_length [of w k] by (simp add: bit_word_unat)
  then have "trailing_zeros w = k"
    using k(1,2) by (intro trailing_zeros_eqI) (auto simp: bit_word_unat)
  ultimately show ?thesis by simp
qed

lemma clear_lowest_less:
  fixes w :: u32
  assumes "w \<noteq> 0"
  shows "unat (w AND (w - 1)) < unat w"
proof -
  have "w AND (w - 1) \<le> w - 1" by (rule word_and_le1)
  also have "w - 1 < w" using assms by (simp add: word_less_nat_alt unat_minus_one unat_gt_0)
  finally show ?thesis by (simp add: word_less_nat_alt)
qed

definition mask_positions :: "u32 \<Rightarrow> nat list" where
  "mask_positions w = filter (bit w) [0..<32]"

lemma mask_positions_0 [simp]: "mask_positions 0 = []"
  by (simp add: mask_positions_def)

lemma mask_positions_step:
  assumes "w \<noteq> 0"
  shows "mask_positions w = trailing_zeros w # mask_positions (w AND (w - 1))"
proof -
  let ?k = "trailing_zeros w"
  have "?k < 32" using assms by (rule trailing_zeros_less)
  then have split: "[0..<32] = [0..<?k] @ ?k # [Suc ?k..<32]"
    by (rule upt_split_at)
  have "filter (bit w) [0..<?k] = []"
    by (auto simp: filter_empty_conv below_trailing_zeros)
  moreover have "filter (bit (w AND (w - 1))) [0..<?k] = []"
    using assms by (auto simp: filter_empty_conv below_trailing_zeros bit_clear_lowest)
  moreover have "filter (bit (w AND (w - 1))) [Suc ?k..<32] = filter (bit w) [Suc ?k..<32]"
    using assms by (intro filter_cong) (auto simp: bit_clear_lowest)
  ultimately show ?thesis
    unfolding mask_positions_def split
    using assms by (simp add: bit_trailing_zeros bit_clear_lowest)
qed

end
