(* ===== verification/Trim.thy ===== *)
theory Trim
  imports Simd
begin

text \<open>
  \<open>src/src/library/utils/trim.rs\<close>: stripping zero bytes from the left and from the right of
  a buffer, 32 bytes at a time with a scalar tail. The loops are translated with their reads
  through raw pointers and their range expressions checked; the lemmas show that no read leaves
  the buffer and that both routines compute the list functions one would write for them.
\<close>

section \<open>The routines\<close>

text \<open>The scalar tail of \<open>l_trim256\<close>, entered with fewer than 32 bytes left.\<close>

function l_trim_tail :: "byte list \<Rightarrow> nat \<Rightarrow> byte list outcome" where
  "l_trim_tail data i =
     (if i < length data
      then obind (ptr_read data i) (\<lambda>b.
             if b \<noteq> 0 then slice_from data i else l_trim_tail data (i + 1))
      else Inr [])"
  by pat_completeness auto
termination
  by (relation "measure (\<lambda>(data, i). length data - i)") auto

declare l_trim_tail.simps [simp del]

text \<open>The vector loop of \<open>l_trim256\<close>.\<close>

function l_trim_loop :: "byte list \<Rightarrow> nat \<Rightarrow> byte list outcome" where
  "l_trim_loop data i =
     (if i + 32 \<le> length data
      then obind (mm256_loadu data i) (\<lambda>chunk.
             let mask = mm256_movemask (mm256_cmpeq chunk (mm256_set1 0))
             in if mask \<noteq> - 1 then slice_from data (i + trailing_ones mask)
                else l_trim_loop data (i + 32))
      else l_trim_tail data i)"
  by pat_completeness auto
termination
  by (relation "measure (\<lambda>(data, i). length data - i)") auto

declare l_trim_loop.simps [simp del]

definition l_trim256 :: "byte list \<Rightarrow> byte list outcome" where
  "l_trim256 data = l_trim_loop data 0"

text \<open>
  \<open>r_trim256\<close>: the probe walks a chunk that is known to hold a non-zero byte from its last
  byte down; \<open>None\<close> means that the \<open>for\<close> loop ended without a hit.
\<close>

fun r_trim_probe :: "byte list \<Rightarrow> nat \<Rightarrow> nat \<Rightarrow> byte list option outcome" where
  "r_trim_probe buf off 0 = Inr None"
| "r_trim_probe buf off (Suc j) =
     obind (ptr_read buf (off + j)) (\<lambda>b.
       if b \<noteq> 0 then obind (slice buf 0 (off + j + 1)) (\<lambda>s. Inr (Some s))
       else r_trim_probe buf off j)"

fun r_trim_tail :: "byte list \<Rightarrow> nat \<Rightarrow> byte list outcome" where
  "r_trim_tail buf 0 = Inr []"
| "r_trim_tail buf (Suc i) =
     obind (ptr_read buf i) (\<lambda>b. if b \<noteq> 0 then slice buf 0 (Suc i) else r_trim_tail buf i)"

function r_trim_loop :: "byte list \<Rightarrow> nat \<Rightarrow> byte list outcome" where
  "r_trim_loop buf i =
     (if 32 \<le> i
      then let offset = i - 32 in
           obind (mm256_loadu buf offset) (\<lambda>chunk.
             let mask = mm256_movemask (mm256_cmpeq chunk (mm256_set1 0))
             in obind (if mask \<noteq> - 1 then r_trim_probe buf offset 32 else Inr None) (\<lambda>hit.
                  case hit of Some s \<Rightarrow> Inr s | None \<Rightarrow> r_trim_loop buf (i - 32)))
      else r_trim_tail buf i)"
  by pat_completeness auto
termination
  by (relation "measure (\<lambda>(buf, i). i)") auto

declare r_trim_loop.simps [simp del]

definition r_trim256 :: "byte list \<Rightarrow> byte list outcome" where
  "r_trim256 buf = (if length buf = 0 then Inr [] else r_trim_loop buf (length buf))"

section \<open>What they compute\<close>

definition strip_left :: "byte list \<Rightarrow> byte list" where
  "strip_left xs = dropWhile (\<lambda>b. b = 0) xs"

definition strip_right :: "byte list \<Rightarrow> byte list" where
  "strip_right xs = rev (dropWhile (\<lambda>b. b = 0) (rev xs))"

subsection \<open>Left\<close>

lemma l_trim_tail_correct: "l_trim_tail data i = Inr (strip_left (drop i data))"
proof (induction data i rule: l_trim_tail.induct)
  case (1 data i)
  show ?case
  proof (cases "i < length data")
    case True
    then have "drop i data = data ! i # drop (i + 1) data"
      by (simp add: Cons_nth_drop_Suc)
    with True 1 show ?thesis
      by (simp add: l_trim_tail.simps [of data i] slice_simps strip_left_def)
  next
    case False
    then show ?thesis by (simp add: l_trim_tail.simps [of data i] strip_left_def)
  qed
qed

lemma zero_mask_full_iff:
  "length chunk = 32 \<Longrightarrow>
   mm256_movemask (mm256_cmpeq chunk (mm256_set1 0)) = - 1 \<longleftrightarrow> (\<forall>b \<in> set chunk. b = 0)"
  by (auto simp: u32_eq_minus_1_iff bit_movemask_cmpeq all_set_conv_all_nth)

lemma trailing_ones_zero_mask:
  assumes "length chunk = 32" and "\<exists>b \<in> set chunk. b \<noteq> 0"
  shows "trailing_ones (mm256_movemask (mm256_cmpeq chunk (mm256_set1 0)))
    = length (takeWhile (\<lambda>b. b = 0) chunk)"
proof (rule trailing_ones_eqI)
  let ?k = "length (takeWhile (\<lambda>b. b = 0) chunk)"
  have less: "?k < length chunk"
    using assms(2) by (rule length_takeWhile_less)
  then show "?k < 32" using assms(1) by simp
  show "\<not> bit (mm256_movemask (mm256_cmpeq chunk (mm256_set1 0))) ?k"
    using assms(1) less nth_length_takeWhile [OF less] by (simp add: bit_movemask_cmpeq)
  show "bit (mm256_movemask (mm256_cmpeq chunk (mm256_set1 0))) j" if "j < ?k" for j
  proof -
    have "chunk ! j = takeWhile (\<lambda>b. b = 0) chunk ! j" using that by (simp add: takeWhile_nth)
    also have "\<dots> = 0" using nth_mem [OF that] by (blast dest: set_takeWhileD)
    finally have "chunk ! j = 0" .
    then show ?thesis using that less assms(1) by (simp add: bit_movemask_cmpeq)
  qed
qed

lemma l_trim_loop_correct: "l_trim_loop data i = Inr (strip_left (drop i data))"
proof (induction data i rule: l_trim_loop.induct)
  case (1 data i)
  let ?chunk = "take 32 (drop i data)"
  show ?case
  proof (cases "i + 32 \<le> length data")
    case True
    then have len: "length ?chunk = 32" by simp
    have rest: "drop 32 (drop i data) = drop (i + 32) data" by (simp add: add.commute)
    show ?thesis
    proof (cases "\<forall>b \<in> set ?chunk. b = 0")
      case zero: True
      then have "strip_left (drop (i + 32) data) = strip_left (drop i data)"
        unfolding strip_left_def rest [symmetric] by (rule dropWhile_drop_all)
      with 1 True zero show ?thesis
        by (simp add: l_trim_loop.simps [of data i] slice_simps zero_mask_full_iff [OF len])
    next
      case False
      then have some: "\<exists>b \<in> set ?chunk. b \<noteq> 0" by blast
      define k where "k = length (takeWhile (\<lambda>b. b = 0) (drop i data))"
      have k: "trailing_ones (mm256_movemask (mm256_cmpeq ?chunk (mm256_set1 0))) = k"
        unfolding k_def trailing_ones_zero_mask [OF len some]
        by (rule length_takeWhile_take [OF some, symmetric])
      have "k \<le> length (drop i data)" unfolding k_def by (rule length_takeWhile_le)
      then have "i + k \<le> length data" using True by simp
      moreover have "drop (i + k) data = strip_left (drop i data)"
        unfolding strip_left_def k_def drop_takeWhile_length [symmetric] by (simp add: add.commute)
      ultimately show ?thesis
        using True False k
        by (simp add: l_trim_loop.simps [of data i] slice_simps zero_mask_full_iff [OF len])
    qed
  next
    case False
    then show ?thesis by (simp add: l_trim_loop.simps [of data i] l_trim_tail_correct)
  qed
qed

text \<open>
  C31: \<open>l_trim256\<close> never reads outside its argument and never panics, whatever the length of
  the buffer, and returns the buffer without its leading zero bytes (the empty slice when all of
  it is zero).
\<close>

theorem l_trim256_strips: "l_trim256 data = Inr (dropWhile (\<lambda>b. b = 0) data)"
  by (simp add: l_trim256_def l_trim_loop_correct strip_left_def)

subsection \<open>Right\<close>

lemma strip_right_take:
  "i \<le> length xs \<Longrightarrow> \<forall>b \<in> set (drop i xs). b = 0 \<Longrightarrow> strip_right (take i xs) = strip_right xs"
  unfolding strip_right_def
  by (subst (2) append_take_drop_id [of i xs, symmetric])
     (simp only: rev_append, simp add: dropWhile_append_all)

lemma strip_right_nonzero:
  assumes "i < length xs" "xs ! i \<noteq> 0"
  shows "strip_right (take (Suc i) xs) = take (Suc i) xs"
  using assms by (simp add: strip_right_def take_Suc_conv_app_nth)

lemma strip_right_zero:
  assumes "i < length xs" "xs ! i = 0"
  shows "strip_right (take (Suc i) xs) = strip_right (take i xs)"
  using assms by (simp add: strip_right_def take_Suc_conv_app_nth)

lemma r_trim_tail_correct:
  "i \<le> length buf \<Longrightarrow> r_trim_tail buf i = Inr (strip_right (take i buf))"
proof (induction i)
  case 0
  show ?case by (simp add: strip_right_def)
next
  case (Suc i)
  then show ?case by (simp add: slice_simps strip_right_nonzero strip_right_zero)
qed

lemma r_trim_probe_correct:
  "off + j \<le> length buf \<Longrightarrow>
   r_trim_probe buf off j =
     Inr (if \<forall>k<j. buf ! (off + k) = 0 then None else Some (strip_right (take (off + j) buf)))"
proof (induction j)
  case 0
  then show ?case by simp
next
  case (Suc j)
  then have inb: "off + j < length buf" by simp
  have all: "(\<forall>k<Suc j. buf ! (off + k) = 0) \<longleftrightarrow> (\<forall>k<j. buf ! (off + k) = 0) \<and> buf ! (off + j) = 0"
    by (auto simp: less_Suc_eq)
  show ?case
  proof (cases "buf ! (off + j) = 0")
    case True
    then show ?thesis
      using inb Suc.IH all strip_right_zero [OF inb True]
      by (simp add: slice_simps)
  next
    case False
    then show ?thesis
      using inb all strip_right_nonzero [OF inb False]
      by (simp add: slice_simps)
  qed
qed

lemma r_trim_loop_correct:
  "i \<le> length buf \<Longrightarrow> r_trim_loop buf i = Inr (strip_right (take i buf))"
proof (induction buf i rule: r_trim_loop.induct)
  case (1 buf i)
  show ?case
  proof (cases "32 \<le> i")
    case True
    define offset where "offset = i - 32"
    with True 1(2) have off: "offset + 32 = i" "offset + 32 \<le> length buf" by auto
    let ?chunk = "take 32 (drop offset buf)"
    have len: "length ?chunk = 32" using off by simp
    have zero_iff: "(\<forall>b \<in> set ?chunk. b = 0) \<longleftrightarrow> (\<forall>k<32. buf ! (offset + k) = 0)"
      using off len by (simp add: all_set_conv_all_nth)
    have IH: "r_trim_loop buf (i - 32) = Inr (strip_right (take offset buf))"
      if "\<forall>k<32. buf ! (offset + k) = 0"
      using 1(1) [of offset ?chunk, OF True offset_def _ refl, of None] that
        off zero_iff zero_mask_full_iff [OF len] 1(2) offset_def
      by (simp add: slice_simps)
    have same: "strip_right (take offset buf) = strip_right (take i buf)"
      if z: "\<forall>k<32. buf ! (offset + k) = 0"
    proof -
      have "i - offset = 32" using off by simp
      then show ?thesis
        using strip_right_take [of offset "take i buf"] z off zero_iff 1(2)
        by (simp add: drop_take)
    qed
    show ?thesis
      using True off IH same zero_iff zero_mask_full_iff [OF len]
        r_trim_probe_correct [of offset 32 buf]
      by (simp add: r_trim_loop.simps [of buf i] Let_def offset_def [symmetric] slice_simps)
  next
    case False
    with 1(2) show ?thesis by (simp add: r_trim_loop.simps [of buf i] r_trim_tail_correct)
  qed
qed

text \<open>
  C32: \<open>r_trim256\<close> is memory safe on every buffer and returns the buffer without its trailing
  zero bytes.
\<close>

theorem r_trim256_strips: "r_trim256 buf = Inr (rev (dropWhile (\<lambda>b. b = 0) (rev buf)))"
  by (simp add: r_trim256_def r_trim_loop_correct strip_right_def)

end
