(* ===== verification/Shift.thy ===== *)
theory Shift
  imports Trim
begin

text \<open>
  \<open>src/src/library/utils/shift.rs\<close>: three ways to move the first \<open>len\<close> bytes of a buffer
  to its end, so that the buffer reads as zeros followed by a message. The server uses
  \<open>shift_ub_inplace\<close> when it re-arms a receive buffer and \<open>l_trim256\<close> to find the message
  again; the locale \<open>right_aligner\<close> states what that hand-over relies on.
\<close>

definition BUFFER_SIZE :: nat where
  "BUFFER_SIZE = 7168"

section \<open>The routines\<close>

text \<open>\<open>shift_safe\<close>: byte by byte from the last one down, zeroing each source byte.\<close>

fun shift_safe_loop :: "byte list \<Rightarrow> nat \<Rightarrow> nat \<Rightarrow> byte list outcome" where
  "shift_safe_loop buf len 0 = Inr buf"
| "shift_safe_loop buf len (Suc i) =
     obind (ptr_read buf i) (\<lambda>b.
     obind (ptr_write buf (length buf - len + i) b) (\<lambda>buf.
     obind (ptr_write buf i 0) (\<lambda>buf.
       shift_safe_loop buf len i)))"

definition shift_safe :: "byte list \<Rightarrow> nat \<Rightarrow> byte list outcome" where
  "shift_safe buf len = shift_safe_loop buf len len"

text \<open>
  \<open>shift_ub\<close>: a vector copy into a fresh zeroed array of \<open>BUFFER_SIZE\<close> bytes. The pointer
  \<open>dst\<close> is an offset into that array; computing it needs \<open>len \<le> BUFFER_SIZE\<close>.
\<close>

function shift_ub_scalar :: "byte list \<Rightarrow> nat \<Rightarrow> byte list \<Rightarrow> nat \<Rightarrow> nat \<Rightarrow> byte list outcome" where
  "shift_ub_scalar src len dst_vec dst i =
     (if i < len
      then obind (ptr_read src i) (\<lambda>b.
           obind (ptr_write dst_vec (dst + i) b) (\<lambda>dst_vec.
             shift_ub_scalar src len dst_vec dst (i + 1)))
      else Inr dst_vec)"
  by pat_completeness auto
termination
  by (relation "measure (\<lambda>(src, len, dst_vec, dst, i). len - i)") auto

declare shift_ub_scalar.simps [simp del]

function shift_ub_vector :: "byte list \<Rightarrow> nat \<Rightarrow> byte list \<Rightarrow> nat \<Rightarrow> nat \<Rightarrow> byte list outcome" where
  "shift_ub_vector src len dst_vec dst i =
     (if i + 32 \<le> len
      then obind (mm256_loadu src i) (\<lambda>chunk.
           obind (mm256_storeu dst_vec (dst + i) chunk) (\<lambda>dst_vec.
             shift_ub_vector src len dst_vec dst (i + 32)))
      else shift_ub_scalar src len dst_vec dst i)"
  by pat_completeness auto
termination
  by (relation "measure (\<lambda>(src, len, dst_vec, dst, i). len - i)") auto

declare shift_ub_vector.simps [simp del]

definition shift_ub :: "byte list \<Rightarrow> nat \<Rightarrow> byte list outcome" where
  "shift_ub buf len =
     (if len \<le> BUFFER_SIZE
      then shift_ub_vector buf len (replicate BUFFER_SIZE 0) (BUFFER_SIZE - len) 0
      else Inl Undefined_Behaviour)"

text \<open>
  \<open>shift_ub_inplace\<close>: \<open>copy_within(0..len, dst_offset)\<close> panics when the source range or the
  destination range leaves the slice; \<open>saturating_sub\<close> is subtraction on \<open>nat\<close>.
\<close>

definition copy_within :: "'a list \<Rightarrow> nat \<Rightarrow> nat \<Rightarrow> 'a list outcome" where
  "copy_within buf len dst =
     (if len \<le> length buf \<and> dst + len \<le> length buf
      then Inr (blit buf dst (take len buf)) else Inl Panic)"

definition shift_ub_inplace :: "byte list \<Rightarrow> nat \<Rightarrow> byte list outcome" where
  "shift_ub_inplace buf len =
     (let dst_offset = length buf - len in
      obind (copy_within buf len dst_offset) (\<lambda>buf.
      obind (guard_or Panic (dst_offset \<le> length buf)) (\<lambda>_.
        Inr (replicate dst_offset 0 @ drop dst_offset buf))))"

section \<open>The contract and its use\<close>

text \<open>
  A right aligner, on buffers of the sizes it admits whose bytes past the message are zero,
  returns zeros followed by the message. What a reader may then rely on: trimming the leading
  zeros gives the message back, as long as the message does not itself start with a zero.
\<close>

locale right_aligner =
  fixes align :: "byte list \<Rightarrow> nat \<Rightarrow> byte list outcome"
    and admits :: "nat \<Rightarrow> nat \<Rightarrow> bool"
  assumes align_zero_tail:
      "admits (length buf) len \<Longrightarrow> \<forall>b \<in> set (drop len buf). b = 0 \<Longrightarrow>
       align buf len = Inr (replicate (length buf - len) 0 @ take len buf)"
    and admits_le: "admits n len \<Longrightarrow> len \<le> n"
begin

lemma align_then_trim:
  assumes "admits (length buf) len" and "\<forall>b \<in> set (drop len buf). b = 0"
    and "0 < len" and "buf ! 0 \<noteq> 0"
  shows "obind (align buf len) l_trim256 = Inr (take len buf)"
proof -
  have "len \<le> length buf" using assms(1) by (rule admits_le)
  with assms(3) obtain x xs where buf: "buf = x # xs" and "take len buf = x # take (len - 1) xs"
    by (cases buf; cases len) auto
  moreover have "x \<noteq> 0" using assms(4) buf by simp
  ultimately have "dropWhile (\<lambda>b. b = 0) (replicate (length buf - len) 0 @ take len buf)
      = take len buf"
    by (simp add: dropWhile_append_all)
  then show ?thesis
    using assms(1,2) by (simp add: align_zero_tail l_trim256_def l_trim_loop_correct strip_left_def)
qed

lemma align_length:
  assumes "admits (length buf) len" and "\<forall>b \<in> set (drop len buf). b = 0"
  shows "\<exists>r. align buf len = Inr r \<and> length r = length buf"
  using assms admits_le [OF assms(1)] by (simp add: align_zero_tail)

end

section \<open>What the routines compute\<close>

subsection \<open>In place\<close>

lemma shift_ub_inplace_le:
  "len \<le> length buf \<Longrightarrow>
   shift_ub_inplace buf len = Inr (replicate (length buf - len) 0 @ take len buf)"
  by (simp add: shift_ub_inplace_def copy_within_def Let_def blit_end)

text \<open>
  \<open>shift_ub_inplace\<close> returns exactly when the message fits the buffer, and then the
  buffer keeps its length and holds zeros followed by the first \<open>len\<close> bytes; otherwise
  \<open>copy_within\<close> panics.
\<close>

theorem shift_ub_inplace_result:
  "shift_ub_inplace buf len =
     (if len \<le> length buf then Inr (replicate (length buf - len) 0 @ take len buf) else Inl Panic)"
  using shift_ub_inplace_le [of len buf]
  by (simp add: shift_ub_inplace_def copy_within_def)

interpretation inplace: right_aligner shift_ub_inplace "\<lambda>n len. len \<le> n"
  by unfold_locales (simp_all add: shift_ub_inplace_le)

subsection \<open>Vector copy\<close>

lemma shift_ub_scalar_correct:
  assumes "i \<le> len" "len \<le> length src" "dst + len \<le> length mem"
  shows "shift_ub_scalar src len (blit mem dst (take i src)) dst i
    = Inr (blit mem dst (take len src))"
  using assms
proof (induction "len - i" arbitrary: i)
  case 0
  then show ?case by (simp add: shift_ub_scalar.simps)
next
  case (Suc n)
  then have i: "i < len" "i < length src" "dst + i < length mem" by auto
  let ?m = "blit mem dst (take i src)"
  have "?m[dst + i := src ! i] = blit mem dst (take (Suc i) src)"
    using i by (simp add: list_update_blit blit_extend take_Suc_conv_app_nth)
  moreover have "shift_ub_scalar src len (blit mem dst (take (Suc i) src)) dst (Suc i)
      = Inr (blit mem dst (take len src))"
    using Suc i by simp
  ultimately show ?case
    using i by (subst shift_ub_scalar.simps) (simp add: slice_simps)
qed

lemma shift_ub_vector_correct:
  assumes "i \<le> len" "len \<le> length src" "dst + len \<le> length mem"
  shows "shift_ub_vector src len (blit mem dst (take i src)) dst i
    = Inr (blit mem dst (take len src))"
  using assms
proof (induction "len - i" arbitrary: i rule: less_induct)
  case less
  show ?case
  proof (cases "i + 32 \<le> len")
    case True
    then have i: "i + 32 \<le> length src" "dst + i + 32 \<le> length mem" using less.prems by auto
    let ?m = "blit mem dst (take i src)"
    have "blit ?m (dst + i) (take 32 (drop i src)) = blit mem dst (take (i + 32) src)"
      using i by (subst blit_extend) (auto simp: take_add)
    moreover have "shift_ub_vector src len (blit mem dst (take (i + 32) src)) dst (i + 32)
        = Inr (blit mem dst (take len src))"
      using less True by simp
    ultimately show ?thesis
      using True i by (subst shift_ub_vector.simps) (simp add: slice_simps)
  next
    case False
    then show ?thesis
      using less.prems by (subst shift_ub_vector.simps) (simp add: shift_ub_scalar_correct)
  qed
qed

lemma shift_ub_fits:
  assumes "len \<le> length buf" "len \<le> BUFFER_SIZE"
  shows "shift_ub buf len = Inr (replicate (BUFFER_SIZE - len) 0 @ take len buf)"
proof -
  have "shift_ub_vector buf len (blit (replicate BUFFER_SIZE 0) (BUFFER_SIZE - len) (take 0 buf))
      (BUFFER_SIZE - len) 0
    = Inr (blit (replicate BUFFER_SIZE 0) (BUFFER_SIZE - len) (take len buf))"
    using assms by (intro shift_ub_vector_correct) auto
  then show ?thesis using assms by (simp add: shift_ub_def blit_end)
qed

interpretation vector_copy: right_aligner shift_ub "\<lambda>n len. n = BUFFER_SIZE \<and> len \<le> n"
  by unfold_locales (auto simp: shift_ub_fits)

subsection \<open>Byte by byte\<close>

lemma shift_safe_loop_correct:
  assumes "len < length orig" "i \<le> len" "k = length orig - len"
    "\<And>p. p < length orig \<Longrightarrow> buf ! p =
       (if k + i \<le> p then orig ! (p - k) else if i \<le> p \<and> p < len then 0 else orig ! p)"
    "length buf = length orig"
  shows "\<exists>r. shift_safe_loop buf len i = Inr r \<and> length r = length orig \<and>
    (\<forall>p<length orig. r ! p =
       (if k \<le> p then orig ! (p - k) else if p < len then 0 else orig ! p))"
  using assms(2,4,5)
proof (induction i arbitrary: buf)
  case 0
  then show ?case by auto
next
  case (Suc i)
  have k: "0 < k" "k + i < length orig" "i < length orig" using assms(1,3) Suc.prems(1) by auto
  have bi: "buf ! i = orig ! i" using Suc.prems(2) [OF k(3)] k Suc.prems(1) by auto
  let ?buf = "buf[k + i := buf ! i, i := 0]"
  have "?buf ! p = (if k + i \<le> p then orig ! (p - k)
      else if i \<le> p \<and> p < len then 0 else orig ! p)" if "p < length orig" for p
    using that Suc.prems k bi by (auto simp: nth_list_update)
  with Suc.IH [of ?buf] Suc.prems obtain r where "shift_safe_loop ?buf len i = Inr r"
    "length r = length orig"
    "\<forall>p<length orig. r ! p =
       (if k \<le> p then orig ! (p - k) else if p < len then 0 else orig ! p)"
    by auto
  then show ?case
    using Suc.prems(3) k assms(3) by (simp add: slice_simps)
qed

lemma shift_safe_less:
  assumes "len < length buf"
  shows "shift_safe buf len = Inr (replicate (min len (length buf - len)) 0
    @ drop len (take (length buf - len) buf) @ take len buf)"
proof -
  let ?k = "length buf - len"
  have "\<exists>r. shift_safe buf len = Inr r \<and> length r = length buf \<and> (\<forall>p<length buf. r ! p =
       (if ?k \<le> p then buf ! (p - ?k) else if p < len then 0 else buf ! p))"
    unfolding shift_safe_def using assms by (intro shift_safe_loop_correct) auto
  then obtain r where r: "shift_safe buf len = Inr r" "length r = length buf"
    "\<forall>p<length buf. r ! p =
       (if ?k \<le> p then buf ! (p - ?k) else if p < len then 0 else buf ! p)" by blast
  have "r = replicate (min len ?k) 0 @ drop len (take ?k buf) @ take len buf"
  proof (rule nth_equalityI)
    show "length r = length (replicate (min len ?k) 0 @ drop len (take ?k buf) @ take len buf)"
      using r(2) assms by auto
    show "r ! p = (replicate (min len ?k) 0 @ drop len (take ?k buf) @ take len buf) ! p"
      if "p < length r" for p
      using that r assms by (auto simp: nth_append min_def not_less)
  qed
  with r(1) show ?thesis by simp
qed

text \<open>
  For a message shorter than the buffer, \<open>shift_safe\<close> moves the message to the end, zeroes
  the bytes it came from and leaves the bytes between as they were; it agrees with
  \<open>shift_ub_inplace\<close> exactly when those bytes between are already zero.
\<close>

theorem shift_safe_agrees_iff:
  assumes "len < length buf"
  shows "shift_safe buf len = shift_ub_inplace buf len
    \<longleftrightarrow> (\<forall>b \<in> set (drop len (take (length buf - len) buf)). b = 0)"
proof -
  let ?k = "length buf - len"
  let ?mid = "drop len (take ?k buf)"
  have split: "replicate ?k (0 :: byte) = replicate (min len ?k) 0 @ replicate (length ?mid) 0"
    by (auto simp: min_def simp flip: replicate_add)
  have "shift_safe buf len = shift_ub_inplace buf len \<longleftrightarrow> ?mid = replicate (length ?mid) 0"
    using assms unfolding shift_safe_less [OF assms] shift_ub_inplace_le [OF less_imp_le [OF assms]] split
    by simp
  also have "\<dots> \<longleftrightarrow> (\<forall>b \<in> set ?mid. b = 0)"
    by (rule replicate_length_iff)
  finally show ?thesis .
qed

theorem shift_safe_agrees_iff_witness:
  "shift_safe [1, 2, 0, 0, 0] 2 = shift_ub_inplace [1, 2, 0, 0, 0] 2
     \<longleftrightarrow> (\<forall>b \<in> set (drop 2 (take 3 [1, 2, 0, 0, 0 :: byte])). b = 0)"
  using shift_safe_agrees_iff [of 2 "[1, 2, 0, 0, 0]"] by simp

interpretation byte_copy: right_aligner shift_safe "\<lambda>n len. len < n"
proof unfold_locales
  fix buf :: "byte list" and len
  assume len: "len < length buf" and zero: "\<forall>b \<in> set (drop len buf). b = 0"
  have "set (drop len (take (length buf - len) buf)) \<subseteq> set (drop len buf)"
    by (simp add: drop_take set_take_subset)
  with zero have "drop len (take (length buf - len) buf)
      = replicate (length buf - len - len) 0"
    by (intro replicate_eqI) auto
  then show "shift_safe buf len = Inr (replicate (length buf - len) 0 @ take len buf)"
    using len by (simp add: shift_safe_less min_def flip: replicate_add append_assoc)
qed simp

text \<open>
  A message that fills the whole buffer is lost by \<open>shift_safe\<close>: every byte is copied onto
  itself and then zeroed.
\<close>

lemma shift_safe_loop_full:
  "i \<le> length buf \<Longrightarrow>
   shift_safe_loop buf (length buf) i = Inr (replicate i 0 @ drop i buf)"
proof (induction i arbitrary: buf)
  case 0
  show ?case by simp
next
  case (Suc i)
  then have i: "i < length buf" by simp
  have "shift_safe_loop (buf[i := 0]) (length (buf[i := 0])) i
      = Inr (replicate i 0 @ drop i (buf[i := 0]))"
    using Suc by (intro Suc.IH) simp
  moreover have "drop i (buf[i := 0]) = 0 # drop (Suc i) buf"
    using i by (simp add: Cons_nth_drop_Suc [symmetric] drop_update_cancel)
  ultimately show ?case
    using i by (simp add: slice_simps replicate_append_same)
qed

text \<open>
  A message as long as the buffer is wiped by \<open>shift_safe\<close>, where \<open>shift_ub_inplace\<close>
  and \<open>shift_ub\<close> keep it.
\<close>

theorem shift_safe_full_wipes:
  "shift_safe buf (length buf) = Inr (replicate (length buf) 0) \<and>
   shift_ub_inplace buf (length buf) = Inr buf"
  by (simp add: shift_safe_def shift_safe_loop_full shift_ub_inplace_le)

text \<open>
  C33: the hand-over between a receive and the scan of a re-armed buffer: shifting a message to
  the end of a zeroed buffer and trimming the leading zeros gives back the message, as long as
  its first byte is not zero, with each of the three shift routines where they are admissible.
\<close>

theorem shift_then_trim:
  assumes "len < length buf" and "\<forall>b \<in> set (drop len buf). b = 0"
    and "0 < len" and "buf ! 0 \<noteq> 0"
  shows "obind (shift_ub_inplace buf len) l_trim256 = Inr (take len buf) \<and>
    obind (shift_safe buf len) l_trim256 = Inr (take len buf) \<and>
    (length buf = BUFFER_SIZE \<longrightarrow> obind (shift_ub buf len) l_trim256 = Inr (take len buf))"
  using assms inplace.align_then_trim [of len buf] byte_copy.align_then_trim [of len buf]
    vector_copy.align_then_trim [of buf len]
  by simp

theorem shift_then_trim_witness:
  "obind (shift_ub_inplace [71, 69, 0, 0, 0] 2) l_trim256 = Inr [71, 69] \<and>
   obind (shift_safe [71, 69, 0, 0, 0] 2) l_trim256 = Inr [71, 69]"
  using shift_then_trim [of 2 "[71, 69, 0, 0, 0]"] by simp

end
