(* ===== verification/Kernel_Cmds.thy ===== *)
theory Kernel_Cmds
  imports User_Data Shift
begin

text \<open>
  \<open>src/src/library/uring/kernel_cmds.rs\<close>: the submission entries the server builds, and the
  completions it gets back. An entry records the builder call of the \<open>io_uring\<close> crate it
  comes from with its arguments, the user datum and the entry flags. Pointers are symbolic: they
  name the object they point to.
\<close>

section \<open>Entries and completions\<close>

text \<open>File descriptors and kernel results are \<open>i32\<close> values that are only compared.\<close>

type_synonym fd = int

datatype address = Null | Recv_Buffer nat | Client_Lake nat | User_Memory nat

datatype sqe_op =
    ProvideBuffers address int u16 u16 u16
  | AcceptMulti fd u32
  | SendMsg fd address
  | Send fd address u32 u32
  | SendZc fd address u32
  | SendMsgZc fd address
  | RecvMulti fd u16
  | Recv fd address u32 u32 "u16 option"
  | PollAdd fd u32 bool
  | AsyncCancel u64

datatype sqe_flag = SKIP_SUCCESS | BUFFER_SELECT

record sqe =
  op :: sqe_op
  op_user_data :: u64
  op_flags :: "sqe_flag list"

text \<open>The three words of a completion.\<close>

record cqe =
  cqe_user_data :: u64
  cqe_result :: int
  cqe_flags :: u32

text \<open>An entry as \<open>build()\<close> makes it: user datum 0 and no flags.\<close>

definition build_op :: "sqe_op \<Rightarrow> sqe" where
  "build_op p = \<lparr>op = p, op_user_data = 0, op_flags = []\<rparr>"

section \<open>Linux constants\<close>

definition SOCK_CLOEXEC :: u32 where "SOCK_CLOEXEC = 0x80000"
definition SOCK_NONBLOCK :: u32 where "SOCK_NONBLOCK = 0x800"
definition MSG_MORE :: u32 where "MSG_MORE = 0x8000"
definition MSG_DONTWAIT :: u32 where "MSG_DONTWAIT = 0x40"
definition POLLIN :: u32 where "POLLIN = 0x1"
definition POLLHUP :: u32 where "POLLHUP = 0x10"
definition POLLRDHUP :: u32 where "POLLRDHUP = 0x2000"

section \<open>The commands\<close>

definition provide_buffer :: "address \<Rightarrow> u16 \<Rightarrow> int \<Rightarrow> sqe" where
  "provide_buffer buffer bid len =
     (build_op (ProvideBuffers buffer len 1 BUF_GROUP bid))\<lparr>op_user_data := BUFFER_REGISTER_CODE\<rparr>"

definition accept_multi :: "fd \<Rightarrow> sqe" where
  "accept_multi f =
     (build_op (AcceptMulti f (SOCK_CLOEXEC OR SOCK_NONBLOCK)))\<lparr>op_user_data := CODE_ACCEPT\<rparr>"

definition send_raw_hdr :: "u64 \<Rightarrow> fd \<Rightarrow> address \<Rightarrow> sqe" where
  "send_raw_hdr ud client_fd hdr =
     (build_op (SendMsg client_fd hdr))\<lparr>op_user_data := ud, op_flags := [SKIP_SUCCESS]\<rparr>"

text \<open>A slice argument is its address and its length; \<open>len() as u32\<close> truncates.\<close>

definition send :: "u64 \<Rightarrow> fd \<Rightarrow> address \<Rightarrow> nat \<Rightarrow> bool \<Rightarrow> sqe" where
  "send ud client_fd ptr len has_more =
     (if has_more
      then (build_op (Send client_fd ptr (of_nat len) (MSG_MORE OR MSG_DONTWAIT)))
             \<lparr>op_user_data := ud, op_flags := [SKIP_SUCCESS]\<rparr>
      else (build_op (Send client_fd ptr (of_nat len) MSG_DONTWAIT))
             \<lparr>op_user_data := ud, op_flags := [SKIP_SUCCESS]\<rparr>)"

definition send_zero_copy :: "u64 \<Rightarrow> fd \<Rightarrow> address \<Rightarrow> nat \<Rightarrow> sqe" where
  "send_zero_copy ud client_fd ptr len =
     (build_op (SendZc client_fd ptr (of_nat len)))\<lparr>op_user_data := ud\<rparr>"

definition send_msg_zero_copy :: "u64 \<Rightarrow> fd \<Rightarrow> address \<Rightarrow> sqe" where
  "send_msg_zero_copy ud client_fd hdr =
     (build_op (SendMsgZc client_fd hdr))\<lparr>op_user_data := ud, op_flags := [SKIP_SUCCESS]\<rparr>"

definition recv_multi :: "fd \<Rightarrow> u64 \<Rightarrow> sqe" where
  "recv_multi client_fd ud = (build_op (RecvMulti client_fd BUF_GROUP))\<lparr>op_user_data := ud\<rparr>"

definition recv_buf_group :: "fd \<Rightarrow> u64 \<Rightarrow> sqe" where
  "recv_buf_group client_fd ud =
     (build_op (Recv client_fd Null (of_nat BUFFER_SIZE) 0 (Some BUF_GROUP)))
       \<lparr>op_user_data := ud, op_flags := [BUFFER_SELECT]\<rparr>"

definition recv :: "fd \<Rightarrow> u64 \<Rightarrow> address \<Rightarrow> u32 \<Rightarrow> sqe" where
  "recv client_fd ud buffer len =
     (build_op (Recv client_fd buffer len MSG_DONTWAIT None))\<lparr>op_user_data := ud\<rparr>"

definition poll_add :: "fd \<Rightarrow> u64 \<Rightarrow> sqe" where
  "poll_add client_fd ud =
     (build_op (PollAdd client_fd ((POLLIN OR POLLRDHUP) OR POLLHUP) True))\<lparr>op_user_data := ud\<rparr>"

definition async_cancel :: sqe where
  "async_cancel = build_op (AsyncCancel 0)"

lemmas sqe_defs = provide_buffer_def accept_multi_def send_raw_hdr_def send_def
  send_zero_copy_def send_msg_zero_copy_def recv_multi_def recv_buf_group_def recv_def
  poll_add_def async_cancel_def build_op_def

text \<open>The user datum each command carries back in its completion.\<close>

lemma op_user_data_simps [simp]:
  "op_user_data (provide_buffer a b k) = BUFFER_REGISTER_CODE"
  "op_user_data (accept_multi f) = CODE_ACCEPT"
  "op_user_data (send_raw_hdr ud f h) = ud"
  "op_user_data (send ud f p n m) = ud"
  "op_user_data (send_zero_copy ud f p n) = ud"
  "op_user_data (send_msg_zero_copy ud f h) = ud"
  "op_user_data (recv_multi f ud) = ud"
  "op_user_data (recv_buf_group f ud) = ud"
  "op_user_data (recv f ud p l) = ud"
  "op_user_data (poll_add f ud) = ud"
  "op_user_data async_cancel = 0"
  by (simp_all add: sqe_defs)

end
