(* ===== verification/Runtime.thy ===== *)
theory Runtime
  imports Kernel_Cmds
begin

text \<open>
  The crates the server is built on, which are not part of the repository: \<open>stable-vec\<close>,
  \<open>lake\<close>, \<open>tachyon_json\<close> and \<open>io-uring\<close>. Each is a record of operations, an argument of
  every definition that uses it, and a locale that states what the server relies on. Where the
  behaviour of an operation is not known (a write beyond the capacity of a lake, say) the locale
  says nothing about it.
\<close>

section \<open>Stable vectors\<close>

text \<open>
  \<open>ExternStableVec\<close>: elements keep their index until removed and a push never reuses an
  index. \<open>sv_insert\<close> and \<open>sv_remove\<close> return \<open>None\<close> where the crate panics, at an index
  beyond the capacity. \<open>sv_set\<close> is a write through the reference that \<open>get_mut\<close> or
  \<open>iter_mut\<close> hands out, \<open>sv_indices\<close> the order of iteration.
\<close>

record ('v, 'a) svec_ops =
  sv_new :: 'v
  sv_with_capacity :: "nat \<Rightarrow> 'v"
  sv_push :: "'v \<Rightarrow> 'a \<Rightarrow> 'v \<times> nat"
  sv_insert :: "'v \<Rightarrow> nat \<Rightarrow> 'a \<Rightarrow> 'v option"
  sv_get :: "'v \<Rightarrow> nat \<Rightarrow> 'a option"
  sv_set :: "'v \<Rightarrow> nat \<Rightarrow> 'a \<Rightarrow> 'v"
  sv_remove :: "'v \<Rightarrow> nat \<Rightarrow> ('v \<times> 'a option) option"
  sv_indices :: "'v \<Rightarrow> nat list"
  sv_next :: "'v \<Rightarrow> nat"
  sv_capacity :: "'v \<Rightarrow> nat"

locale stable_vec =
  fixes V :: "('v, 'a) svec_ops"
  assumes new_get: "sv_get V (sv_new V) i = None"
    and new_next: "sv_next V (sv_new V) = 0"
    and cap_get: "sv_get V (sv_with_capacity V n) i = None"
    and cap_next: "sv_next V (sv_with_capacity V n) = 0"
    and cap_capacity: "n \<le> sv_capacity V (sv_with_capacity V n)"
    and next_free: "sv_next V v \<le> i \<Longrightarrow> sv_get V v i = None"
    and next_capacity: "sv_next V v \<le> sv_capacity V v"
    and push_index: "snd (sv_push V v x) = sv_next V v"
    and push_get: "sv_get V (fst (sv_push V v x)) = (sv_get V v)(sv_next V v \<mapsto> x)"
    and push_next: "sv_next V (fst (sv_push V v x)) = Suc (sv_next V v)"
    and insert_in: "i < sv_capacity V v \<Longrightarrow> sv_insert V v i x \<noteq> None"
    and insert_out: "\<not> i < sv_capacity V v \<Longrightarrow> sv_insert V v i x = None"
    and insert_get: "sv_insert V v i x = Some v' \<Longrightarrow> sv_get V v' = (sv_get V v)(i \<mapsto> x)"
    and insert_capacity: "sv_insert V v i x = Some v' \<Longrightarrow> sv_capacity V v' = sv_capacity V v"
    and set_get: "sv_get V v i = Some y \<Longrightarrow> sv_get V (sv_set V v i x) = (sv_get V v)(i \<mapsto> x)"
    and set_next: "sv_get V v i = Some y \<Longrightarrow> sv_next V (sv_set V v i x) = sv_next V v"
    and set_capacity: "sv_get V v i = Some y \<Longrightarrow> sv_capacity V (sv_set V v i x) = sv_capacity V v"
    and remove_in: "i < sv_capacity V v \<Longrightarrow> sv_remove V v i \<noteq> None"
    and remove_out: "\<not> i < sv_capacity V v \<Longrightarrow> sv_remove V v i = None"
    and remove_elem: "sv_remove V v i = Some (v', r) \<Longrightarrow> r = sv_get V v i"
    and remove_get: "sv_remove V v i = Some (v', r) \<Longrightarrow> sv_get V v' = (sv_get V v)(i := None)"
    and remove_next: "sv_remove V v i = Some (v', r) \<Longrightarrow> sv_next V v' = sv_next V v"
    and remove_capacity: "sv_remove V v i = Some (v', r) \<Longrightarrow> sv_capacity V v' = sv_capacity V v"
    and indices_sorted: "sorted_wrt (<) (sv_indices V v)"
    and indices_set: "set (sv_indices V v) = {i. sv_get V v i \<noteq> None}"
begin

lemma get_below_next: "sv_get V v i = Some x \<Longrightarrow> i < sv_next V v"
  using next_free [of v i] by (cases "sv_next V v \<le> i") auto

lemma get_below_capacity: "sv_get V v i = Some x \<Longrightarrow> i < sv_capacity V v"
  using get_below_next [of v i x] next_capacity [of v] by simp

lemma remove_present:
  assumes "sv_get V v i = Some x"
  shows "\<exists>v'. sv_remove V v i = Some (v', Some x) \<and> sv_get V v' = (sv_get V v)(i := None)"
  using remove_in [OF get_below_capacity [OF assms]] remove_elem remove_get assms by force

lemma indices_distinct: "distinct (sv_indices V v)"
  using indices_sorted [of v] by (simp add: strict_sorted_iff)

lemma push_fresh: "sv_get V v (snd (sv_push V v x)) = None"
  by (simp add: push_index next_free)

end

section \<open>Lakes\<close>

text \<open>
  \<open>SmallLake\<close>: a fixed byte array with a fill position. \<open>lk_bytes\<close> is \<open>buf[..pos]\<close>; the
  capacity is a const parameter of the type. \<open>decimal\<close> is the digits that
  \<open>write_num_str_fixed\<close> puts down for a number that has exactly the given count of digits.
  \<open>lk_write_to\<close> is \<open>LakeTools::write_to\<close>: copying a number of bytes from one pointer to
  another, here to the front of the destination.
\<close>

record 'l lake_ops =
  lk_build :: "nat \<Rightarrow> 'l"
  lk_capacity :: "'l \<Rightarrow> nat"
  lk_bytes :: "'l \<Rightarrow> byte list"
  lk_len :: "'l \<Rightarrow> nat"
  lk_reset :: "'l \<Rightarrow> 'l"
  lk_write :: "'l \<Rightarrow> byte list \<Rightarrow> 'l outcome"
  lk_write_num :: "'l \<Rightarrow> nat \<Rightarrow> nat \<Rightarrow> 'l outcome"
  lk_write_to :: "byte list \<Rightarrow> byte list \<Rightarrow> nat \<Rightarrow> byte list outcome"

fun decimal :: "nat \<Rightarrow> nat \<Rightarrow> byte list" where
  "decimal 0 n = []"
| "decimal (Suc w) n = decimal w (n div 10) @ [of_nat (48 + n mod 10)]"

lemma length_decimal [simp]: "length (decimal w n) = w"
  by (induction w arbitrary: n) auto

locale lake =
  fixes L :: "'l lake_ops"
  assumes build_bytes: "lk_bytes L (lk_build L n) = []"
    and build_capacity: "lk_capacity L (lk_build L n) = n"
    and len_bytes: "lk_len L l = length (lk_bytes L l)"
    and reset_bytes: "lk_bytes L (lk_reset L l) = []"
    and reset_capacity: "lk_capacity L (lk_reset L l) = lk_capacity L l"
    and write_capacity: "lk_write L l bs = Inr l' \<Longrightarrow> lk_capacity L l' = lk_capacity L l"
    and write_in: "length (lk_bytes L l) + length bs \<le> lk_capacity L l \<Longrightarrow>
      \<exists>l'. lk_write L l bs = Inr l' \<and> lk_bytes L l' = lk_bytes L l @ bs"
    and write_num_capacity: "lk_write_num L l n w = Inr l' \<Longrightarrow> lk_capacity L l' = lk_capacity L l"
    and write_num_in: "length (lk_bytes L l) + w \<le> lk_capacity L l \<Longrightarrow> 0 < w \<Longrightarrow>
      10 ^ (w - 1) \<le> n \<Longrightarrow> n < 10 ^ w \<Longrightarrow>
      \<exists>l'. lk_write_num L l n w = Inr l' \<and> lk_bytes L l' = lk_bytes L l @ decimal w n"
    and write_to_in: "n \<le> length dst \<Longrightarrow> n \<le> length src \<Longrightarrow>
      lk_write_to L dst src n = Inr (take n src @ drop n dst)"

section \<open>JSON buffers\<close>

text \<open>
  \<open>TachyonBuffer<100>\<close> and the object built by \<open>tachyon_object_noescape!\<close>: encoding one
  string member into a reset buffer that has room for it.
\<close>

record 'j json_ops =
  js_default :: 'j
  js_reset :: "'j \<Rightarrow> 'j"
  js_encode :: "(byte list \<times> byte list) list \<Rightarrow> bool \<Rightarrow> 'j \<Rightarrow> 'j"
  js_bytes :: "'j \<Rightarrow> byte list"

definition json_member :: "byte list \<Rightarrow> byte list \<Rightarrow> byte list" where
  "json_member k v = [0x7B, 0x22] @ k @ [0x22, 0x3A, 0x22] @ v @ [0x22, 0x7D]"

locale json =
  fixes J :: "'j json_ops"
  assumes encode_member: "length (json_member k v) \<le> 100 \<Longrightarrow>
    js_bytes J (js_encode J [(k, v)] True (js_reset J j)) = json_member k v"

section \<open>The ring\<close>

text \<open>
  The submission queue, the submitter and the completion queue of one ring. \<open>sq_log\<close> is an
  observation, not an operation: every entry pushed so far. Pushing to a full queue fails and
  changes nothing; \<open>push_multiple\<close> takes all of its entries or none.
\<close>

record 'q ring_ops =
  sq_push :: "'q \<Rightarrow> sqe \<Rightarrow> 'q option"
  sq_push_multiple :: "'q \<Rightarrow> sqe list \<Rightarrow> 'q option"
  sq_sync :: "'q \<Rightarrow> 'q"
  sq_len :: "'q \<Rightarrow> nat"
  sq_capacity :: "'q \<Rightarrow> nat"
  rg_submit :: "'q \<Rightarrow> nat outcome \<times> 'q"
  rg_submit_and_wait :: "'q \<Rightarrow> nat \<Rightarrow> nat outcome \<times> 'q"
  rg_register_files :: "'q \<Rightarrow> fd list \<Rightarrow> unit outcome \<times> 'q"
  cq_is_empty :: "'q \<Rightarrow> bool"
  cq_len :: "'q \<Rightarrow> nat"
  cq_sync :: "'q \<Rightarrow> 'q"
  cq_next :: "'q \<Rightarrow> (cqe \<times> 'q) option"
  sq_log :: "'q \<Rightarrow> sqe list"

locale ring =
  fixes Q :: "'q ring_ops"
  assumes push_room: "sq_len Q q < sq_capacity Q q \<Longrightarrow> \<exists>q'. sq_push Q q e = Some q' \<and>
      sq_log Q q' = sq_log Q q @ [e] \<and> sq_len Q q' = Suc (sq_len Q q) \<and>
      sq_capacity Q q' = sq_capacity Q q \<and> cq_len Q q' = cq_len Q q"
    and push_full: "\<not> sq_len Q q < sq_capacity Q q \<Longrightarrow> sq_push Q q e = None"
    and push_multiple_room: "sq_len Q q + length es \<le> sq_capacity Q q \<Longrightarrow>
      \<exists>q'. sq_push_multiple Q q es = Some q' \<and> sq_log Q q' = sq_log Q q @ es \<and>
        sq_len Q q' = sq_len Q q + length es \<and> sq_capacity Q q' = sq_capacity Q q \<and>
        cq_len Q q' = cq_len Q q"
    and push_multiple_full: "\<not> sq_len Q q + length es \<le> sq_capacity Q q \<Longrightarrow>
      sq_push_multiple Q q es = None"
    and sync_log: "sq_log Q (sq_sync Q q) = sq_log Q q"
    and sync_capacity: "sq_capacity Q (sq_sync Q q) = sq_capacity Q q"
    and sync_len: "sq_len Q (sq_sync Q q) \<le> sq_len Q q"
    and sync_cq: "cq_len Q (sq_sync Q q) = cq_len Q q"
    and submit_log: "sq_log Q (snd (rg_submit Q q)) = sq_log Q q"
    and submit_capacity: "sq_capacity Q (snd (rg_submit Q q)) = sq_capacity Q q"
    and submit_len: "sq_len Q (snd (rg_submit Q q)) \<le> sq_len Q q"
    and submit_cq: "cq_len Q (snd (rg_submit Q q)) = cq_len Q q"
    and wait_log: "sq_log Q (snd (rg_submit_and_wait Q q n)) = sq_log Q q"
    and wait_capacity: "sq_capacity Q (snd (rg_submit_and_wait Q q n)) = sq_capacity Q q"
    and wait_cq: "cq_len Q (snd (rg_submit_and_wait Q q n)) = cq_len Q q"
    and register_log: "sq_log Q (snd (rg_register_files Q q fs)) = sq_log Q q"
    and cq_sync_log: "sq_log Q (cq_sync Q q) = sq_log Q q"
    and empty_len: "cq_is_empty Q q \<longleftrightarrow> cq_len Q q = 0"
    and next_none: "cq_next Q q = None \<longleftrightarrow> cq_len Q q = 0"
    and next_some: "cq_next Q q = Some (c, q') \<Longrightarrow> cq_len Q q = Suc (cq_len Q q') \<and>
      sq_log Q q' = sq_log Q q \<and> sq_len Q q' = sq_len Q q \<and> sq_capacity Q q' = sq_capacity Q q"

context ring
begin

lemma push_multiple_Some:
  assumes "sq_push_multiple Q q es = Some q'"
  shows "sq_len Q q + length es \<le> sq_capacity Q q" "sq_log Q q' = sq_log Q q @ es"
    "sq_len Q q' = sq_len Q q + length es" "sq_capacity Q q' = sq_capacity Q q"
    "cq_len Q q' = cq_len Q q"
proof -
  show room: "sq_len Q q + length es \<le> sq_capacity Q q"
    using push_multiple_full [of q es] assms by fastforce
  show "sq_log Q q' = sq_log Q q @ es" "sq_len Q q' = sq_len Q q + length es"
    "sq_capacity Q q' = sq_capacity Q q" "cq_len Q q' = cq_len Q q"
    using push_multiple_room [OF room] assms by auto
qed

lemma push_multiple_None:
  "sq_push_multiple Q q es = None \<longleftrightarrow> \<not> sq_len Q q + length es \<le> sq_capacity Q q"
  using push_multiple_room [of q es] push_multiple_full [of q es] by fastforce

lemma push_Some:
  assumes "sq_push Q q e = Some q'"
  shows "sq_log Q q' = sq_log Q q @ [e]" "cq_len Q q' = cq_len Q q"
    "sq_capacity Q q' = sq_capacity Q q"
  using push_room [of q e] push_full [of q e] assms by fastforce+

end

section \<open>All of them\<close>

text \<open>\<open>rt_getfl\<close> is what the kernel answers to \<open>fcntl(fd, F_GETFL)\<close>.\<close>

record ('v, 'w, 'l, 'j, 'q) runtime =
  rt_fds :: "('v, fd) svec_ops"
  rt_outs :: "('w, 'l) svec_ops"
  rt_lake :: "'l lake_ops"
  rt_json :: "'j json_ops"
  rt_ring :: "'q ring_ops"
  rt_getfl :: "fd \<Rightarrow> u32"

definition runtime_laws :: "('v, 'w, 'l, 'j, 'q) runtime \<Rightarrow> bool" where
  "runtime_laws E \<longleftrightarrow> stable_vec (rt_fds E) \<and> stable_vec (rt_outs E) \<and> lake (rt_lake E) \<and>
     json (rt_json E) \<and> ring (rt_ring E)"

locale lawful_runtime =
  fixes E :: "('v, 'w, 'l, 'j, 'q) runtime"
  assumes laws: "runtime_laws E"

sublocale lawful_runtime \<subseteq> fds: stable_vec "rt_fds E"
  using laws by (simp add: runtime_laws_def)

sublocale lawful_runtime \<subseteq> outs: stable_vec "rt_outs E"
  using laws by (simp add: runtime_laws_def)

sublocale lawful_runtime \<subseteq> lakes: lake "rt_lake E"
  using laws by (simp add: runtime_laws_def)

sublocale lawful_runtime \<subseteq> json: json "rt_json E"
  using laws by (simp add: runtime_laws_def)

sublocale lawful_runtime \<subseteq> ring: ring "rt_ring E"
  using laws by (simp add: runtime_laws_def)

end
