(* ===== verification/Reference_Runtime.thy ===== *)
theory Reference_Runtime
  imports Runtime
begin

text \<open>
  An executable implementation of every crate interface of \<open>Runtime\<close>, complete and
  deterministic, which discharges the laws: slots with a spare capacity for the stable vector, a
  bounded byte string for the lake, an object printer for JSON, and a bounded queue with a
  submission side and a completion side for the ring. The concrete runs of the development
  evaluate on it.
\<close>

section \<open>Stable vector\<close>

record 'a slots =
  cells :: "'a option list"
  spare :: nat

definition slots_get :: "'a slots \<Rightarrow> nat \<Rightarrow> 'a option" where
  "slots_get v i = (if i < length (cells v) then cells v ! i else None)"

definition slots_push :: "'a slots \<Rightarrow> 'a \<Rightarrow> 'a slots \<times> nat" where
  "slots_push v x = (\<lparr>cells = cells v @ [Some x], spare = spare v - 1\<rparr>, length (cells v))"

definition slots_insert :: "'a slots \<Rightarrow> nat \<Rightarrow> 'a \<Rightarrow> 'a slots option" where
  "slots_insert v i x =
     (if i < length (cells v) then Some (v\<lparr>cells := (cells v)[i := Some x]\<rparr>)
      else if i < length (cells v) + spare v
      then Some \<lparr>cells = cells v @ replicate (i - length (cells v)) None @ [Some x],
                 spare = spare v - (i + 1 - length (cells v))\<rparr>
      else None)"

definition slots_set :: "'a slots \<Rightarrow> nat \<Rightarrow> 'a \<Rightarrow> 'a slots" where
  "slots_set v i x = v\<lparr>cells := (cells v)[i := Some x]\<rparr>"

definition slots_remove :: "'a slots \<Rightarrow> nat \<Rightarrow> ('a slots \<times> 'a option) option" where
  "slots_remove v i =
     (if i < length (cells v) then Some (v\<lparr>cells := (cells v)[i := None]\<rparr>, cells v ! i)
      else if i < length (cells v) + spare v then Some (v, None) else None)"

definition slots_indices :: "'a slots \<Rightarrow> nat list" where
  "slots_indices v = filter (\<lambda>i. slots_get v i \<noteq> None) [0..<length (cells v)]"

definition slots_vec :: "('a slots, 'a) svec_ops" where
  "slots_vec = \<lparr>sv_new = \<lparr>cells = [], spare = 0\<rparr>, sv_with_capacity = (\<lambda>n. \<lparr>cells = [], spare = n\<rparr>),
     sv_push = slots_push, sv_insert = slots_insert, sv_get = slots_get, sv_set = slots_set,
     sv_remove = slots_remove, sv_indices = slots_indices, sv_next = (\<lambda>v. length (cells v)),
     sv_capacity = (\<lambda>v. length (cells v) + spare v)\<rparr>"

lemma slots_get_insert:
  "slots_insert v i x = Some v' \<Longrightarrow> slots_get v' = (slots_get v)(i \<mapsto> x)"
  by (auto simp: slots_insert_def slots_get_def fun_eq_iff nth_append nth_list_update
      split: if_splits)

lemma slots_get_push: "slots_get (fst (slots_push v x)) = (slots_get v)(length (cells v) \<mapsto> x)"
  by (auto simp: slots_push_def slots_get_def fun_eq_iff nth_append)

lemma slots_get_remove:
  "slots_remove v i = Some (v', r) \<Longrightarrow> slots_get v' = (slots_get v)(i := None) \<and> r = slots_get v i"
  by (auto simp: slots_remove_def slots_get_def fun_eq_iff nth_list_update split: if_splits)

lemma slots_capacity:
  "slots_insert v i x = Some v' \<Longrightarrow> length (cells v') + spare v' = length (cells v) + spare v"
  "slots_remove v i = Some (v', r) \<Longrightarrow> length (cells v') + spare v' = length (cells v) + spare v"
  "slots_remove v i = Some (v', r) \<Longrightarrow> length (cells v') = length (cells v)"
  by (auto simp: slots_insert_def slots_remove_def split: if_splits)

interpretation slots: stable_vec slots_vec
proof unfold_locales
  fix v :: "'a slots"
  show "sorted_wrt (<) (sv_indices slots_vec v)"
    by (simp add: slots_vec_def slots_indices_def sorted_wrt_filter)
  show "set (sv_indices slots_vec v) = {i. sv_get slots_vec v i \<noteq> None}"
    by (auto simp: slots_vec_def slots_indices_def slots_get_def split: if_splits)
qed (auto simp: slots_vec_def slots_get_insert slots_get_push slots_get_remove slots_capacity,
     auto simp: slots_get_def slots_push_def slots_set_def slots_insert_def slots_remove_def
       fun_eq_iff nth_list_update split: if_splits)

section \<open>Lake\<close>

type_synonym bounded = "nat \<times> byte list"

definition bounded_write :: "bounded \<Rightarrow> byte list \<Rightarrow> bounded outcome" where
  "bounded_write l bs =
     (if length (snd l) + length bs \<le> fst l then Inr (fst l, snd l @ bs) else Inl Panic)"

definition bounded_lake :: "bounded lake_ops" where
  "bounded_lake = \<lparr>lk_build = (\<lambda>n. (n, [])), lk_capacity = fst, lk_bytes = snd,
     lk_len = (\<lambda>l. length (snd l)), lk_reset = (\<lambda>l. (fst l, [])), lk_write = bounded_write,
     lk_write_num = (\<lambda>l n w. bounded_write l (decimal w n)),
     lk_write_to = (\<lambda>dst src n. if n \<le> length dst \<and> n \<le> length src
        then Inr (take n src @ drop n dst) else Inl Undefined_Behaviour)\<rparr>"

interpretation bounded: lake bounded_lake
  by unfold_locales (auto simp: bounded_lake_def bounded_write_def split: if_splits)

section \<open>JSON\<close>

fun json_members :: "(byte list \<times> byte list) list \<Rightarrow> byte list" where
  "json_members [] = []"
| "json_members [(k, v)] = [0x22] @ k @ [0x22, 0x3A, 0x22] @ v @ [0x22]"
| "json_members ((k, v) # ms) = [0x22] @ k @ [0x22, 0x3A, 0x22] @ v @ [0x22, 0x2C] @ json_members ms"

definition printer :: "byte list json_ops" where
  "printer = \<lparr>js_default = [], js_reset = (\<lambda>_. []),
     js_encode = (\<lambda>ms b j. j @ [0x7B] @ json_members ms @ [0x7D]), js_bytes = (\<lambda>j. j)\<rparr>"

interpretation printer: json printer
  by unfold_locales (simp add: printer_def json_member_def)

section \<open>Ring\<close>

text \<open>
  \<open>queued\<close> entries sit in the submission queue as the process sees it; those among them that
  the kernel has \<open>taken\<close> leave it at the next sync. Completions \<open>posted\<close> by the kernel
  become \<open>visible\<close> at the next sync of the completion queue.
\<close>

record ring_state =
  pushed :: "sqe list"
  queued :: nat
  taken :: nat
  room :: nat
  visible :: "cqe list"
  posted :: "cqe list"

definition queue_push :: "ring_state \<Rightarrow> sqe list \<Rightarrow> ring_state option" where
  "queue_push q es =
     (if queued q + length es \<le> room q
      then Some (q\<lparr>pushed := pushed q @ es, queued := queued q + length es\<rparr>) else None)"

definition queue :: "ring_state ring_ops" where
  "queue = \<lparr>sq_push = (\<lambda>q e. queue_push q [e]), sq_push_multiple = queue_push,
     sq_sync = (\<lambda>q. q\<lparr>queued := queued q - taken q, taken := 0\<rparr>),
     sq_len = queued, sq_capacity = room,
     rg_submit = (\<lambda>q. (Inr (queued q), q\<lparr>taken := queued q\<rparr>)),
     rg_submit_and_wait = (\<lambda>q n. (Inr (queued q), q\<lparr>taken := queued q\<rparr>)),
     rg_register_files = (\<lambda>q fds. (Inr (), q)),
     cq_is_empty = (\<lambda>q. visible q = []), cq_len = (\<lambda>q. length (visible q)),
     cq_sync = (\<lambda>q. q\<lparr>visible := visible q @ posted q, posted := []\<rparr>),
     cq_next = (\<lambda>q. case visible q of [] \<Rightarrow> None | c # cs \<Rightarrow> Some (c, q\<lparr>visible := cs\<rparr>)),
     sq_log = pushed\<rparr>"

interpretation queue: ring queue
  by unfold_locales (auto simp: queue_def queue_push_def split: list.splits)

definition reference_runtime :: "(fd slots, bounded slots, bounded, byte list, ring_state) runtime" where
  "reference_runtime = \<lparr>rt_fds = slots_vec, rt_outs = slots_vec, rt_lake = bounded_lake,
     rt_json = printer, rt_ring = queue, rt_getfl = (\<lambda>_. 2)\<rparr>"

lemma reference_runtime_laws: "runtime_laws reference_runtime"
  by (simp add: runtime_laws_def reference_runtime_def slots.stable_vec_axioms
      bounded.lake_axioms printer.json_axioms queue.ring_axioms)

interpretation reference: lawful_runtime reference_runtime
  by (rule lawful_runtime.intro) (rule reference_runtime_laws)

end
