(* ===== verification/Handler.thy ===== *)
theory Handler
  imports Reference_Runtime
begin

text \<open>
  The request handler of \<open>src/src/main.rs\<close>: it routes a method and a path to one of three
  answers, lays the answer out in a lake of 512 bytes and copies it to the response cache of the
  server.
\<close>

section \<open>The handler\<close>

definition CRLF :: "byte list" where "CRLF = [13, 10]"

definition STATUS_SUCCESS :: "byte list" where
  "STATUS_SUCCESS = ascii ''HTTP/1.1 200 OK'' @ CRLF"

definition STATUS_NOT_FOUND :: "byte list" where
  "STATUS_NOT_FOUND = ascii ''HTTP/1.1 404 Not Found'' @ CRLF"

definition CONTENT_TYPE_TEXT :: "byte list" where
  "CONTENT_TYPE_TEXT = ascii ''Content-Type: text/plain; charset=utf-8'' @ CRLF"

definition CONTENT_TYPE_JSON :: "byte list" where
  "CONTENT_TYPE_JSON = ascii ''Content-Type: application/json; charset=utf-8'' @ CRLF"

definition BASE_HEADERS :: "byte list" where
  "BASE_HEADERS = ascii ''Server: Tachyon'' @ CRLF @ ascii ''Connection: keep-alive'' @ CRLF
     @ ascii ''Keep-Alive: timeout=5, max=1000'' @ CRLF @ CRLF"

text \<open>The router: status line, content type and body, and the JSON buffer it may have used.\<close>

definition router ::
  "'j json_ops \<Rightarrow> byte list \<Rightarrow> byte list \<Rightarrow> 'j \<Rightarrow> (byte list \<times> byte list \<times> byte list) \<times> 'j" where
  "router J req_meth path json_buf =
     (if req_meth = ascii ''GET'' \<and> path = ascii ''/plaintext''
      then ((STATUS_SUCCESS, CONTENT_TYPE_TEXT, ascii ''Hello, World!''), json_buf)
      else if req_meth = ascii ''GET'' \<and> path = ascii ''/json''
      then let json_buf = js_encode J [(ascii ''message'', ascii ''Hello, World!'')] True json_buf
           in ((STATUS_SUCCESS, CONTENT_TYPE_JSON, js_bytes J json_buf), json_buf)
      else ((STATUS_NOT_FOUND, CONTENT_TYPE_TEXT, ascii ''Not, found!''), json_buf))"

text \<open>
  \<open>Server::handler\<close>, with the buffers it borrows mutably passed in and returned: the length
  written, the response cache from the given position on, the JSON buffer and the lake.
\<close>

definition handler ::
  "'l lake_ops \<Rightarrow> 'j json_ops \<Rightarrow> byte list \<Rightarrow> byte list \<Rightarrow> byte list \<Rightarrow> byte list \<Rightarrow> 'j \<Rightarrow> 'l
     \<Rightarrow> (nat \<times> byte list \<times> 'j \<times> 'l) outcome" where
  "handler L J req_meth path today hot_cache json_buf data_lake =
     (let json_buf = js_reset J json_buf;
          data_lake = lk_reset L data_lake;
          ((status_line, ct, body), json_buf) = router J req_meth path json_buf in
      obind (lk_write L data_lake status_line) (\<lambda>data_lake.
      obind (lk_write L data_lake ct) (\<lambda>data_lake.
      obind (lk_write L data_lake today) (\<lambda>data_lake.
      obind (lk_write L data_lake CRLF) (\<lambda>data_lake.
      obind (lk_write L data_lake (ascii ''Content-Length: '')) (\<lambda>data_lake.
      obind (lk_write_num L data_lake (length body) 2) (\<lambda>data_lake.
      obind (lk_write L data_lake CRLF) (\<lambda>data_lake.
      obind (lk_write L data_lake BASE_HEADERS) (\<lambda>data_lake.
      obind (lk_write L data_lake body) (\<lambda>data_lake.
      obind (lk_write_to L hot_cache (lk_bytes L data_lake) (lk_len L data_lake)) (\<lambda>hot_cache.
        Inr (lk_len L data_lake, hot_cache, json_buf, data_lake))))))))))))"

section \<open>What it answers\<close>

text \<open>The answer as a function of the request, and its bytes for a given date header.\<close>

definition answer :: "byte list \<Rightarrow> byte list \<Rightarrow> byte list \<times> byte list \<times> byte list" where
  "answer m p =
     (if m = ascii ''GET'' \<and> p = ascii ''/plaintext''
      then (STATUS_SUCCESS, CONTENT_TYPE_TEXT, ascii ''Hello, World!'')
      else if m = ascii ''GET'' \<and> p = ascii ''/json''
      then (STATUS_SUCCESS, CONTENT_TYPE_JSON,
            json_member (ascii ''message'') (ascii ''Hello, World!''))
      else (STATUS_NOT_FOUND, CONTENT_TYPE_TEXT, ascii ''Not, found!''))"

definition response :: "byte list \<Rightarrow> byte list \<times> byte list \<Rightarrow> byte list" where
  "response today r =
     (case answer (fst r) (snd r) of (status_line, ct, body) \<Rightarrow>
        status_line @ ct @ today @ CRLF @ ascii ''Content-Length: '' @ decimal 2 (length body)
          @ CRLF @ BASE_HEADERS @ body)"

lemma length_CRLF [simp]: "length CRLF = 2"
  by (simp add: CRLF_def)

lemma length_headers [simp]:
  "length STATUS_SUCCESS = 17" "length STATUS_NOT_FOUND = 24"
  "length CONTENT_TYPE_TEXT = 41" "length CONTENT_TYPE_JSON = 47" "length BASE_HEADERS = 76"
  by (simp_all add: STATUS_SUCCESS_def STATUS_NOT_FOUND_def CONTENT_TYPE_TEXT_def
      CONTENT_TYPE_JSON_def BASE_HEADERS_def)

lemma answer_cases:
  obtains (plaintext) "answer m p = (STATUS_SUCCESS, CONTENT_TYPE_TEXT, ascii ''Hello, World!'')"
  | (json) "answer m p = (STATUS_SUCCESS, CONTENT_TYPE_JSON,
            json_member (ascii ''message'') (ascii ''Hello, World!''))"
  | (not_found) "answer m p = (STATUS_NOT_FOUND, CONTENT_TYPE_TEXT, ascii ''Not, found!'')"
  unfolding answer_def by (metis (full_types))

lemma length_json_member [simp]: "length (json_member k v) = length k + length v + 7"
  by (simp add: json_member_def)

lemma answer_body_bounds:
  "answer m p = (st, ct, body) \<Longrightarrow> 10 \<le> length body \<and> length body < 100"
  by (cases m p rule: answer_cases) auto

lemma length_response:
  "length (response today r) = length today + (case answer (fst r) (snd r) of (st, ct, body) \<Rightarrow>
     length st + length ct + length body) + 98"
  by (simp add: response_def split: prod.splits)

lemma length_response_le: "length today = 35 \<Longrightarrow> length (response today r) \<le> 224"
  by (cases "fst r" "snd r" rule: answer_cases) (auto simp: length_response)

text \<open>
  Every answer fits the lake of 512 bytes with room to spare: with a date header of 35 bytes
  it is 204 bytes for \<open>/plaintext\<close>, 224 for \<open>/json\<close> and 209 for everything else.
\<close>

theorem response_length:
  assumes "length today = 35"
  shows "length (response today (m, p)) =
    (if m = ascii ''GET'' \<and> p = ascii ''/plaintext'' then 204
     else if m = ascii ''GET'' \<and> p = ascii ''/json'' then 224 else 209)"
  using assms by (simp add: length_response answer_def)

theorem response_length_witness:
  "length (response (replicate 35 0) (ascii ''GET'', ascii ''/json'')) = 224"
  using response_length [of "replicate 35 0" "ascii ''GET''" "ascii ''/json''"] by simp

section \<open>The handler computes the answer\<close>

lemma router_answer:
  assumes "json J"
  shows "fst (router J m p (js_reset J j)) = answer m p"
  using json.encode_member [OF assms, of "ascii ''message''" "ascii ''Hello, World!''" j]
  by (simp add: router_def answer_def Let_def)

text \<open>
  Writes to a lake that has room, one after the other: each one appends its bytes and keeps the
  capacity, and hands such a lake to what comes next.
\<close>

context lake
begin

lemma write_then:
  assumes "lk_bytes L l = bs" "lk_capacity L l = c" "length bs + length xs \<le> c"
    and "\<And>l'. lk_bytes L l' = bs @ xs \<Longrightarrow> lk_capacity L l' = c \<Longrightarrow> \<exists>r. f l' = Inr r \<and> P r"
  shows "\<exists>r. obind (lk_write L l xs) f = Inr r \<and> P r"
  using write_in [of l xs] write_capacity [of l xs] assms by (auto simp: obind_eq_Inr_iff)

lemma write_num_then:
  assumes "lk_bytes L l = bs" "lk_capacity L l = c" "length bs + 2 \<le> c" "10 \<le> n" "n < 100"
    and "\<And>l'. lk_bytes L l' = bs @ decimal 2 n \<Longrightarrow> lk_capacity L l' = c \<Longrightarrow> \<exists>r. f l' = Inr r \<and> P r"
  shows "\<exists>r. obind (lk_write_num L l n 2) f = Inr r \<and> P r"
  using write_num_in [of l 2 n] write_num_capacity [of l n 2] assms by (auto simp: obind_eq_Inr_iff)

lemma copy_out_then:
  assumes "lk_bytes L l = bs" "length bs \<le> length dst"
    and "\<exists>r. f (bs @ drop (length bs) dst) = Inr r \<and> P r"
  shows "\<exists>r. obind (lk_write_to L dst (lk_bytes L l) (lk_len L l)) f = Inr r \<and> P r"
  using assms by (simp add: len_bytes write_to_in)

end

lemma handler_capacity:
  assumes "lake L" "handler L J m p today hot j l = Inr (n, hot', j', l')"
  shows "lk_capacity L l' = lk_capacity L l"
  using assms(2) lake.write_capacity [OF assms(1)] lake.write_num_capacity [OF assms(1)]
    lake.reset_capacity [OF assms(1)]
  by (force simp: handler_def Let_def obind_eq_Inr_iff split: prod.splits)

lemma handler_lays_out:
  assumes "lake L" "json J" "length (response today (m, p)) \<le> lk_capacity L l"
    "length (response today (m, p)) \<le> length hot"
  shows "\<exists>r. handler L J m p today hot j l = Inr r \<and>
    (case r of (n, hot', j', l') \<Rightarrow> n = length (response today (m, p)) \<and>
      hot' = response today (m, p) @ drop n hot \<and> lk_bytes L l' = response today (m, p) \<and>
      lk_capacity L l' = lk_capacity L l)"
proof -
  obtain st ct body where ans: "answer m p = (st, ct, body)" by (metis prod_cases3)
  obtain j' where route: "router J m p (js_reset J j) = ((st, ct, body), j')"
    using router_answer [OF assms(2), of m p j] ans by (metis prod.collapse)
  have body: "10 \<le> length body" "length body < 100" using answer_body_bounds [OF ans] by auto
  have resp: "response today (m, p) = ((((((((([] @ st) @ ct) @ today) @ CRLF) @ ascii ''Content-Length: '')
      @ decimal 2 (length body)) @ CRLF) @ BASE_HEADERS) @ body)"
    by (simp add: response_def ans)
  have len: "length st + length ct + length today + length body + 98 \<le> lk_capacity L l"
    "length st + length ct + length today + length body + 98 \<le> length hot"
    using assms(3,4) by (auto simp: length_response ans)
  note append = lake.write_then [OF assms(1)] and number = lake.write_num_then [OF assms(1)]
    and copy = lake.copy_out_then [OF assms(1)]
  show ?thesis
    unfolding handler_def Let_def route prod.case
    by (rule append [OF lake.reset_bytes [OF assms(1)] lake.reset_capacity [OF assms(1)]],
        use len in simp,
        (rule append, assumption, assumption, use len in simp)+,
        rule number, assumption, assumption, use len in simp, rule body(1), rule body(2),
        (rule append, assumption, assumption, use len in simp)+,
        rule copy, assumption, use len in simp)
       (simp add: resp lake.len_bytes [OF assms(1)])
qed

text \<open>
  C15: under the laws of the lake and of the JSON buffer, the handler never fails when the lake
  and the response cache have room for the answer; it returns the length of the answer, leaves
  exactly the answer in the lake and at the front of the cache, and keeps the rest of the cache.
\<close>

theorem handler_response:
  assumes "lake L" "json J" "length (response today (m, p)) \<le> lk_capacity L l"
    "length (response today (m, p)) \<le> length hot_cache"
  shows "\<exists>j' l'. handler L J m p today hot_cache j l =
      Inr (length (response today (m, p)),
        response today (m, p) @ drop (length (response today (m, p))) hot_cache, j', l') \<and>
    lk_bytes L l' = response today (m, p) \<and> lk_capacity L l' = lk_capacity L l"
  using handler_lays_out [OF assms, of j] by auto

theorem handler_response_witness:
  "\<exists>j' l'. handler bounded_lake printer (ascii ''GET'') (ascii ''/json'') (replicate 35 65)
      (replicate 300 0) [] (512, []) =
    Inr (224, response (replicate 35 65) (ascii ''GET'', ascii ''/json'') @ replicate 76 0, j', l')"
proof -
  let ?r = "response (replicate 35 65) (ascii ''GET'', ascii ''/json'')"
  have len: "length ?r = 224" using response_length [of "replicate 35 65"] by simp
  then have "length ?r \<le> lk_capacity bounded_lake (512, [])" "length ?r \<le> length (replicate 300 (0 :: byte))"
    by (simp_all add: bounded_lake_def)
  from handler_response [OF bounded.lake_axioms printer.json_axioms this, of "[]"]
  show ?thesis unfolding len by auto
qed




end
