(* ===== verification/Http.thy ===== *)
theory Http
  imports Simd
begin

text \<open>
  \<open>src/src/library/utils/http.rs\<close>: the request scanner. \<open>find_request_starts_avx2\<close> looks for
  \<open>GET\<close> and \<open>POS\<close> anywhere in a buffer, \<open>parse_one_manual\<close> cuts a method and a path out of
  the 32 bytes from such a position on, \<open>parse_http_methods_paths\<close> puts the two together.

  The unaligned eight-byte read of \<open>parse_one_manual\<close> is read as the hardware performs it, byte
  by byte; integer arithmetic is that of a release build, where the amount of a 32-bit shift is
  taken modulo 32. Lengths that the code keeps in a \<open>u8\<close> are at most 32 and are \<open>nat\<close> here.
\<close>

section \<open>The routines\<close>

subsection \<open>One request line\<close>

definition SPACE :: byte where "SPACE = 0x20"

definition GET_MASK :: u64 where
  "GET_MASK = from_le_bytes (ascii ''GET '' @ [0, 0, 0, 0])"

definition POST_MASK :: u64 where
  "POST_MASK = from_le_bytes (ascii ''POST '' @ [0, 0, 0])"

definition load_u64 :: "byte list \<Rightarrow> nat \<Rightarrow> u64 outcome" where
  "load_u64 mem off = obind (slice_raw mem off 8) (\<lambda>bs. Inr (from_le_bytes bs))"

definition shr_u32 :: "u32 \<Rightarrow> nat \<Rightarrow> u32" where
  "shr_u32 w k = drop_bit (k mod 32) w"

definition space_mask :: "vec256 \<Rightarrow> u32" where
  "space_mask chunk = mm256_movemask (mm256_cmpeq chunk (mm256_set1 SPACE))"

type_synonym request_cut = "(nat \<times> nat) \<times> (nat \<times> nat) \<times> nat"

definition parse_one_manual :: "byte list \<Rightarrow> nat \<Rightarrow> request_cut option outcome" where
  "parse_one_manual mem ptr =
     obind (load_u64 mem ptr) (\<lambda>first8.
     if first8 AND 0xFFFFFFFF = GET_MASK then
       let method_len = 3; path_start = 4 in
       obind (mm256_loadu mem ptr) (\<lambda>chunk.
         let mask = space_mask chunk; mask2 = shr_u32 mask path_start in
         if mask2 = 0 then Inr None
         else let path_len = trailing_zeros mask2 in
              Inr (Some ((0, method_len), (path_start, path_len), 0)))
     else if first8 AND 0xFFFFFFFFFF = POST_MASK then
       let method_len = 4; path_start = 5 in
       obind (mm256_loadu mem ptr) (\<lambda>chunk.
         let mask = space_mask chunk; mask2 = shr_u32 mask path_start in
         if mask2 = 0 then Inr None
         else let path_len = trailing_zeros mask2 in
              Inr (Some ((0, method_len), (path_start, path_len), 0)))
     else
       obind (mm256_loadu mem ptr) (\<lambda>chunk.
         let mask = space_mask chunk in
         if mask = 0 then Inr None
         else let method_len = trailing_zeros mask; path_start = method_len + 1;
                  mask2 = shr_u32 mask path_start in
              if mask2 = 0 then Inr None
              else let path_len = trailing_zeros mask2 in
                   Inr (Some ((0, method_len), (path_start, path_len), 0))))"

subsection \<open>Request starts\<close>

text \<open>
  The inner loop \<open>while bits != 0 && count < N\<close>, shared by the three places that have it:
  \<open>base\<close> is \<open>i\<close> or \<open>i + 32\<close>.
\<close>

function collect_starts :: "nat \<Rightarrow> u32 \<Rightarrow> nat \<Rightarrow> nat list \<Rightarrow> nat \<Rightarrow> (nat list \<times> nat) outcome" where
  "collect_starts N bits base found count =
     (if bits \<noteq> 0 \<and> count < N
      then let tz = trailing_zeros bits in
           obind (slice_set found count (base + tz)) (\<lambda>found.
             collect_starts N (bits AND (bits - 1)) base found (count + 1))
      else Inr (found, count))"
  by pat_completeness auto
termination
  by (relation "measure (\<lambda>(N, bits, base, found, count). unat bits)")
     (simp_all add: clear_lowest_less)

declare collect_starts.simps [simp del]

definition three_byte_mask :: "vec256 \<Rightarrow> vec256 \<Rightarrow> vec256 \<Rightarrow> byte list \<Rightarrow> u32" where
  "three_byte_mask c0 c1 c2 word =
     mm256_movemask (mm256_and (mm256_cmpeq c0 (mm256_set1 (word ! 0)))
       (mm256_and (mm256_cmpeq c1 (mm256_set1 (word ! 1)))
                  (mm256_cmpeq c2 (mm256_set1 (word ! 2)))))"

text \<open>\<open>get_mask | post_mask\<close> for the chunks at \<open>i\<close>, \<open>i + 1\<close> and \<open>i + 2\<close>.\<close>

definition request_mask :: "vec256 \<Rightarrow> vec256 \<Rightarrow> vec256 \<Rightarrow> u32" where
  "request_mask c0 c1 c2 =
     three_byte_mask c0 c1 c2 (ascii ''GET'') OR three_byte_mask c0 c1 c2 (ascii ''POS'')"

function scan_starts_64 ::
  "nat \<Rightarrow> byte list \<Rightarrow> nat \<Rightarrow> nat list \<Rightarrow> nat \<Rightarrow> (nat \<times> nat list \<times> nat) outcome" where
  "scan_starts_64 N buf i found count =
     (if i + 66 \<le> length buf \<and> count < N
      then obind (mm256_loadu buf i) (\<lambda>c0a.
           obind (mm256_loadu buf (i + 1)) (\<lambda>c1a.
           obind (mm256_loadu buf (i + 2)) (\<lambda>c2a.
           obind (mm256_loadu buf (i + 32)) (\<lambda>c0b.
           obind (mm256_loadu buf (i + 33)) (\<lambda>c1b.
           obind (mm256_loadu buf (i + 34)) (\<lambda>c2b.
           let mask_a = request_mask c0a c1a c2a; mask_b = request_mask c0b c1b c2b in
           obind (if mask_a \<noteq> 0 then collect_starts N mask_a i found count
                  else Inr (found, count)) (\<lambda>(found, count).
           obind (if mask_b \<noteq> 0 then collect_starts N mask_b (i + 32) found count
                  else Inr (found, count)) (\<lambda>(found, count).
             scan_starts_64 N buf (i + 64) found count))))))))
      else Inr (i, found, count))"
  by pat_completeness auto
termination
  by (relation "measure (\<lambda>(N, buf, i, found, count). length buf - i)") auto

declare scan_starts_64.simps [simp del]

function scan_starts_32 ::
  "nat \<Rightarrow> byte list \<Rightarrow> nat \<Rightarrow> nat list \<Rightarrow> nat \<Rightarrow> (nat list \<times> nat) outcome" where
  "scan_starts_32 N buf i found count =
     (if i + 34 \<le> length buf \<and> count < N
      then obind (mm256_loadu buf i) (\<lambda>chunk0.
           obind (mm256_loadu buf (i + 1)) (\<lambda>chunk1.
           obind (mm256_loadu buf (i + 2)) (\<lambda>chunk2.
           let mask = request_mask chunk0 chunk1 chunk2 in
           obind (if mask \<noteq> 0 then collect_starts N mask i found count
                  else Inr (found, count)) (\<lambda>(found, count).
             scan_starts_32 N buf (i + 32) found count))))
      else Inr (found, count))"
  by pat_completeness auto
termination
  by (relation "measure (\<lambda>(N, buf, i, found, count). length buf - i)") auto

declare scan_starts_32.simps [simp del]

definition find_request_starts_avx2 :: "nat \<Rightarrow> byte list \<Rightarrow> (nat list \<times> nat) outcome" where
  "find_request_starts_avx2 N buf =
     obind (scan_starts_64 N buf 0 (replicate N 0) 0) (\<lambda>(i, found, count).
       scan_starts_32 N buf i found count)"

subsection \<open>The scanner\<close>

text \<open>A method and a path, as the byte strings the two returned slices hold.\<close>

type_synonym request_entry = "byte list \<times> byte list"

function parse_http_loop ::
  "byte list \<Rightarrow> nat list \<Rightarrow> nat \<Rightarrow> nat \<Rightarrow> request_entry list \<Rightarrow> nat
     \<Rightarrow> (request_entry list \<times> nat) outcome" where
  "parse_http_loop buf starts n_starts i out count =
     (if i < n_starts
      then obind (slice_get starts i) (\<lambda>start.
           if start + 32 > length buf then Inr (out, count)
           else obind (parse_one_manual buf start) (\<lambda>r.
             case r of
               Some ((m_off, m_len), (p_off, p_len), adv) \<Rightarrow>
                 obind (slice_raw buf (start + m_off) m_len) (\<lambda>m.
                 obind (slice_raw buf (start + p_off) p_len) (\<lambda>p.
                 obind (slice_set out count (m, p)) (\<lambda>out.
                   parse_http_loop buf starts n_starts (i + 1) out (count + 1))))
             | None \<Rightarrow> parse_http_loop buf starts n_starts (i + 1) out count))
      else Inr (out, count))"
  by pat_completeness auto
termination
  by (relation "measure (\<lambda>(buf, starts, n_starts, i, out, count). n_starts - i)") auto

declare parse_http_loop.simps [simp del]

definition parse_http_methods_paths :: "nat \<Rightarrow> byte list \<Rightarrow> (request_entry list \<times> nat) outcome" where
  "parse_http_methods_paths N buf =
     obind (find_request_starts_avx2 N buf) (\<lambda>(starts, n_starts).
       parse_http_loop buf starts n_starts 0 (replicate N ([], [])) 0)"

section \<open>What a request line is cut into\<close>

definition first_space :: "byte list \<Rightarrow> nat option" where
  "first_space xs =
     (let k = length (takeWhile (\<lambda>b. b \<noteq> SPACE) xs) in if k < length xs then Some k else None)"

text \<open>
  The reference cut of a chunk of 32 bytes, as method length, path start and path length: the
  first word and the second word, each ended by a space. When the first space is the last byte
  of the chunk, the shift by 32 of a release build leaves the mask as it was, and the cut claims a
  path of 31 bytes beyond the chunk.
\<close>

definition line_cut :: "byte list \<Rightarrow> (nat \<times> nat \<times> nat) option" where
  "line_cut c =
     (case first_space c of
        None \<Rightarrow> None
      | Some m \<Rightarrow> if m = 31 then Some (31, 32, 31)
                  else map_option (\<lambda>e. (m, m + 1, e)) (first_space (drop (m + 1) c)))"

lemma first_space_SomeI:
  "k < length xs \<Longrightarrow> xs ! k = SPACE \<Longrightarrow> (\<And>j. j < k \<Longrightarrow> xs ! j \<noteq> SPACE) \<Longrightarrow> first_space xs = Some k"
proof -
  assume k: "k < length xs" "xs ! k = SPACE" "\<And>j. j < k \<Longrightarrow> xs ! j \<noteq> SPACE"
  have "takeWhile (\<lambda>b. b \<noteq> SPACE) xs = take k xs"
    using k by (intro takeWhile_eq_take_P_nth) auto
  then show ?thesis using k by (simp add: first_space_def)
qed

lemma first_space_SomeD:
  assumes "first_space xs = Some k"
  shows "k < length xs" "xs ! k = SPACE" "j < k \<Longrightarrow> xs ! j \<noteq> SPACE"
proof -
  let ?t = "takeWhile (\<lambda>b. b \<noteq> SPACE) xs"
  have k: "k = length ?t" "k < length xs"
    using assms by (auto simp: first_space_def Let_def split: if_splits)
  then show "k < length xs" "xs ! k = SPACE"
    using nth_length_takeWhile [of "\<lambda>b. b \<noteq> SPACE" xs] by auto
  show "xs ! j \<noteq> SPACE" if "j < k"
    using that k nth_mem [of j ?t] takeWhile_nth [of j _ xs] set_takeWhileD by fastforce
qed

lemma first_space_None_iff: "first_space xs = None \<longleftrightarrow> SPACE \<notin> set xs"
proof (cases "SPACE \<in> set xs")
  case True
  then have "length (takeWhile (\<lambda>b. b \<noteq> SPACE) xs) < length xs"
    by (intro length_takeWhile_less) auto
  then show ?thesis using True by (simp add: first_space_def)
next
  case False
  then have "takeWhile (\<lambda>b. b \<noteq> SPACE) xs = xs" by (auto simp: takeWhile_eq_all_conv)
  then have "length (takeWhile (\<lambda>b. b \<noteq> SPACE) xs) = length xs" by (rule arg_cong)
  then show ?thesis using False by (simp add: first_space_def)
qed

lemma bit_space_mask:
  "length c = 32 \<Longrightarrow> bit (space_mask c) j \<longleftrightarrow> j < 32 \<and> c ! j = SPACE"
  by (simp add: space_mask_def bit_movemask_cmpeq)

lemma bit_shr_space_mask:
  assumes "length c = 32" "p < 32"
  shows "bit (shr_u32 (space_mask c) p) j \<longleftrightarrow> j < length (drop p c) \<and> drop p c ! j = SPACE"
  using assms by (auto simp: shr_u32_def bit_drop_bit_eq bit_space_mask)

lemma shr_space_mask:
  assumes "length c = 32" "p < 32"
  shows "first_space (drop p c) =
    (if shr_u32 (space_mask c) p = 0 then None else Some (trailing_zeros (shr_u32 (space_mask c) p)))"
proof (cases "shr_u32 (space_mask c) p = 0")
  case True
  then have "\<not> (j < length (drop p c) \<and> drop p c ! j = SPACE)" for j
    using bit_shr_space_mask [OF assms, of j] by simp
  then show ?thesis using True by (auto simp: first_space_None_iff in_set_conv_nth)
next
  case False
  let ?k = "trailing_zeros (shr_u32 (space_mask c) p)"
  have "bit (shr_u32 (space_mask c) p) ?k" using False by (rule bit_trailing_zeros)
  moreover have "\<not> bit (shr_u32 (space_mask c) p) j" if "j < ?k" for j
    using that by (rule below_trailing_zeros)
  ultimately have "first_space (drop p c) = Some ?k"
    unfolding bit_shr_space_mask [OF assms] by (intro first_space_SomeI) auto
  then show ?thesis using False by simp
qed

lemma shr_u32_0 [simp]: "shr_u32 w 0 = w"
  by (simp add: shr_u32_def)

lemma shr_u32_32 [simp]: "shr_u32 w 32 = w"
  by (simp add: shr_u32_def)

lemma from_le_bytes_prefix:
  assumes "length bs = 8" "length p \<le> 8"
  shows "take_bit (8 * length p) (from_le_bytes bs) = from_le_bytes (p @ replicate (8 - length p) 0)
    \<longleftrightarrow> take (length p) bs = p"
proof -
  let ?q = "p @ replicate (8 - length p) (0 :: byte)"
  have bits: "bit (from_le_bytes ?q) n \<longleftrightarrow> n div 8 < length p \<and> bit (p ! (n div 8)) (n mod 8)" for n
    using assms(2) by (auto simp: bit_from_le_bytes nth_append)
  have lhs: "bit (take_bit (8 * length p) (from_le_bytes bs)) n
      \<longleftrightarrow> n div 8 < length p \<and> bit (bs ! (n div 8)) (n mod 8)" for n
    using assms by (auto simp: bit_from_le_bytes bit_take_bit_iff less_mult_imp_div_less)
  show ?thesis
  proof
    assume eq: "take_bit (8 * length p) (from_le_bytes bs) = from_le_bytes ?q"
    have "bs ! i = p ! i" if "i < length p" for i
    proof (rule bit_word_eqI)
      fix n assume "n < LENGTH(8)"
      then have n: "(8 * i + n) div 8 = i" "(8 * i + n) mod 8 = n" by auto
      show "bit (bs ! i) n \<longleftrightarrow> bit (p ! i) n"
        using lhs [of "8 * i + n"] bits [of "8 * i + n"] that unfolding eq n by blast
    qed
    then show "take (length p) bs = p" using assms by (intro nth_equalityI) auto
  next
    assume eq: "take (length p) bs = p"
    have same: "bs ! i = p ! i" if "i < length p" for i
      using that eq by (metis nth_take)
    show "take_bit (8 * length p) (from_le_bytes bs) = from_le_bytes ?q"
      by (rule bit_eqI) (auto simp: lhs bits same)
  qed
qed

lemma first8_is_GET:
  assumes "length bs = 8"
  shows "from_le_bytes bs AND 0xFFFFFFFF = GET_MASK \<longleftrightarrow> take 4 bs = ascii ''GET ''"
proof -
  have "from_le_bytes bs AND 0xFFFFFFFF = take_bit 32 (from_le_bytes bs)"
    by (simp add: take_bit_eq_mask mask_eq_exp_minus_1)
  then show ?thesis
    using from_le_bytes_prefix [OF assms, of "ascii ''GET ''"]
    by (simp add: GET_MASK_def numeral_eq_Suc)
qed

lemma first8_is_POST:
  assumes "length bs = 8"
  shows "from_le_bytes bs AND 0xFFFFFFFFFF = POST_MASK \<longleftrightarrow> take 5 bs = ascii ''POST ''"
proof -
  have "from_le_bytes bs AND 0xFFFFFFFFFF = take_bit 40 (from_le_bytes bs)"
    by (simp add: take_bit_eq_mask mask_eq_exp_minus_1)
  then show ?thesis
    using from_le_bytes_prefix [OF assms, of "ascii ''POST ''"]
    by (simp add: POST_MASK_def numeral_eq_Suc)
qed

lemma first_space_word:
  assumes "take (Suc k) c = w @ [SPACE]" "length w = k" "SPACE \<notin> set w" "k < length c"
  shows "first_space c = Some k"
proof (rule first_space_SomeI [OF assms(4)])
  have "c ! j = (w @ [SPACE]) ! j" if "j \<le> k" for j
    using that assms(1,4) by (metis le_imp_less_Suc nth_take)
  then show "c ! k = SPACE" "\<And>j. j < k \<Longrightarrow> c ! j \<noteq> SPACE"
    using assms(2,3) by (auto simp: nth_append dest: nth_mem)
qed

definition cut_of :: "(nat \<times> nat \<times> nat) option \<Rightarrow> request_cut option" where
  "cut_of r = map_option (\<lambda>(m, p, e). ((0, m), (p, e), 0)) r"

lemma parse_one_manual_eq:
  "parse_one_manual mem ptr =
     (if ptr + 32 \<le> length mem then Inr (cut_of (line_cut (take 32 (drop ptr mem))))
      else Inl Undefined_Behaviour)"
proof (cases "ptr + 32 \<le> length mem")
  case False
  then show ?thesis
    by (auto simp: parse_one_manual_def load_u64_def slice_raw_def mm256_loadu_out obind_def)
next
  case True
  let ?c = "take 32 (drop ptr mem)" and ?b = "take 8 (drop ptr mem)"
  have len: "length ?c = 32" "length ?b = 8" using True by auto
  have load: "load_u64 mem ptr = Inr (from_le_bytes ?b)" "mm256_loadu mem ptr = Inr ?c"
    using True by (simp_all add: load_u64_def slice_simps)
  consider (get) "take 4 ?b = ascii ''GET ''" | (post) "take 4 ?b \<noteq> ascii ''GET ''" "take 5 ?b = ascii ''POST ''"
    | (other) "take 4 ?b \<noteq> ascii ''GET ''" "take 5 ?b \<noteq> ascii ''POST ''" by blast
  then show ?thesis
  proof cases
    case get
    then have "take (Suc 3) ?c = ascii ''GET'' @ [SPACE]" by (simp add: SPACE_def)
    then have "first_space ?c = Some 3"
      by (rule first_space_word) (use len in \<open>simp_all add: SPACE_def\<close>)
    then show ?thesis
      using True get shr_space_mask [OF len(1), of 4]
      by (simp add: parse_one_manual_def load first8_is_GET [OF len(2)] line_cut_def cut_of_def Let_def)
  next
    case post
    then have "take (Suc 4) ?c = ascii ''POST'' @ [SPACE]" by (simp add: SPACE_def)
    then have "first_space ?c = Some 4"
      by (rule first_space_word) (use len in \<open>simp_all add: SPACE_def\<close>)
    then show ?thesis
      using True post shr_space_mask [OF len(1), of 5]
      by (simp add: parse_one_manual_def load first8_is_GET [OF len(2)] first8_is_POST [OF len(2)]
          line_cut_def cut_of_def Let_def)
  next
    case other
    let ?m = "trailing_zeros (space_mask ?c)"
    have fs: "first_space ?c = (if space_mask ?c = 0 then None else Some ?m)"
      using shr_space_mask [OF len(1), of 0] by simp
    have wrap: "shr_u32 (space_mask ?c) 32 \<noteq> 0 \<and> trailing_zeros (space_mask ?c) = 31"
      if "?m = 31" "space_mask ?c \<noteq> 0"
      using that by simp
    have second: "first_space (drop (?m + 1) ?c) = (if shr_u32 (space_mask ?c) (?m + 1) = 0 then None
        else Some (trailing_zeros (shr_u32 (space_mask ?c) (?m + 1))))"
      if "?m \<noteq> 31" "space_mask ?c \<noteq> 0"
      using that trailing_zeros_less [of "space_mask ?c"] len
      by (intro shr_space_mask) auto
    show ?thesis
      using True other wrap second
      by (simp add: parse_one_manual_def load first8_is_GET [OF len(2)] first8_is_POST [OF len(2)]
          line_cut_def cut_of_def Let_def fs)
  qed
qed

text \<open>
  C17: \<open>parse_one_manual\<close> reads within its buffer exactly when 32 bytes are left at the
  position, and then its three code paths, the two fast ones for \<open>GET \<close> and \<open>POST \<close>
  included, all compute the reference cut of those 32 bytes.
\<close>

theorem parse_one_manual_cut:
  "parse_one_manual mem ptr =
     (if ptr + 32 \<le> length mem then Inr (cut_of (line_cut (take 32 (drop ptr mem))))
      else Inl Undefined_Behaviour)"
  by (rule parse_one_manual_eq)

section \<open>Which positions are found\<close>

text \<open>
  The reference: the positions, in order, where \<open>GET\<close> or \<open>POS\<close> stands, among the blocks of 32
  positions that the two loops cover. The last block needs 34 bytes, so up to 33 bytes at the end
  of a buffer are never looked at as starts.
\<close>

definition starts_at :: "byte list \<Rightarrow> nat \<Rightarrow> bool" where
  "starts_at buf j \<longleftrightarrow>
     take 3 (drop j buf) = ascii ''GET'' \<or> take 3 (drop j buf) = ascii ''POS''"

definition scan_limit :: "byte list \<Rightarrow> nat" where
  "scan_limit buf = 32 * ((length buf - 2) div 32)"

definition request_positions :: "byte list \<Rightarrow> nat list" where
  "request_positions buf = filter (starts_at buf) [0..<scan_limit buf]"

lemma take3_drop: "j + 3 \<le> length buf \<Longrightarrow> take 3 (drop j buf) = [buf ! j, buf ! (j + 1), buf ! (j + 2)]"
  by (rule nth_equalityI) (auto simp: less_Suc_eq numeral_3_eq_3)

lemma bit_request_mask:
  assumes "i + 34 \<le> length buf"
  shows "bit (request_mask (take 32 (drop i buf)) (take 32 (drop (i + 1) buf))
      (take 32 (drop (i + 2) buf))) j \<longleftrightarrow> j < 32 \<and> starts_at buf (i + j)"
proof -
  have len: "length (take 32 (drop i buf)) = 32" "length (take 32 (drop (i + 1) buf)) = 32"
    "length (take 32 (drop (i + 2) buf)) = 32" using assms by auto
  show ?thesis
  proof (cases "j < 32")
    case True
    then have "i + j + 3 \<le> length buf" using assms by simp
    from take3_drop [OF this] show ?thesis
      using True assms
      unfolding request_mask_def three_byte_mask_def bit_or_iff bit_movemask_cmpeq3 [OF len] starts_at_def
      by (simp add: ac_simps)
  next
    case False
    then show ?thesis
      unfolding request_mask_def three_byte_mask_def bit_or_iff bit_movemask_cmpeq3 [OF len] by simp
  qed
qed

lemma request_mask_positions:
  assumes "i + 34 \<le> length buf"
  shows "map ((+) i) (mask_positions (request_mask (take 32 (drop i buf))
      (take 32 (drop (i + 1) buf)) (take 32 (drop (i + 2) buf))))
    = filter (starts_at buf) [i..<i + 32]"
proof -
  have "filter (bit (request_mask (take 32 (drop i buf)) (take 32 (drop (i + 1) buf))
      (take 32 (drop (i + 2) buf)))) [0..<32] = filter (starts_at buf \<circ> (+) i) [0..<32]"
    by (rule filter_cong)
       (simp_all only: bit_request_mask [OF assms] o_apply set_upt atLeastLessThan_iff simp_thms)
  then show ?thesis by (simp only: mask_positions_def filter_upt_shift)
qed

lemma collect_starts_correct:
  "collect_starts N bits base (fst (filled N 0 xs)) (snd (filled N 0 xs))
    = Inr (filled N 0 (xs @ map ((+) base) (mask_positions bits)))"
proof (induction "unat bits" arbitrary: bits xs rule: less_induct)
  case less
  show ?case
  proof (cases "bits \<noteq> 0 \<and> length xs < N")
    case True
    let ?v = "base + trailing_zeros bits"
    have "collect_starts N (bits AND (bits - 1)) base (fst (filled N 0 (xs @ [?v])))
        (snd (filled N 0 (xs @ [?v])))
      = Inr (filled N 0 ((xs @ [?v]) @ map ((+) base) (mask_positions (bits AND (bits - 1)))))"
      using True by (intro less) (simp add: clear_lowest_less)
    then show ?thesis
      using True
      by (subst collect_starts.simps)
         (simp only: Let_def filled_push(1) filled_push(2) [of xs N 0 ?v] snd_filled_less obind_Inr if_True simp_thms
            mask_positions_step [of bits] list.map append_assoc append_Cons append_Nil)
  next
    case False
    then have "collect_starts N bits base (fst (filled N 0 xs)) (snd (filled N 0 xs))
        = Inr (fst (filled N 0 xs), snd (filled N 0 xs))"
      by (subst collect_starts.simps) (simp only: snd_filled_less if_False)
    moreover from False have "filled N 0 (xs @ map ((+) base) (mask_positions bits)) = filled N 0 xs"
      by (cases "bits = 0") (simp_all add: filled_full)
    ultimately show ?thesis by (simp only: prod.collapse)
  qed
qed

text \<open>The guards \<open>if mask != 0\<close> only skip a loop that would not run.\<close>

lemma collect_guarded:
  "(if bits \<noteq> 0 then collect_starts N bits base found count else Inr (found, count))
    = collect_starts N bits base found count"
  by (simp add: collect_starts.simps)

definition found_upto :: "nat \<Rightarrow> byte list \<Rightarrow> nat \<Rightarrow> nat list \<times> nat" where
  "found_upto N buf i = filled N 0 (filter (starts_at buf) [0..<i])"

lemma collect_block:
  assumes "i + 34 \<le> length buf"
  shows "collect_starts N (request_mask (take 32 (drop i buf)) (take 32 (drop (i + 1) buf))
      (take 32 (drop (i + 2) buf))) i (fst (found_upto N buf i)) (snd (found_upto N buf i))
    = Inr (found_upto N buf (i + 32))"
proof -
  have "[0..<i + 32] = [0..<i] @ [i..<i + 32]" by (rule upt_add_eq_append) simp
  then have "filter (starts_at buf) [0..<i + 32]
      = filter (starts_at buf) [0..<i] @ filter (starts_at buf) [i..<i + 32]" by simp
  then show ?thesis
    unfolding found_upto_def collect_starts_correct request_mask_positions [OF assms] by simp
qed

text \<open>Scanning stops early only when the array is full, and then more positions change nothing.\<close>

lemma found_upto_full:
  assumes "\<not> snd (found_upto N buf i) < N" "i \<le> j"
  shows "found_upto N buf j = found_upto N buf i"
proof -
  have "[0..<j] = [0..<i] @ [i..<j]" using assms(2) by (rule upt_extend)
  moreover have "N \<le> length (filter (starts_at buf) [0..<i])"
    using assms(1) by (simp add: found_upto_def)
  ultimately show ?thesis by (simp add: found_upto_def filled_full)
qed

lemma scan_limit_step:
  assumes "32 dvd i" "i \<le> scan_limit buf"
  shows "i + 34 \<le> length buf \<longleftrightarrow> i < scan_limit buf"
proof -
  from assms(1) obtain k where k: "i = 32 * k" ..
  show ?thesis
  proof
    assume "i + 34 \<le> length buf"
    then have "k + 1 \<le> (length buf - 2) div 32" using k by (simp add: less_eq_div_iff_mult_less_eq)
    then show "i < scan_limit buf" using k by (simp add: scan_limit_def)
  next
    assume "i < scan_limit buf"
    then have "k + 1 \<le> (length buf - 2) div 32" using k by (simp add: scan_limit_def)
    then have "32 * (k + 1) \<le> length buf - 2" by (simp add: less_eq_div_iff_mult_less_eq)
    then show "i + 34 \<le> length buf" using k by simp
  qed
qed

lemma scan_starts_32_correct:
  "32 dvd i \<Longrightarrow> i \<le> scan_limit buf \<Longrightarrow>
   scan_starts_32 N buf i (fst (found_upto N buf i)) (snd (found_upto N buf i))
     = Inr (found_upto N buf (scan_limit buf))"
proof (induction "scan_limit buf - i" arbitrary: i rule: less_induct)
  case less
  show ?case
  proof (cases "i + 34 \<le> length buf \<and> snd (found_upto N buf i) < N")
    case True
    then have lim: "i < scan_limit buf" using less.prems scan_limit_step by blast
    moreover have "32 dvd scan_limit buf" by (simp add: scan_limit_def)
    ultimately have next_le: "i + 32 \<le> scan_limit buf"
      using less.prems(1) by (intro dvd_step)
    have "scan_starts_32 N buf (i + 32) (fst (found_upto N buf (i + 32))) (snd (found_upto N buf (i + 32)))
      = Inr (found_upto N buf (scan_limit buf))"
      using less.prems next_le lim by (intro less.hyps) auto
    then show ?thesis
      using True collect_block [of i buf N]
      by (subst scan_starts_32.simps)
         (simp add: slice_simps Let_def collect_guarded case_prod_beta add.commute)
  next
    case False
    then have "\<not> i < scan_limit buf \<or> \<not> snd (found_upto N buf i) < N"
      using less.prems scan_limit_step by blast
    then have "found_upto N buf (scan_limit buf) = found_upto N buf i"
      using less.prems(2) found_upto_full by auto
    then show ?thesis using False by (subst scan_starts_32.simps) auto
  qed
qed

lemma scan_starts_64_correct:
  "32 dvd i \<Longrightarrow> i \<le> scan_limit buf \<Longrightarrow>
   \<exists>j. scan_starts_64 N buf i (fst (found_upto N buf i)) (snd (found_upto N buf i))
     = Inr (j, found_upto N buf j) \<and> 32 dvd j \<and> j \<le> scan_limit buf"
proof (induction "scan_limit buf - i" arbitrary: i rule: less_induct)
  case less
  show ?case
  proof (cases "i + 66 \<le> length buf \<and> snd (found_upto N buf i) < N")
    case True
    have dvd: "32 dvd scan_limit buf" "32 dvd i + 32" using less.prems by (auto simp: scan_limit_def)
    have lim: "i < scan_limit buf" using True less.prems scan_limit_step [of i buf] by auto
    then have lim2: "i + 32 \<le> scan_limit buf" using dvd less.prems(1) by (intro dvd_step)
    then have "i + 32 < scan_limit buf" using True dvd scan_limit_step [of "i + 32" buf] by auto
    then have lim3: "i + 64 \<le> scan_limit buf" using dvd dvd_step [of 32 "i + 32" "scan_limit buf"] by simp
    have "\<exists>j. scan_starts_64 N buf (i + 64) (fst (found_upto N buf (i + 64))) (snd (found_upto N buf (i + 64)))
        = Inr (j, found_upto N buf j) \<and> 32 dvd j \<and> j \<le> scan_limit buf"
      using less.prems lim lim3 by (intro less.hyps) auto
    then show ?thesis
      using True collect_block [of i buf N] collect_block [of "i + 32" buf N]
      by (subst scan_starts_64.simps)
         (simp add: slice_simps Let_def collect_guarded case_prod_beta add.commute)
  next
    case False
    then show ?thesis using less.prems by (subst scan_starts_64.simps) (auto intro!: exI [of _ i])
  qed
qed

lemma find_request_starts_eq:
  "find_request_starts_avx2 N buf = Inr (filled N 0 (request_positions buf))"
proof -
  have start: "(replicate N 0, 0) = found_upto N buf 0"
    by (simp add: found_upto_def filled_Nil)
  obtain j where j: "scan_starts_64 N buf 0 (fst (found_upto N buf 0)) (snd (found_upto N buf 0))
      = Inr (j, found_upto N buf j)" "32 dvd j" "j \<le> scan_limit buf"
    using scan_starts_64_correct [of 0 buf N] by auto
  have "scan_starts_64 N buf 0 (replicate N 0) 0 = Inr (j, found_upto N buf j)"
    using j(1) unfolding start [symmetric] by simp
  moreover have "scan_starts_32 N buf j (fst (found_upto N buf j)) (snd (found_upto N buf j))
      = Inr (found_upto N buf (scan_limit buf))"
    using j(2,3) by (rule scan_starts_32_correct)
  ultimately show ?thesis
    by (simp add: find_request_starts_avx2_def case_prod_beta found_upto_def request_positions_def)
qed

text \<open>
  C4: the vectorised search never reads outside its buffer, whatever the buffer and the
  capacity \<open>N\<close> of the result array, and returns exactly the first \<open>N\<close> positions of
  \<open>GET\<close> or \<open>POS\<close> in ascending order, padded with zeros, and their number.
\<close>

theorem find_request_starts_correct:
  "find_request_starts_avx2 N buf = Inr (filled N 0 (request_positions buf))"
  by (rule find_request_starts_eq)

section \<open>Which requests are returned\<close>

definition request_at :: "byte list \<Rightarrow> nat \<Rightarrow> request_entry option" where
  "request_at buf s =
     map_option (\<lambda>(m, p, e). (take m (drop s buf), take e (drop (s + p) buf)))
       (line_cut (take 32 (drop s buf)))"

text \<open>The starts that leave room for a chunk, and the requests cut at them.\<close>

definition parsed_starts :: "byte list \<Rightarrow> nat list \<Rightarrow> nat list" where
  "parsed_starts buf xs = filter (\<lambda>s. s + 32 \<le> length buf) xs"

definition requests_of :: "byte list \<Rightarrow> nat list \<Rightarrow> request_entry list" where
  "requests_of buf xs = List.map_filter (request_at buf) (parsed_starts buf xs)"

text \<open>
  The one hazard: a chunk whose only space is its last byte, with fewer than 63 bytes left in the
  buffer. There the wrapped shift makes the code build a path slice that leaves the buffer.
\<close>

definition overruns :: "byte list \<Rightarrow> nat \<Rightarrow> bool" where
  "overruns buf s \<longleftrightarrow> s + 32 \<le> length buf \<and> length buf < s + 63 \<and>
     first_space (take 32 (drop s buf)) = Some 31"

lemma line_cut_bounds:
  assumes "line_cut c = Some (m, p, e)" "length c = 32"
  shows "m < 32" and "p = m + 1" and "m \<noteq> 31 \<Longrightarrow> p + e < 32"
    and "m = 31 \<Longrightarrow> e = 31" and "m = 31 \<longleftrightarrow> first_space c = Some 31"
  using assms first_space_SomeD(1) [of c] first_space_SomeD(1) [of "drop (m + 1) c" e]
  by (auto simp: line_cut_def split: option.splits if_splits)

lemma line_cut_None: "line_cut c = None \<Longrightarrow> first_space c \<noteq> Some 31"
  by (auto simp: line_cut_def)

lemma parse_http_loop_stop:
  "\<not> i < n \<Longrightarrow> parse_http_loop buf starts n i out count = Inr (out, count)"
  by (simp add: parse_http_loop.simps)

lemma parse_http_loop_break:
  "i < n \<Longrightarrow> i < length starts \<Longrightarrow> starts ! i + 32 > length buf \<Longrightarrow>
   parse_http_loop buf starts n i out count = Inr (out, count)"
  by (subst parse_http_loop.simps) (simp add: slice_simps)

lemma parse_http_loop_skip:
  "i < n \<Longrightarrow> i < length starts \<Longrightarrow> starts ! i + 32 \<le> length buf \<Longrightarrow>
   line_cut (take 32 (drop (starts ! i) buf)) = None \<Longrightarrow>
   parse_http_loop buf starts n i out count = parse_http_loop buf starts n (i + 1) out count"
  by (subst parse_http_loop.simps) (simp add: slice_simps parse_one_manual_eq cut_of_def)

lemma parse_http_loop_take:
  "i < n \<Longrightarrow> i < length starts \<Longrightarrow> starts ! i + 32 \<le> length buf \<Longrightarrow>
   line_cut (take 32 (drop (starts ! i) buf)) = Some (m, p, e) \<Longrightarrow>
   parse_http_loop buf starts n i out count =
     obind (slice_raw buf (starts ! i) m) (\<lambda>m.
     obind (slice_raw buf (starts ! i + p) e) (\<lambda>p.
     obind (slice_set out count (m, p)) (\<lambda>out.
       parse_http_loop buf starts n (i + 1) out (count + 1))))"
  by (subst parse_http_loop.simps) (simp add: slice_simps parse_one_manual_eq cut_of_def)

lemma requests_of_simps:
  "requests_of buf [] = []"
  "requests_of buf (s # xs) =
     (if s + 32 \<le> length buf then (case request_at buf s of None \<Rightarrow> [] | Some r \<Rightarrow> [r]) else [])
       @ requests_of buf xs"
  by (auto simp: requests_of_def parsed_starts_def split: option.splits)

lemma parse_http_loop_correct:
  assumes "length xs \<le> length starts" "\<And>k. k < length xs \<Longrightarrow> starts ! k = xs ! k" "sorted xs"
    "length xs \<le> N" "i \<le> length xs" "length ys \<le> i"
  shows "parse_http_loop buf starts (length xs) i (fst (filled N d ys)) (snd (filled N d ys)) =
    (if \<exists>s \<in> set (drop i xs). overruns buf s then Inl Undefined_Behaviour
     else Inr (filled N d (ys @ requests_of buf (drop i xs))))"
  using assms(5,6)
proof (induction "length xs - i" arbitrary: i ys)
  case 0
  then show ?case by (simp add: parse_http_loop_stop requests_of_simps del: snd_filled)
next
  case (Suc n)
  then have i: "i < length xs" "i < length starts" "starts ! i = xs ! i" using assms(1,2) by auto
  let ?s = "xs ! i" and ?c = "take 32 (drop (xs ! i) buf)"
  let ?rest = "drop (i + 1) xs"
  have drop: "drop i xs = ?s # ?rest" using i by (simp add: Cons_nth_drop_Suc)
  show ?case
  proof (cases "?s + 32 \<le> length buf")
    case False
    have "s \<ge> ?s" if "s \<in> set (drop i xs)" for s
      using sorted_wrt_drop [OF assms(3), of i] that unfolding drop by auto
    then have far: "\<forall>s \<in> set (drop i xs). \<not> s + 32 \<le> length buf" using False by fastforce
    then have "parsed_starts buf (drop i xs) = []" by (simp add: parsed_starts_def)
    then show ?thesis
      using far i False
      by (auto simp: parse_http_loop_break requests_of_def overruns_def simp del: snd_filled)
  next
    case True
    then have len: "length ?c = 32" by simp
    have IH: "parse_http_loop buf starts (length xs) (i + 1) (fst (filled N d zs)) (snd (filled N d zs)) =
      (if \<exists>s \<in> set ?rest. overruns buf s then Inl Undefined_Behaviour
       else Inr (filled N d (zs @ requests_of buf ?rest)))" if "length zs \<le> i + 1" for zs
      using that Suc i by (intro Suc.hyps(1)) auto
    show ?thesis
    proof (cases "line_cut ?c")
      case None
      then have "\<not> overruns buf ?s" "request_at buf ?s = None"
        using line_cut_None [OF None] by (auto simp: overruns_def request_at_def)
      then show ?thesis
        using i True None IH [of ys] Suc.prems(2)
        unfolding drop by (simp add: parse_http_loop_skip requests_of_simps del: snd_filled)
    next
      case (Some cut)
      then obtain m p e where cut: "line_cut ?c = Some (m, p, e)" by (cases cut) auto
      note b = line_cut_bounds [OF cut len]
      have room: "length ys < N" using Suc.prems(2) i assms(4) by simp
      have m_in: "?s + m \<le> length buf" using b(1) True by simp
      have p_in: "?s + p + e \<le> length buf \<longleftrightarrow> \<not> overruns buf ?s"
        using b True by (cases "m = 31") (auto simp: overruns_def)
      have req: "request_at buf ?s = Some (take m (drop ?s buf), take e (drop (?s + p) buf))"
        by (simp add: request_at_def cut)
      show ?thesis
      proof (cases "overruns buf ?s")
        case True
        then show ?thesis
          using i \<open>?s + 32 \<le> length buf\<close> cut m_in p_in unfolding drop
          by (simp add: parse_http_loop_take slice_raw_def)
      next
        case False
        then show ?thesis
          using i \<open>?s + 32 \<le> length buf\<close> cut m_in p_in req room Suc.prems(2)
            IH [of "ys @ [(take m (drop ?s buf), take e (drop (?s + p) buf))]"]
          unfolding drop
          by (simp add: parse_http_loop_take slice_raw_in filled_push(1) requests_of_simps
              filled_push(2) [of ys N d "(take m (drop ?s buf), take e (drop (?s + p) buf))", symmetric]
              del: snd_filled)
      qed
    qed
  qed
qed

lemma parse_http_methods_paths_eq:
  "parse_http_methods_paths N buf =
     (if \<exists>s \<in> set (take N (request_positions buf)). overruns buf s then Inl Undefined_Behaviour
      else Inr (filled N ([], []) (requests_of buf (take N (request_positions buf)))))"
proof -
  let ?ps = "request_positions buf"
  let ?xs = "take N ?ps"
  have "sorted ?xs"
    by (simp add: request_positions_def sorted_wrt_take sorted_wrt_filter)
  moreover have "fst (filled N 0 ?ps) ! k = ?xs ! k" if "k < length ?xs" for k
    using that by (simp add: nth_filled)
  ultimately have "parse_http_loop buf (fst (filled N 0 ?ps)) (length ?xs) 0
      (replicate N ([], [])) 0 =
    (if \<exists>s \<in> set ?xs. overruns buf s then Inl Undefined_Behaviour
     else Inr (filled N ([], []) (requests_of buf ?xs)))"
    using parse_http_loop_correct [of ?xs "fst (filled N 0 ?ps)" N 0 "[]" buf "([], [])"]
    by (simp add: filled_Nil)
  then show ?thesis
    by (simp add: parse_http_methods_paths_def find_request_starts_eq case_prod_beta
        filled_Nil min.commute)
qed

text \<open>
  C3: the scanner as a whole, on every buffer. It leaves its buffer exactly when one of the first
  \<open>N\<close> request starts overruns; otherwise it returns, in order, the requests cut at those of the
  first \<open>N\<close> starts that have 32 bytes left, padded to \<open>N\<close> entries, and their number.
\<close>

theorem parse_http_methods_paths_correct:
  "parse_http_methods_paths N buf =
     (if \<exists>s \<in> set (take N (request_positions buf)). overruns buf s then Inl Undefined_Behaviour
      else Inr (filled N ([], []) (requests_of buf (take N (request_positions buf)))))"
  by (rule parse_http_methods_paths_eq)

section \<open>Pipelined requests\<close>

text \<open>
  The requests the scanner is made for: a method and a path whose words end within the first 32
  bytes, some further bytes that end with a line feed, at least 34 bytes in all, and \<open>GET\<close> or
  \<open>POS\<close> at the start and nowhere else.
\<close>

record http_request =
  req_method :: "byte list"
  req_path :: "byte list"
  req_rest :: "byte list"

definition render :: "http_request \<Rightarrow> byte list" where
  "render r = req_method r @ [SPACE] @ req_path r @ [SPACE] @ req_rest r"

definition LF :: byte where "LF = 10"

definition plain_request :: "http_request \<Rightarrow> bool" where
  "plain_request r \<longleftrightarrow>
     SPACE \<notin> set (req_method r) \<and> SPACE \<notin> set (req_path r) \<and>
     length (req_method r) + length (req_path r) \<le> 30 \<and>
     34 \<le> length (render r) \<and> req_rest r \<noteq> [] \<and> last (req_rest r) = LF \<and>
     filter (starts_at (render r)) [0..<length (render r)] = [0]"

fun offsets :: "nat \<Rightarrow> byte list list \<Rightarrow> nat list" where
  "offsets base [] = []"
| "offsets base (xs # xss) = base # offsets (base + length xs) xss"

lemma starts_at_shift: "starts_at (xs @ ys) (length xs + j) = starts_at ys j"
  by (simp add: starts_at_def)

lemma ascii_no_LF: "LF \<notin> set (ascii ''GET'')" "LF \<notin> set (ascii ''POS'')"
  by (simp_all add: LF_def)

lemma starts_at_no_LF: "starts_at xs j \<Longrightarrow> LF \<notin> set (take 3 (drop j xs))"
  using ascii_no_LF by (auto simp only: starts_at_def)

lemma starts_at_append:
  assumes "xs \<noteq> []" "last xs = LF" "j < length xs"
  shows "starts_at (xs @ ys) j = starts_at xs j"
proof (cases "j + 3 \<le> length xs")
  case True
  then show ?thesis by (simp add: starts_at_def)
next
  case False
  have "drop j xs \<noteq> []" "last (drop j xs) = LF" using assms by auto
  then have "LF \<in> set (drop j xs)" by (metis last_in_set)
  then have "LF \<in> set (take 3 (drop j (xs @ ys)))" "LF \<in> set (take 3 (drop j xs))"
    using False assms(3) by (auto simp: take_append)
  then show ?thesis using starts_at_no_LF by blast
qed

lemma filter_starts_concat:
  assumes "\<forall>xs \<in> set xss. xs \<noteq> [] \<and> last xs = LF \<and> filter (starts_at xs) [0..<length xs] = [0]"
  shows "filter (starts_at (pre @ concat xss)) [length pre..<length pre + length (concat xss)]
    = offsets (length pre) xss"
  using assms
proof (induction xss arbitrary: pre)
  case Nil
  then show ?case by simp
next
  case (Cons xs xss)
  let ?buf = "pre @ xs @ concat xss"
  have xs: "xs \<noteq> []" "last xs = LF" "filter (starts_at xs) [0..<length xs] = [0]"
    using Cons.prems by auto
  have "filter (starts_at ?buf) [length pre..<length pre + length xs]
      = map ((+) (length pre)) (filter (starts_at ?buf \<circ> (+) (length pre)) [0..<length xs])"
    by (rule filter_upt_shift)
  also have "filter (starts_at ?buf \<circ> (+) (length pre)) [0..<length xs]
      = filter (starts_at xs) [0..<length xs]"
    using xs(1,2) by (intro filter_cong) (auto simp: starts_at_shift starts_at_append)
  finally have head: "filter (starts_at ?buf) [length pre..<length pre + length xs] = [length pre]"
    using xs(3) by simp
  have "filter (starts_at ((pre @ xs) @ concat xss))
      [length (pre @ xs)..<length (pre @ xs) + length (concat xss)]
    = offsets (length (pre @ xs)) xss"
    using Cons.prems by (intro Cons.IH) auto
  then have tail: "filter (starts_at ?buf) [length pre + length xs..<
      length pre + length xs + length (concat xss)] = offsets (length pre + length xs) xss"
    by simp
  have "[length pre..<length pre + length (concat (xs # xss))]
      = [length pre..<length pre + length xs] @ [length pre + length xs..<
          length pre + length xs + length (concat xss)]"
    using upt_add_eq_append [of "length pre" "length pre + length xs" "length (concat xss)"]
    by (simp add: add.assoc)
  then show ?case using head tail by simp
qed

lemma below_scan_limit: "j + 34 \<le> length buf \<Longrightarrow> j < scan_limit buf"
proof -
  assume "j + 34 \<le> length buf"
  moreover have "length buf - 2 = 32 * ((length buf - 2) div 32) + (length buf - 2) mod 32" by simp
  moreover have "(length buf - 2) mod 32 < 32" by simp
  ultimately show ?thesis unfolding scan_limit_def by linarith
qed

lemma offsets_ge: "j \<in> set (offsets base xss) \<Longrightarrow> base \<le> j"
  by (induction xss arbitrary: base) fastforce+

lemma offsets_room:
  "\<forall>xs \<in> set xss. n \<le> length xs \<Longrightarrow> j \<in> set (offsets base xss) \<Longrightarrow>
   j + n \<le> base + length (concat xss)"
  by (induction xss arbitrary: base) fastforce+

lemma request_positions_plain:
  assumes "\<forall>r \<in> set rs. plain_request r"
  shows "request_positions (concat (map render rs)) = offsets 0 (map render rs)"
proof -
  let ?buf = "concat (map render rs)"
  have "scan_limit ?buf \<le> length ?buf"
    unfolding scan_limit_def by (metis diff_le_self le_trans times_div_less_eq_dividend)
  then have split: "[0..<length ?buf] = [0..<scan_limit ?buf] @ [scan_limit ?buf..<length ?buf]"
    by (rule upt_extend)
  have all: "filter (starts_at ?buf) [0..<length ?buf] = offsets 0 (map render rs)"
    using filter_starts_concat [of "map render rs" "[]"] assms
    by (auto simp: plain_request_def render_def)
  have "\<not> starts_at ?buf j" if "j \<in> set [scan_limit ?buf..<length ?buf]" for j
  proof
    assume "starts_at ?buf j"
    then have "j \<in> set (filter (starts_at ?buf) [0..<length ?buf])" using that by simp
    then have "j \<in> set (offsets 0 (map render rs))" by (simp only: all)
    then have "j + 34 \<le> length ?buf"
      using offsets_room [of "map render rs" 34 j 0] assms by (auto simp: plain_request_def)
    then show False using below_scan_limit [of j ?buf] that by simp
  qed
  then have "filter (starts_at ?buf) [scan_limit ?buf..<length ?buf] = []"
    by (simp add: filter_empty_conv)
  then have "request_positions ?buf = filter (starts_at ?buf) [0..<length ?buf]"
    by (simp only: request_positions_def split filter_append append_Nil2)
  then show ?thesis by (simp only: all)
qed

lemma first_space_app: "SPACE \<notin> set w \<Longrightarrow> first_space (w @ SPACE # ys) = Some (length w)"
  by (rule first_space_SomeI) (auto simp: nth_append dest: nth_mem)

lemma plain_request_cut:
  assumes "plain_request r"
  shows "line_cut (take 32 (render r @ ys)) = Some (length (req_method r), length (req_method r) + 1,
    length (req_path r))"
proof -
  let ?m = "req_method r" and ?p = "req_path r"
  have len: "length ?m + length ?p \<le> 30" and no: "SPACE \<notin> set ?m" "SPACE \<notin> set ?p"
    using assms by (auto simp: plain_request_def)
  have chunk: "take 32 (render r @ ys) = ?m @ SPACE # ?p @ SPACE # take (30 - length ?m - length ?p)
      (req_rest r @ ys)"
    using len by (simp add: render_def take_Cons' diff_diff_eq)
  show ?thesis
    using len unfolding chunk line_cut_def
    by (simp add: first_space_app no)
qed

lemma plain_request_at:
  assumes "plain_request r"
  shows "request_at (pre @ render r @ ys) (length pre) = Some (req_method r, req_path r)"
  using plain_request_cut [OF assms, of ys]
  by (simp add: request_at_def) (simp add: render_def)

lemma requests_of_plain:
  assumes "\<forall>r \<in> set rs. plain_request r"
  shows "requests_of (pre @ concat (map render rs)) (take n (offsets (length pre) (map render rs)))
    = take n (map (\<lambda>r. (req_method r, req_path r)) rs)"
  using assms
proof (induction rs arbitrary: pre n)
  case Nil
  then show ?case by (simp add: requests_of_simps)
next
  case (Cons r rs)
  have r: "plain_request r" using Cons.prems by simp
  show ?case
  proof (cases n)
    case 0
    then show ?thesis by (simp add: requests_of_simps)
  next
    case (Suc k)
    have "requests_of ((pre @ render r) @ concat (map render rs))
        (take k (offsets (length (pre @ render r)) (map render rs)))
      = take k (map (\<lambda>r. (req_method r, req_path r)) rs)"
      using Cons.prems by (intro Cons.IH) auto
    moreover have "32 \<le> length (render r)" using r by (simp add: plain_request_def)
    ultimately show ?thesis
      using Suc plain_request_at [OF r, of pre "concat (map render rs)"]
      by (simp add: requests_of_simps)
  qed
qed

lemma plain_no_overrun:
  assumes "\<forall>r \<in> set rs. plain_request r" "s \<in> set (offsets (length pre) (map render rs))"
  shows "\<not> overruns (pre @ concat (map render rs)) s"
  using assms
proof (induction rs arbitrary: pre)
  case Nil
  then show ?case by simp
next
  case (Cons r rs)
  have r: "plain_request r" using Cons.prems by simp
  show ?case
  proof (cases "s = length pre")
    case True
    let ?c = "take 32 (render r @ concat (map render rs))"
    have "length (req_method r) \<noteq> 31" "length ?c = 32" using r by (auto simp: plain_request_def)
    then have "first_space ?c \<noteq> Some 31"
      using line_cut_bounds(5) [OF plain_request_cut [OF r]] by blast
    then show ?thesis using True by (simp add: overruns_def)
  next
    case False
    then show ?thesis
      using Cons.IH [of "pre @ render r"] Cons.prems by simp
  qed
qed

text \<open>
  C18: pipelining. A buffer that holds nothing but plain requests, back to back, is cut into
  exactly their methods and paths, in order, up to the capacity \<open>N\<close>.
\<close>

theorem parse_pipelined_requests:
  assumes "\<forall>r \<in> set rs. plain_request r"
  shows "parse_http_methods_paths N (concat (map render rs))
    = Inr (filled N ([], []) (take N (map (\<lambda>r. (req_method r, req_path r)) rs)))"
proof -
  have "requests_of (concat (map render rs)) (take N (offsets 0 (map render rs)))
      = take N (map (\<lambda>r. (req_method r, req_path r)) rs)"
    using requests_of_plain [OF assms, of "[]" N] by simp
  moreover have "\<not> (\<exists>s \<in> set (take N (offsets 0 (map render rs))). overruns (concat (map render rs)) s)"
    using plain_no_overrun [OF assms, of _ "[]"] by (auto dest: in_set_takeD)
  ultimately show ?thesis
    by (simp add: parse_http_methods_paths_eq request_positions_plain [OF assms])
qed

definition sample_request :: http_request where
  "sample_request = \<lparr>req_method = ascii ''GET'', req_path = ascii ''/plaintext'',
     req_rest = ascii ''HTTP/1.1'' @ [13, 10] @ ascii ''Host: localhost'' @ [13, 10, 13, 10]\<rparr>"

theorem parse_pipelined_requests_witness:
  "parse_http_methods_paths 3 (concat (map render [sample_request, sample_request]))
    = Inr ([(ascii ''GET'', ascii ''/plaintext''), (ascii ''GET'', ascii ''/plaintext''), ([], [])], 2)"
proof -
  have "\<forall>r \<in> set [sample_request, sample_request]. plain_request r" by code_simp
  from parse_pipelined_requests [OF this, of 3] show ?thesis
    by (simp add: filled_def sample_request_def)
qed

text \<open>
  A header value that contains the letters of a method is scanned as a request of its own, and a
  single request of fewer than 34 bytes may end in a part of the buffer that is not searched.
\<close>

lemma ghost_request:
  "request_positions (ascii ''GET / HTTP/1.1'' @ [13, 10] @ ascii ''X: GET /json Y'' @ replicate 40 65)
    = [0, 19]"
  by code_simp

lemma scan_limit_short: "length buf < 34 \<Longrightarrow> request_positions buf = []"
  by (simp add: request_positions_def scan_limit_def)

text \<open>
  A method in the last 32 bytes of the buffer whose first space is the last of them: the shift
  amount is 32, which a release build takes modulo 32, so the path starts one byte behind the
  space and is given the length of the method.
\<close>

lemma overrun_example: "overruns (ascii ''GET'' @ replicate 28 65 @ [SPACE, 65, 65]) 0"
  by code_simp

end
