(* ===== verification/Memory.thy ===== *)
theory Memory
  imports Shift
begin

text \<open>
  \<open>src/src/library/utils/memory.rs\<close> and the copy routine of
  \<open>src/src/library/utils/kernel.rs\<close>: gathering scattered memory into one buffer, zeroing a
  range with vector stores, and the hand-written assembly that copies one receive buffer out of
  the slab. Addresses are offsets into the memory object they belong to; comparing two of them is
  comparing offsets.
\<close>

section \<open>Gathering iovecs\<close>

text \<open>
  An \<open>iovec\<close> is a pointer and a length: the memory object from \<open>iov_base\<close> on, and how many
  bytes of it the vector claims.
\<close>

record iovec =
  iov_base :: "byte list"
  iov_len :: nat

definition iov_data :: "iovec \<Rightarrow> byte list" where
  "iov_data iov = take (iov_len iov) (iov_base iov)"

definition iov_valid :: "iovec \<Rightarrow> bool" where
  "iov_valid iov \<longleftrightarrow> iov_len iov \<le> length (iov_base iov)"

fun fast_flatten_loop :: "iovec list \<Rightarrow> byte list \<Rightarrow> nat \<Rightarrow> (byte list \<times> nat) outcome" where
  "fast_flatten_loop [] out offset = Inr (out, offset)"
| "fast_flatten_loop (iov # iovecs) out offset =
     obind (slice_raw (iov_base iov) 0 (iov_len iov)) (\<lambda>bytes.
     obind (ptr_copy out offset bytes) (\<lambda>out.
       fast_flatten_loop iovecs out (offset + iov_len iov)))"

definition fast_flatten_iovec :: "iovec list \<Rightarrow> byte list \<Rightarrow> (byte list \<times> nat) outcome" where
  "fast_flatten_iovec iovecs out = fast_flatten_loop iovecs out 0"

text \<open>
  \<open>flatten_iovec\<close> grows a \<open>Vec\<close>. The sum of the lengths is a \<open>usize\<close> that wraps in a
  release build; \<open>reserve\<close> panics beyond \<open>isize::MAX\<close> bytes; \<open>set_len\<close> exposes memory
  whose contents, \<open>fresh\<close>, are not initialised.
\<close>

definition vec_reserve :: "nat \<Rightarrow> nat \<Rightarrow> unit outcome" where
  "vec_reserve len additional = guard_or Panic (len + additional < 2 ^ 63)"

definition flatten_iovec :: "(nat \<Rightarrow> byte) \<Rightarrow> iovec list \<Rightarrow> byte list \<Rightarrow> byte list outcome" where
  "flatten_iovec fresh iovecs out =
     (let total_len = sum_list (map iov_len iovecs) mod 2 ^ 64; orig_len = length out in
      obind (vec_reserve orig_len total_len) (\<lambda>_.
      obind (fast_flatten_loop iovecs (out @ map fresh [0..<total_len]) orig_len) (\<lambda>(mem, _).
        Inr mem)))"

lemma iov_copy_valid:
  "iov_valid iov \<Longrightarrow> slice_raw (iov_base iov) 0 (iov_len iov) = Inr (iov_data iov)"
  by (simp add: iov_valid_def iov_data_def slice_simps)

lemma length_iov_data: "iov_valid iov \<Longrightarrow> length (iov_data iov) = iov_len iov"
  by (simp add: iov_valid_def iov_data_def)

lemma fast_flatten_loop_valid:
  "list_all iov_valid iovs \<Longrightarrow> off + sum_list (map iov_len iovs) \<le> length out \<Longrightarrow>
   fast_flatten_loop iovs out off =
     Inr (blit out off (concat (map iov_data iovs)), off + sum_list (map iov_len iovs))"
proof (induction iovs arbitrary: out off)
  case Nil
  then show ?case by simp
next
  case (Cons iov iovs)
  let ?out = "blit out off (iov_data iov)"
  have len: "length (iov_data iov) = iov_len iov" using Cons.prems by (simp add: length_iov_data)
  then have "fast_flatten_loop iovs ?out (off + iov_len iov) =
      Inr (blit ?out (off + iov_len iov) (concat (map iov_data iovs)),
        off + iov_len iov + sum_list (map iov_len iovs))"
    using Cons.prems by (intro Cons.IH) auto
  then show ?case
    using Cons.prems len by (simp add: iov_copy_valid slice_simps blit_extend)
qed

lemma fast_flatten_loop_defined:
  "fast_flatten_loop iovs out off = Inr r \<Longrightarrow>
   list_all iov_valid iovs \<and> off + sum_list (map iov_len iovs) \<le> max off (length out)"
proof (induction iovs arbitrary: out off)
  case Nil
  then show ?case by simp
next
  case (Cons iov iovs)
  from Cons.prems have v: "iov_valid iov" "off + iov_len iov \<le> length out"
    and rest: "fast_flatten_loop iovs (blit out off (iov_data iov)) (off + iov_len iov) = Inr r"
    by (auto simp: obind_eq_Inr_iff slice_raw_def ptr_copy_def iov_valid_def iov_data_def
        split: if_splits)
  moreover have "length (blit out off (iov_data iov)) = length out"
    using v by (simp add: length_iov_data)
  ultimately show ?case using Cons.IH [OF rest] by auto
qed

text \<open>
  \<open>fast_flatten_iovec\<close> stays within its memory exactly when every vector is backed by
  enough memory and the vectors together fit the output; then it writes their contents in order
  to the front of the output, leaves the rest of it alone and returns the number of bytes.
\<close>

theorem fast_flatten_iovec_safe_iff:
  "fast_flatten_iovec iovs out =
     Inr (concat (map iov_data iovs) @ drop (sum_list (map iov_len iovs)) out,
       sum_list (map iov_len iovs))
   \<longleftrightarrow> (\<forall>iov \<in> set iovs. iov_valid iov) \<and> sum_list (map iov_len iovs) \<le> length out"
proof
  assume "fast_flatten_iovec iovs out =
     Inr (concat (map iov_data iovs) @ drop (sum_list (map iov_len iovs)) out,
       sum_list (map iov_len iovs))"
  then show "(\<forall>iov \<in> set iovs. iov_valid iov) \<and> sum_list (map iov_len iovs) \<le> length out"
    using fast_flatten_loop_defined [of iovs out 0]
    by (auto simp: fast_flatten_iovec_def list_all_iff)
next
  assume *: "(\<forall>iov \<in> set iovs. iov_valid iov) \<and> sum_list (map iov_len iovs) \<le> length out"
  have "length (concat (map iov_data iovs)) = sum_list (map iov_len iovs)"
    using * by (induction iovs) (auto simp: length_iov_data)
  then show "fast_flatten_iovec iovs out =
     Inr (concat (map iov_data iovs) @ drop (sum_list (map iov_len iovs)) out,
       sum_list (map iov_len iovs))"
    using * fast_flatten_loop_valid [of iovs 0 out]
    by (simp add: fast_flatten_iovec_def list_all_iff blit_def)
qed

theorem fast_flatten_iovec_safe_iff_witness:
  "fast_flatten_iovec [\<lparr>iov_base = [1, 2, 3], iov_len = 2\<rparr>, \<lparr>iov_base = [4], iov_len = 1\<rparr>] [0, 0, 0, 9]
     = Inr ([1, 2, 4, 9], 3)"
  using fast_flatten_iovec_safe_iff
    [of "[\<lparr>iov_base = [1, 2, 3], iov_len = 2\<rparr>, \<lparr>iov_base = [4], iov_len = 1\<rparr>]" "[0, 0, 0, 9]"]
  by (simp add: iov_valid_def iov_data_def)

text \<open>
  \<open>flatten_iovec\<close> appends the contents of valid vectors to the vector, whatever the
  uninitialised memory held; a total beyond \<open>isize::MAX\<close> bytes panics in \<open>reserve\<close>.
\<close>

theorem flatten_iovec_appends:
  assumes "\<forall>iov \<in> set iovs. iov_valid iov"
    and "length out + sum_list (map iov_len iovs) < 2 ^ 64"
  shows "flatten_iovec fresh iovs out =
    (if length out + sum_list (map iov_len iovs) < 2 ^ 63
     then Inr (out @ concat (map iov_data iovs)) else Inl Panic)"
proof -
  let ?n = "sum_list (map iov_len iovs)"
  have len: "length (concat (map iov_data iovs)) = ?n"
    using assms(1) by (induction iovs) (auto simp: length_iov_data)
  have "fast_flatten_loop iovs (out @ map fresh [0..<?n]) (length out)
      = Inr (blit (out @ map fresh [0..<?n]) (length out) (concat (map iov_data iovs)),
          length out + ?n)"
    using assms(1) by (intro fast_flatten_loop_valid) (auto simp: list_all_iff)
  then show ?thesis
    using assms(2) len by (simp add: flatten_iovec_def vec_reserve_def Let_def blit_def guard_or_def)
qed

theorem flatten_iovec_appends_witness:
  "flatten_iovec (\<lambda>_. 255) [\<lparr>iov_base = [1, 2, 3], iov_len = 2\<rparr>] [7] = Inr [7, 1, 2]"
  using flatten_iovec_appends [of "[\<lparr>iov_base = [1, 2, 3], iov_len = 2\<rparr>]" "[7]" "\<lambda>_. 255"]
  by (simp add: iov_valid_def iov_data_def)

section \<open>Zeroing\<close>







section \<open>The assembly copy of \<open>kernel.rs\<close>\<close>

text \<open>
  The slab of receive buffers is contiguous: buffer \<open>i\<close> starts at \<open>i * BUFFER_SIZE\<close>.
  The assembly computes its source with the constant 6272 and copies that many bytes,
  32 at a time; \<open>r8\<close> is the loop counter.
\<close>

function kernel_copy_loop :: "byte list \<Rightarrow> nat \<Rightarrow> byte list \<Rightarrow> nat \<Rightarrow> byte list outcome" where
  "kernel_copy_loop slab r10 dst r8 =
     (if 6272 \<le> r8 then Inr dst
      else obind (mm256_loadu slab (r10 + r8)) (\<lambda>ymm0.
           obind (mm256_storeu dst r8 ymm0) (\<lambda>dst.
             kernel_copy_loop slab r10 dst (r8 + 32))))"
  by pat_completeness auto
termination
  by (relation "measure (\<lambda>(slab, r10, dst, r8). 6272 - r8)") auto

declare kernel_copy_loop.simps [simp del]

definition get_kernel_owned_buffer :: "nat \<Rightarrow> byte list list \<Rightarrow> byte list \<Rightarrow> byte list outcome" where
  "get_kernel_owned_buffer index buffers dst =
     kernel_copy_loop (concat buffers) (index * 6272 mod 2 ^ 64) dst 0"

lemma kernel_copy_loop_correct:
  assumes "r10 + 6272 \<le> length slab" "6272 \<le> length dst" "r8 = 32 * k" "k \<le> 196"
  shows "kernel_copy_loop slab r10 (blit dst 0 (take r8 (drop r10 slab))) r8
    = Inr (blit dst 0 (take 6272 (drop r10 slab)))"
  using assms(3,4)
proof (induction "196 - k" arbitrary: k r8)
  case 0
  then show ?case by (subst kernel_copy_loop.simps) simp
next
  case (Suc n)
  then have k: "k < 196" "r8 < 6272" "r8 + 32 \<le> 6272" by auto
  let ?src = "drop r10 slab"
  let ?d = "blit dst 0 (take r8 ?src)"
  have "blit ?d r8 (take 32 (drop (r10 + r8) slab)) = blit dst 0 (take (r8 + 32) ?src)"
    using assms(1,2) k by (subst blit_extend) (auto simp: take_add add.commute)
  moreover have "kernel_copy_loop slab r10 (blit dst 0 (take (r8 + 32) ?src)) (r8 + 32)
      = Inr (blit dst 0 (take 6272 ?src))"
    using Suc k by (intro Suc.hyps(1) [of "Suc k"]) auto
  ultimately show ?case
    using assms(1,2) k by (subst kernel_copy_loop.simps) (simp add: slice_simps)
qed

lemma nth_concat_uniform:
  "\<forall>xs \<in> set xss. length xs = n \<Longrightarrow> 0 < n \<Longrightarrow> i < n * length xss \<Longrightarrow>
   concat xss ! i = xss ! (i div n) ! (i mod n)"
proof (induction xss arbitrary: i)
  case Nil
  then show ?case by simp
next
  case (Cons xs xss)
  show ?case
  proof (cases "i < n")
    case True
    then show ?thesis using Cons.prems by (simp add: nth_append)
  next
    case False
    then have "concat xss ! (i - n) = xss ! ((i - n) div n) ! ((i - n) mod n)"
      using Cons.prems by (intro Cons.IH) auto
    then show ?thesis
      using False Cons.prems by (simp add: nth_append le_div_geq le_mod_geq)
  qed
qed

lemma length_concat_uniform:
  "\<forall>xs \<in> set xss. length xs = n \<Longrightarrow> length (concat xss) = n * length xss"
  by (induction xss) auto

text \<open>
  C35: the assembly copies within bounds whenever its index times 6272 does, and the byte it puts
  at \<open>dst[j]\<close> is the slab's byte \<open>index * 6272 + j\<close>: since the buffers are
  \<open>BUFFER_SIZE\<close> bytes apart, that is a byte of buffer
  \<open>(index * 6272 + j) div BUFFER_SIZE\<close>, which is buffer \<open>index\<close> for every \<open>j\<close> only
  when \<open>index\<close> is 0.
\<close>

theorem get_kernel_owned_buffer_reads:
  assumes "\<forall>b \<in> set buffers. length b = BUFFER_SIZE" and "index < length buffers"
    and "index < 2 ^ 48" and "6272 \<le> length dst" and "j < 6272"
  shows "\<exists>r. get_kernel_owned_buffer index buffers dst = Inr r \<and> length r = length dst \<and>
    r ! j = buffers ! ((index * 6272 + j) div BUFFER_SIZE) ! ((index * 6272 + j) mod BUFFER_SIZE) \<and>
    ((\<forall>i<6272. (index * 6272 + i) div BUFFER_SIZE = index) \<longleftrightarrow> index = 0)"
proof -
  let ?off = "index * 6272"
  have len: "length (concat buffers) = BUFFER_SIZE * length buffers"
    using assms(1) by (rule length_concat_uniform)
  have off: "?off + 6272 \<le> length (concat buffers)" "?off mod 2 ^ 64 = ?off"
    using assms(2,3) len by (auto simp: BUFFER_SIZE_def)
  let ?r = "blit dst 0 (take 6272 (drop ?off (concat buffers)))"
  have "get_kernel_owned_buffer index buffers dst = Inr ?r"
    using kernel_copy_loop_correct [OF off(1) assms(4), of 0 0] off(2)
    by (simp add: get_kernel_owned_buffer_def)
  moreover have "length ?r = length dst" using off assms(4) by simp
  moreover have "?r ! j = concat buffers ! (?off + j)"
    using off assms(5) by (simp add: blit_def nth_append)
  moreover have "concat buffers ! (?off + j)
      = buffers ! ((?off + j) div BUFFER_SIZE) ! ((?off + j) mod BUFFER_SIZE)"
    using assms(1,5) off(1) len by (intro nth_concat_uniform) (auto simp: BUFFER_SIZE_def)
  moreover have "(\<forall>i<6272. (?off + i) div BUFFER_SIZE = index) \<longleftrightarrow> index = 0"
  proof
    assume "\<forall>i<6272. (?off + i) div BUFFER_SIZE = index"
    then have "(?off + 0) div BUFFER_SIZE = index" by (metis zero_less_numeral)
    then have "BUFFER_SIZE * index \<le> ?off" by (metis add.right_neutral times_div_less_eq_dividend)
    then show "index = 0" by (simp add: BUFFER_SIZE_def)
  qed (simp add: BUFFER_SIZE_def)
  ultimately show ?thesis by auto
qed

theorem get_kernel_owned_buffer_reads_witness:
  "\<exists>r. get_kernel_owned_buffer 1 [replicate 7168 7, replicate 7168 9] (replicate 6272 0) = Inr r
     \<and> r ! 0 = 7"
proof -
  have "\<exists>r. get_kernel_owned_buffer 1 [replicate 7168 7, replicate 7168 9] (replicate 6272 0) = Inr r
      \<and> length r = length (replicate 6272 (0 :: byte))
      \<and> r ! 0 = [replicate 7168 7, replicate 7168 9] ! ((1 * 6272 + 0) div BUFFER_SIZE)
          ! ((1 * 6272 + 0) mod BUFFER_SIZE)
      \<and> ((\<forall>i<6272. (1 * 6272 + i) div BUFFER_SIZE = 1) \<longleftrightarrow> (1 :: nat) = 0)"
    by (rule get_kernel_owned_buffer_reads) (simp_all add: BUFFER_SIZE_def)
  then show ?thesis by (auto simp: BUFFER_SIZE_def)
qed

end
