(* ===== verification/Bpf.thy ===== *)
theory Bpf
  imports Prelude
begin

text \<open>
  The two classic BPF programs of the repository: the connection balancer that
  \<open>src/src/library/utils/faf_helpers.rs\<close> attaches to the listening socket, and the TCP filter
  of \<open>src/src/library/network/tsocket.rs\<close>. \<open>bpf_run\<close> is the instruction set as the Linux
  headers document it, as far as the two programs use it.
\<close>

section \<open>Programs\<close>

record sock_filter =
  bpf_code :: u16
  bpf_jt :: byte
  bpf_jf :: byte
  bpf_k :: u32

record sock_fprog =
  fprog_len :: u16
  fprog_filter :: "sock_filter list"

definition BPF_LD :: u16 where "BPF_LD = 0x00"
definition BPF_JMP :: u16 where "BPF_JMP = 0x05"
definition BPF_RET :: u16 where "BPF_RET = 0x06"
definition BPF_W :: u16 where "BPF_W = 0x00"
definition BPF_B :: u16 where "BPF_B = 0x10"
definition BPF_ABS :: u16 where "BPF_ABS = 0x20"
definition BPF_JEQ :: u16 where "BPF_JEQ = 0x10"
definition BPF_K :: u16 where "BPF_K = 0x00"
definition BPF_A :: u16 where "BPF_A = 0x10"
definition SKF_AD_OFF :: int where "SKF_AD_OFF = - 0x1000"
definition SKF_AD_CPU :: int where "SKF_AD_CPU = 36"

lemmas bpf_codes = BPF_LD_def BPF_JMP_def BPF_RET_def BPF_W_def BPF_B_def BPF_ABS_def BPF_JEQ_def
  BPF_K_def BPF_A_def

definition REUSEPORT_PROG :: "sock_filter list" where
  "REUSEPORT_PROG =
     [\<lparr>bpf_code = BPF_LD OR BPF_W OR BPF_ABS, bpf_jt = 0, bpf_jf = 0,
        bpf_k = of_int (SKF_AD_OFF + SKF_AD_CPU)\<rparr>,
      \<lparr>bpf_code = BPF_RET OR BPF_A, bpf_jt = 0, bpf_jf = 0, bpf_k = 0\<rparr>]"

definition BPF_TCP_FILTER :: "sock_filter list" where
  "BPF_TCP_FILTER =
     [\<lparr>bpf_code = BPF_LD + BPF_B + BPF_ABS, bpf_jt = 0, bpf_jf = 0, bpf_k = 23\<rparr>,
      \<lparr>bpf_code = BPF_JMP + BPF_JEQ + BPF_K, bpf_jt = 0, bpf_jf = 1, bpf_k = 0x06\<rparr>,
      \<lparr>bpf_code = BPF_RET + BPF_K, bpf_jt = 0, bpf_jf = 0, bpf_k = - 1\<rparr>,
      \<lparr>bpf_code = BPF_RET + BPF_K, bpf_jt = 0, bpf_jf = 0, bpf_k = 0\<rparr>]"

section \<open>Their meaning\<close>

text \<open>
  A load beyond the packet ends the program with 0; the ancillary offset loads the number of the
  processor. A jump is relative to the next instruction. \<open>None\<close> stands for a program that the
  kernel would not accept.
\<close>

fun bpf_run :: "u32 \<Rightarrow> byte list \<Rightarrow> u32 \<Rightarrow> sock_filter list \<Rightarrow> u32 option" where
  "bpf_run cpu pkt a [] = None"
| "bpf_run cpu pkt a (i # is) =
     (if bpf_code i = 0x20
      then if bpf_k i = of_int (SKF_AD_OFF + SKF_AD_CPU) then bpf_run cpu pkt cpu is else None
      else if bpf_code i = 0x30
      then if unat (bpf_k i) < length pkt then bpf_run cpu pkt (ucast (pkt ! unat (bpf_k i))) is
           else Some 0
      else if bpf_code i = 0x15
      then bpf_run cpu pkt a (drop (unat (if a = bpf_k i then bpf_jt i else bpf_jf i)) is)
      else if bpf_code i = 0x06 then Some (bpf_k i)
      else if bpf_code i = 0x16 then Some a
      else None)"

text \<open>
  The balancer sends a connection to the worker whose number is the processor that handles
  the packet, whatever the packet.
\<close>

theorem reuseport_selects_cpu: "bpf_run cpu pkt a REUSEPORT_PROG = Some cpu"
  by (simp add: REUSEPORT_PROG_def bpf_codes)

text \<open>
  The packet filter passes a frame, whole, exactly when its byte 23 is 6, which is the
  protocol field of an IPv4 packet in an Ethernet frame. It does not look at the ethertype.
\<close>

theorem tcp_filter_passes:
  "bpf_run cpu pkt a BPF_TCP_FILTER = Some (if 23 < length pkt \<and> pkt ! 23 = 6 then - 1 else 0)"
proof -
  have "ucast (b :: byte) = (6 :: u32) \<longleftrightarrow> b = 6" for b
    by (simp add: word_uint_eq_iff uint_up_ucast is_up)
  then show ?thesis by (simp add: BPF_TCP_FILTER_def bpf_codes)
qed

end
