(* ===== verification/Server_State.thy ===== *)
theory Server_State
  imports Handler Http Memory Bpf
begin

text \<open>
  The state of one worker: the \<open>Server\<close> struct of \<open>src/src/library/server.rs\<close> with its
  configuration methods, extended by what its operations act on besides it: the ring, the
  thread-local pointer \<open>CURRENT_KERNEL_BUF\<close> and the system calls made.
\<close>

section \<open>Constants\<close>

definition BUFFERS_COUNT :: nat where "BUFFERS_COUNT = 1024"
definition DEFAULT_URING_SIZE :: u32 where "DEFAULT_URING_SIZE = 4096"
definition DEFAULT_ACCEPT_MULTIPLICATOR :: nat where "DEFAULT_ACCEPT_MULTIPLICATOR = 16"
definition DEFAULT_SQPOLL_IDLE :: u32 where "DEFAULT_SQPOLL_IDLE = 5000"
definition DATA_LAKE_SIZE :: nat where "DATA_LAKE_SIZE = BUFFER_SIZE * 3"

section \<open>The server\<close>

text \<open>The counters \<open>_rps\<close> and \<open>_hz\<close> are \<open>rps_now\<close> and \<open>hz_now\<close> here.\<close>

record ('v, 'w, 'l, 'j) server =
  addr :: string
  workers :: "8 word"
  uring_size :: u32
  sqpoll_enabled :: bool
  sqpoll_idle :: u32
  realtime :: bool
  ub_kernel_dma :: bool
  client_fds :: 'v
  date :: "byte list"
  hot_json_buf :: 'j
  hot_data_lake :: 'l
  sync_now :: bool
  buffers :: "byte list list"
  released_buffers :: "u16 list"
  client_out_buffers :: 'w
  hot_internal_cache :: "byte list"
  universal_counter :: nat
  io_send_busy :: bool
  nano_clock :: int
  clock :: int
  last_sync_time :: int
  rps :: u64
  hz :: u64
  synced :: int
  rps_now :: u64
  hz_now :: u64
  mac :: string
  pci :: string

definition server_new ::
  "('v, 'w, 'l, 'j, 'q) runtime \<Rightarrow> nat \<Rightarrow> int \<Rightarrow> int \<Rightarrow> string \<Rightarrow> ('v, 'w, 'l, 'j) server" where
  "server_new E num_cpus nano_now now address =
     \<lparr>addr = address,
      workers = of_nat (max num_cpus 1),
      uring_size = DEFAULT_URING_SIZE,
      sqpoll_enabled = False,
      sqpoll_idle = DEFAULT_SQPOLL_IDLE,
      realtime = False,
      ub_kernel_dma = False,
      client_fds = sv_new (rt_fds E),
      date = replicate 35 0,
      hot_json_buf = js_default (rt_json E),
      hot_data_lake = lk_build (rt_lake E) 512,
      sync_now = True,
      buffers = replicate BUFFERS_COUNT (replicate BUFFER_SIZE 0),
      released_buffers = [],
      client_out_buffers = sv_with_capacity (rt_outs E) 65535,
      hot_internal_cache = replicate (BUFFER_SIZE * 2) 0,
      universal_counter = 0,
      io_send_busy = False,
      nano_clock = nano_now,
      clock = now,
      last_sync_time = 0,
      rps = 0, hz = 0, synced = 0, rps_now = 0, hz_now = 0,
      mac = [], pci = []\<rparr>"

section \<open>Configuration\<close>

definition get_sqpoll_idle :: "('v, 'w, 'l, 'j) server \<Rightarrow> u32" where
  "get_sqpoll_idle s = sqpoll_idle s"

definition get_workers :: "('v, 'w, 'l, 'j) server \<Rightarrow> 8 word" where
  "get_workers s = workers s"

definition set_workers :: "8 word \<Rightarrow> ('v, 'w, 'l, 'j) server \<Rightarrow> ('v, 'w, 'l, 'j) server" where
  "set_workers n s = s\<lparr>workers := n\<rparr>"

definition get_sqpoll_enabled :: "('v, 'w, 'l, 'j) server \<Rightarrow> bool" where
  "get_sqpoll_enabled s = sqpoll_enabled s"

definition set_sqpoll_enabled :: "bool \<Rightarrow> ('v, 'w, 'l, 'j) server \<Rightarrow> ('v, 'w, 'l, 'j) server" where
  "set_sqpoll_enabled b s = s\<lparr>sqpoll_enabled := b\<rparr>"

definition set_uring_size :: "u32 \<Rightarrow> ('v, 'w, 'l, 'j) server \<Rightarrow> ('v, 'w, 'l, 'j) server" where
  "set_uring_size n s = s\<lparr>uring_size := n\<rparr>"

definition set_sqpoll_idle :: "u32 \<Rightarrow> ('v, 'w, 'l, 'j) server \<Rightarrow> ('v, 'w, 'l, 'j) server" where
  "set_sqpoll_idle n s = s\<lparr>sqpoll_idle := n\<rparr>"

definition get_realtime :: "('v, 'w, 'l, 'j) server \<Rightarrow> bool" where
  "get_realtime s = realtime s"

definition set_realtime :: "bool \<Rightarrow> ('v, 'w, 'l, 'j) server \<Rightarrow> ('v, 'w, 'l, 'j) server" where
  "set_realtime b s = s\<lparr>realtime := b\<rparr>"

definition get_ub_kernel_dma :: "('v, 'w, 'l, 'j) server \<Rightarrow> bool" where
  "get_ub_kernel_dma s = ub_kernel_dma s"

definition set_ub_kernel_dma :: "bool \<Rightarrow> ('v, 'w, 'l, 'j) server \<Rightarrow> ('v, 'w, 'l, 'j) server" where
  "set_ub_kernel_dma b s = s\<lparr>ub_kernel_dma := b\<rparr>"

definition build :: "('v, 'w, 'l, 'j) server \<Rightarrow> ('v, 'w, 'l, 'j) server" where
  "build s = s"

section \<open>One worker\<close>

text \<open>
  System calls made outside the ring, oldest first. \<open>kernel_buf\<close> is the buffer that the
  thread-local pointer points into, at its start.
\<close>

datatype syscall =
    Close fd
  | Setsockopt fd int int int
  | Getsockopt fd int int
  | Fcntl_Getfl fd
  | Fcntl_Setfl fd u32
  | Sys_Call5 int int int int sock_fprog int

record ('v, 'w, 'l, 'j, 'q) worker = "('v, 'w, 'l, 'j) server" +
  the_ring :: 'q
  kernel_buf :: "nat option"
  syscalls :: "syscall list"

type_synonym ('v, 'w, 'l, 'j, 'q) step = "('v, 'w, 'l, 'j, 'q) worker \<Rightarrow> ('v, 'w, 'l, 'j, 'q) worker outcome"

text \<open>The worker's observations of its crates.\<close>

abbreviation fd_of :: "('v, 'w, 'l, 'j, 'q) runtime \<Rightarrow> ('v, 'w, 'l, 'j, 'q) worker \<Rightarrow> nat \<Rightarrow> fd option" where
  "fd_of E s \<equiv> sv_get (rt_fds E) (client_fds s)"

abbreviation lake_of :: "('v, 'w, 'l, 'j, 'q) runtime \<Rightarrow> ('v, 'w, 'l, 'j, 'q) worker \<Rightarrow> nat \<Rightarrow> 'l option" where
  "lake_of E s \<equiv> sv_get (rt_outs E) (client_out_buffers s)"

abbreviation log_of :: "('v, 'w, 'l, 'j, 'q) runtime \<Rightarrow> ('v, 'w, 'l, 'j, 'q) worker \<Rightarrow> sqe list" where
  "log_of E s \<equiv> sq_log (rt_ring E) (the_ring s)"

section \<open>The worker invariant\<close>

text \<open>
  The buffers have their array sizes; the hot buffers keep the sizes the answers rely on; every
  client with an output lake has a file descriptor; every output lake has the capacity
  \<open>DATA_LAKE_SIZE\<close>; the first 100 client numbers are placeholders without a lake; fewer buffers
  than the release threshold wait to be handed back, all of them valid; the thread-local pointer
  points into the slab.
\<close>

definition RESERVED :: nat where "RESERVED = 100"

text \<open>\<open>(BUFFERS_COUNT as f64 / 1.5) as usize\<close>: 682.66\<open>\<dots>\<close> rounded towards zero.\<close>

definition release_threshold :: nat where
  "release_threshold = BUFFERS_COUNT * 2 div 3"

definition sizes_ok :: "('v, 'w, 'l, 'j, 'q) runtime \<Rightarrow> ('v, 'w, 'l, 'j, 'q) worker \<Rightarrow> bool" where
  "sizes_ok E s \<longleftrightarrow> length (buffers s) = BUFFERS_COUNT \<and>
     (\<forall>b \<in> set (buffers s). length b = BUFFER_SIZE) \<and>
     length (hot_internal_cache s) = BUFFER_SIZE * 2 \<and>
     lk_capacity (rt_lake E) (hot_data_lake s) = 512 \<and> length (date s) = 35"

definition clients_ok :: "('v, 'w, 'l, 'j, 'q) runtime \<Rightarrow> ('v, 'w, 'l, 'j, 'q) worker \<Rightarrow> bool" where
  "clients_ok E s \<longleftrightarrow>
     (\<forall>i l. lake_of E s i = Some l \<longrightarrow> fd_of E s i \<noteq> None \<and> RESERVED \<le> i \<and>
        lk_capacity (rt_lake E) l = DATA_LAKE_SIZE) \<and>
     RESERVED \<le> sv_next (rt_fds E) (client_fds s)"

definition released_ok :: "('v, 'w, 'l, 'j, 'q) worker \<Rightarrow> bool" where
  "released_ok s \<longleftrightarrow> length (released_buffers s) < release_threshold \<and>
     (\<forall>b \<in> set (released_buffers s). unat b < BUFFERS_COUNT) \<and>
     (\<forall>i. kernel_buf s = Some i \<longrightarrow> i < BUFFERS_COUNT)"

definition worker_ok :: "('v, 'w, 'l, 'j, 'q) runtime \<Rightarrow> ('v, 'w, 'l, 'j, 'q) worker \<Rightarrow> bool" where
  "worker_ok E s \<longleftrightarrow> sizes_ok E s \<and> clients_ok E s \<and> released_ok s"

lemmas worker_ok_defs = worker_ok_def sizes_ok_def clients_ok_def released_ok_def

lemma release_threshold_eq: "release_threshold = 682"
  by (simp add: release_threshold_def BUFFERS_COUNT_def)

text \<open>A worker on the reference runtime with given clients and ring, for concrete runs.\<close>

definition sample_worker ::
  "fd slots \<Rightarrow> bounded slots \<Rightarrow> ring_state
     \<Rightarrow> (fd slots, bounded slots, bounded, byte list, ring_state) worker" where
  "sample_worker fds outs q =
     (server.extend (server_new reference_runtime 1 0 0 ''0.0.0.0:8080'') (worker.fields q None []))
       \<lparr>client_fds := fds, client_out_buffers := outs\<rparr>"

lemma sample_worker_simps [simp]:
  "client_fds (sample_worker v w q) = v" "client_out_buffers (sample_worker v w q) = w"
  "the_ring (sample_worker v w q) = q" "kernel_buf (sample_worker v w q) = None"
  "syscalls (sample_worker v w q) = []" "ub_kernel_dma (sample_worker v w q) = False"
  "released_buffers (sample_worker v w q) = []" "date (sample_worker v w q) = replicate 35 0"
  "buffers (sample_worker v w q) = replicate BUFFERS_COUNT (replicate BUFFER_SIZE 0)"
  "hot_internal_cache (sample_worker v w q) = replicate (BUFFER_SIZE * 2) 0"
  "hot_data_lake (sample_worker v w q) = (512, [])"
  by (simp_all add: sample_worker_def server.defs worker.defs server_new_def reference_runtime_def
      bounded_lake_def)

definition sample_ring :: "nat \<Rightarrow> ring_state" where
  "sample_ring n = \<lparr>pushed = [], queued = 0, taken = 0, room = n, visible = [], posted = []\<rparr>"

definition sample_fds :: "fd list \<Rightarrow> fd slots" where
  "sample_fds fs = \<lparr>cells = replicate RESERVED (Some 0xFFFF) @ map Some fs, spare = 8\<rparr>"

definition sample_outs :: "byte list list \<Rightarrow> bounded slots" where
  "sample_outs bss = \<lparr>cells = replicate RESERVED None @ map (\<lambda>bs. Some (DATA_LAKE_SIZE, bs)) bss,
     spare = 8\<rparr>"

lemmas sample_simps = reference_runtime_def slots_vec_def slots_get_def bounded_lake_def queue_def
  sample_ring_def sample_fds_def sample_outs_def RESERVED_def nth_append

text \<open>
  The worker count of a new server is the number of CPUs, at least one, cut to eight bits: on
  a machine whose CPU count is a positive multiple of 256 it is zero.
\<close>

theorem server_new_workers:
  "unat (workers (server_new E n t0 t1 a)) = max n 1 mod 256 \<and>
   (workers (server_new E n t0 t1 a) = 0 \<longleftrightarrow> 0 < n \<and> 256 dvd n)"
proof -
  have "unat (workers (server_new E n t0 t1 a)) = max n 1 mod 256"
    by (simp add: server_new_def unat_of_nat)
  moreover have "workers (server_new E n t0 t1 a) = 0 \<longleftrightarrow> max n 1 mod 256 = 0"
    using calculation by (metis unat_eq_zero)
  moreover have "max n 1 mod 256 = 0 \<longleftrightarrow> 0 < n \<and> 256 dvd n"
    by (cases "n = 0") (auto simp: max_def dvd_eq_mod_eq_0)
  ultimately show ?thesis by simp
qed

end
