(* ===== verification/Buffer_Pool.thy ===== *)
theory Buffer_Pool
  imports Server_State
begin

text \<open>
  \<open>register_buffers\<close> and \<open>release_buffers\<close> of \<open>server.rs\<close>: handing the receive buffers to
  the kernel at start-up and handing consumed ones back. Both push their entries in a loop that
  retries until the submission queue takes them; the loop neither syncs nor submits, so a queue
  without room keeps it spinning.
\<close>

section \<open>The operations\<close>

text \<open>\<open>loop { match sq.push_multiple(..) { Ok(_) => break, Err(_) => error!(..) } }\<close>\<close>

partial_function (option) push_retry ::
  "('q \<Rightarrow> sqe list \<Rightarrow> 'q option) \<Rightarrow> 'q \<Rightarrow> sqe list \<Rightarrow> 'q option" where
  "push_retry push q rqs =
     (case push q rqs of Some q' \<Rightarrow> Some q' | None \<Rightarrow> push_retry push q rqs)"

text \<open>A loop that does not return is the outcome \<open>Diverges\<close> of its caller.\<close>

definition push_until_ok :: "('v, 'w, 'l, 'j, 'q) runtime \<Rightarrow> 'q \<Rightarrow> sqe list \<Rightarrow> 'q outcome" where
  "push_until_ok E q rqs = or_fault Diverges (push_retry (sq_push_multiple (rt_ring E)) q rqs)"

text \<open>The entry that hands buffer \<open>i\<close> of the slab to the kernel.\<close>

definition buffer_entry :: "byte list list \<Rightarrow> nat \<Rightarrow> sqe outcome" where
  "buffer_entry bufs i =
     obind (slice_get bufs i) (\<lambda>_. Inr (provide_buffer (Recv_Buffer i) (of_nat i) (int BUFFER_SIZE)))"

fun buffer_entries :: "byte list list \<Rightarrow> nat list \<Rightarrow> sqe list outcome" where
  "buffer_entries bufs [] = Inr []"
| "buffer_entries bufs (i # is) =
     obind (buffer_entry bufs i) (\<lambda>e. obind (buffer_entries bufs is) (\<lambda>es. Inr (e # es)))"

definition register_buffers :: "('v, 'w, 'l, 'j, 'q) runtime \<Rightarrow> ('v, 'w, 'l, 'j, 'q) step" where
  "register_buffers E s =
     obind (buffer_entries (buffers s) [0..<BUFFERS_COUNT]) (\<lambda>rqs.
     obind (push_until_ok E (the_ring s) rqs) (\<lambda>q.
       let q = sq_sync (rt_ring E) q;
           (r, q) = rg_submit_and_wait (rt_ring E) q BUFFERS_COUNT in
       obind r (\<lambda>_. Inr (s\<lparr>the_ring := q\<rparr>))))"

definition release_buffers :: "('v, 'w, 'l, 'j, 'q) runtime \<Rightarrow> ('v, 'w, 'l, 'j, 'q) step" where
  "release_buffers E s =
     (if length (released_buffers s) = 0 then Inr s
      else let (r, q) = rg_submit (rt_ring E) (the_ring s) in
           obind r (\<lambda>_.
           obind (buffer_entries (buffers s) (map unat (released_buffers s))) (\<lambda>rqs.
           obind (push_until_ok E q rqs) (\<lambda>q.
             let q = sq_sync (rt_ring E) q;
                 (r, q) = rg_submit_and_wait (rt_ring E) q (length (released_buffers s)) in
             obind r (\<lambda>_. Inr (s\<lparr>the_ring := q, released_buffers := []\<rparr>))))))"

section \<open>The retry loop\<close>

lemma push_retry_returns: "push_retry push q rqs = Some q' \<Longrightarrow> push q rqs = Some q'"
proof (rule push_retry.raw_induct [where P = "\<lambda>push q rqs q'. push q rqs = Some q'"])
  fix f push q rqs q'
  assume "\<And>push q rqs q'. f push q rqs = Some q' \<Longrightarrow> push q rqs = Some q'"
    and "(case push q rqs of None \<Rightarrow> f push q rqs | Some q' \<Rightarrow> Some q') = Some q'"
  then show "push q rqs = Some q'" by (cases "push q rqs") fastforce+
qed

lemma push_retry_eq: "push_retry push q rqs = push q rqs"
proof (cases "push q rqs")
  case None
  then show ?thesis using push_retry_returns [of push q rqs] by (cases "push_retry push q rqs") auto
next
  case (Some q')
  then show ?thesis by (simp add: push_retry.simps)
qed

lemma push_until_ok_Inr:
  "push_until_ok E q rqs = Inr q' \<longleftrightarrow> sq_push_multiple (rt_ring E) q rqs = Some q'"
  by (simp add: push_until_ok_def push_retry_eq or_fault_eq_Inr)

lemma push_until_ok_Inl:
  "push_until_ok E q rqs = Inl e \<longleftrightarrow> e = Diverges \<and> sq_push_multiple (rt_ring E) q rqs = None"
  by (cases "sq_push_multiple (rt_ring E) q rqs") (auto simp: push_until_ok_def push_retry_eq)

text \<open>
  The retry loop returns exactly when the submission queue has room for all of the entries at
  the first attempt, and then has appended them in order; otherwise it never returns.
\<close>

theorem push_until_ok_returns_iff:
  assumes "ring (rt_ring E)"
  shows "if sq_len (rt_ring E) q + length rqs \<le> sq_capacity (rt_ring E) q
    then \<exists>q'. push_until_ok E q rqs = Inr q' \<and> sq_log (rt_ring E) q' = sq_log (rt_ring E) q @ rqs
    else push_until_ok E q rqs = Inl Diverges"
  using ring.push_multiple_None [OF assms, of q rqs] ring.push_multiple_room [OF assms, of q rqs]
  by (auto simp: push_until_ok_Inr push_until_ok_Inl)

text \<open>A full queue of two entries.\<close>

theorem push_until_ok_returns_iff_witness:
  "push_until_ok reference_runtime
     \<lparr>pushed = [], queued = 2, taken = 2, room = 2, visible = [], posted = []\<rparr> [async_cancel]
   = Inl Diverges"
proof -
  have "ring (rt_ring reference_runtime)"
    by (simp add: reference_runtime_def queue.ring_axioms)
  from push_until_ok_returns_iff [OF this, of
      "\<lparr>pushed = [], queued = 2, taken = 2, room = 2, visible = [], posted = []\<rparr>" "[async_cancel]"]
  show ?thesis by (simp add: reference_runtime_def queue_def)
qed

section \<open>Registering\<close>

definition entry_of_buffer :: "nat \<Rightarrow> sqe" where
  "entry_of_buffer i = provide_buffer (Recv_Buffer i) (of_nat i) (int BUFFER_SIZE)"

lemma buffer_entries_in:
  "\<forall>i \<in> set is. i < length bufs \<Longrightarrow> buffer_entries bufs is = Inr (map entry_of_buffer is)"
  by (induction "is") (simp_all add: buffer_entry_def entry_of_buffer_def slice_simps)

lemma buffer_entries_Inr:
  "buffer_entries bufs is = Inr es \<Longrightarrow> (\<forall>i \<in> set is. i < length bufs) \<and> es = map entry_of_buffer is"
  by (induction "is" arbitrary: es)
     (auto simp: buffer_entry_def entry_of_buffer_def slice_get_def obind_eq_Inr_iff split: if_splits)

lemma register_buffers_Inr:
  assumes "ring (rt_ring E)" "register_buffers E s = Inr s'"
  shows "log_of E s' = log_of E s @ map entry_of_buffer [0..<BUFFERS_COUNT] \<and>
    s' = s\<lparr>the_ring := the_ring s'\<rparr>"
proof -
  note laws = ring.push_multiple_Some(2) [OF assms(1)] ring.sync_log [OF assms(1)]
    ring.wait_log [OF assms(1)]
  show ?thesis
    using assms(2) laws buffer_entries_Inr
    by (fastforce simp: register_buffers_def obind_eq_Inr_iff push_until_ok_Inr Let_def
        case_prod_beta)
qed

lemma register_buffers_cases:
  assumes "ring (rt_ring E)" "length (buffers s) = BUFFERS_COUNT"
  shows "if sq_len (rt_ring E) (the_ring s) + BUFFERS_COUNT \<le> sq_capacity (rt_ring E) (the_ring s)
    then \<exists>q. sq_log (rt_ring E) q = log_of E s @ map entry_of_buffer [0..<BUFFERS_COUNT] \<and>
      register_buffers E s =
        obind (fst (rg_submit_and_wait (rt_ring E) q BUFFERS_COUNT))
          (\<lambda>_. Inr (s\<lparr>the_ring := snd (rg_submit_and_wait (rt_ring E) q BUFFERS_COUNT)\<rparr>))
    else register_buffers E s = Inl Diverges"
proof -
  let ?es = "map entry_of_buffer [0..<BUFFERS_COUNT]" and ?Q = "rt_ring E"
  have es: "buffer_entries (buffers s) [0..<BUFFERS_COUNT] = Inr ?es"
    using assms(2) by (intro buffer_entries_in) simp
  show ?thesis
  proof (cases "sq_push_multiple ?Q (the_ring s) ?es")
    case None
    then have "push_until_ok E (the_ring s) ?es = Inl Diverges" by (simp add: push_until_ok_Inl)
    then show ?thesis
      using None ring.push_multiple_None [OF assms(1)] by (simp add: register_buffers_def es)
  next
    case (Some q)
    then have "push_until_ok E (the_ring s) ?es = Inr q" by (simp add: push_until_ok_Inr)
    then have "register_buffers E s =
        obind (fst (rg_submit_and_wait ?Q (sq_sync ?Q q) BUFFERS_COUNT))
          (\<lambda>_. Inr (s\<lparr>the_ring := snd (rg_submit_and_wait ?Q (sq_sync ?Q q) BUFFERS_COUNT)\<rparr>))"
      by (simp add: register_buffers_def es case_prod_beta Let_def)
    moreover have "sq_log ?Q (sq_sync ?Q q) = log_of E s @ ?es"
      using ring.push_multiple_Some(2) [OF assms(1) Some] ring.sync_log [OF assms(1)] by simp
    ultimately show ?thesis
      using ring.push_multiple_Some(1) [OF assms(1) Some] by auto
  qed
qed

text \<open>
  C26: start-up hangs exactly when the submission queue has no room for all 1024 registrations
  (so for every ring smaller than that); with room the kernel is offered the 1024 buffers once
  each, in order, and asked to wait for 1024 completions: an error of that wait is the error of
  the start-up, and otherwise only the ring has changed.
\<close>

theorem register_buffers_outcome:
  assumes "ring (rt_ring E)" "length (buffers s) = BUFFERS_COUNT"
  shows "if sq_len (rt_ring E) (the_ring s) + BUFFERS_COUNT \<le> sq_capacity (rt_ring E) (the_ring s)
    then \<exists>q. sq_log (rt_ring E) q = log_of E s @ map entry_of_buffer [0..<BUFFERS_COUNT] \<and>
      register_buffers E s =
        obind (fst (rg_submit_and_wait (rt_ring E) q BUFFERS_COUNT))
          (\<lambda>_. Inr (s\<lparr>the_ring := snd (rg_submit_and_wait (rt_ring E) q BUFFERS_COUNT)\<rparr>))
    else register_buffers E s = Inl Diverges"
  using register_buffers_cases [OF assms] .

text \<open>A ring of 512 entries.\<close>

theorem register_buffers_outcome_witness:
  "register_buffers reference_runtime
     (sample_worker \<lparr>cells = [], spare = 0\<rparr> \<lparr>cells = [], spare = 65535\<rparr> (sample_ring 512)) = Inl Diverges"
proof -
  let ?s = "sample_worker \<lparr>cells = [], spare = 0\<rparr> \<lparr>cells = [], spare = 65535\<rparr> (sample_ring 512)"
  have "ring (rt_ring reference_runtime)" by (simp add: reference_runtime_def queue.ring_axioms)
  moreover have "sq_len (rt_ring reference_runtime) (the_ring ?s) = 0"
    "sq_capacity (rt_ring reference_runtime) (the_ring ?s) = 512"
    by (simp_all add: sample_simps)
  ultimately show ?thesis
    using register_buffers_outcome [of reference_runtime ?s] by (simp add: BUFFERS_COUNT_def)
qed

section \<open>Releasing\<close>

lemma release_buffers_Inr:
  assumes "ring (rt_ring E)" "release_buffers E s = Inr s'"
  shows "log_of E s' = log_of E s @ map (entry_of_buffer \<circ> unat) (released_buffers s)"
    "s' = s\<lparr>the_ring := the_ring s', released_buffers := []\<rparr>"
proof -
  note laws = ring.push_multiple_Some(2) [OF assms(1)] ring.sync_log [OF assms(1)]
    ring.wait_log [OF assms(1)] ring.submit_log [OF assms(1)]
  show "log_of E s' = log_of E s @ map (entry_of_buffer \<circ> unat) (released_buffers s)"
    using assms(2) laws buffer_entries_Inr
    by (fastforce simp: release_buffers_def obind_eq_Inr_iff push_until_ok_Inr Let_def
        case_prod_beta split: if_splits)
  show "s' = s\<lparr>the_ring := the_ring s', released_buffers := []\<rparr>"
    using assms(2)
    by (auto simp: release_buffers_def obind_eq_Inr_iff Let_def case_prod_beta split: if_splits)
qed

lemma worker_ok_release:
  "worker_ok E s \<Longrightarrow> worker_ok E (s\<lparr>the_ring := q, released_buffers := []\<rparr>)"
  by (simp add: worker_ok_defs release_threshold_eq)

lemma release_buffers_ok:
  assumes "ring (rt_ring E)" "worker_ok E s" "release_buffers E s = Inr s'"
  shows "worker_ok E s'"
  by (subst release_buffers_Inr(2) [OF assms(1,3)]) (rule worker_ok_release [OF assms(2)])

text \<open>
  C25: when \<open>release_buffers\<close> returns, every waiting buffer has been offered to the kernel again
  exactly once, in the order in which the buffers were consumed, none is left waiting, and nothing
  but the ring has changed besides.
\<close>

theorem release_buffers_hands_back:
  assumes "ring (rt_ring E)" "release_buffers E s = Inr s'"
  shows "log_of E s' = log_of E s @ map (entry_of_buffer \<circ> unat) (released_buffers s) \<and>
    s' = s\<lparr>the_ring := the_ring s', released_buffers := []\<rparr>"
  using release_buffers_Inr [OF assms] by simp

theorem release_buffers_hands_back_witness:
  "\<exists>s'. release_buffers reference_runtime
      (sample_worker (sample_fds []) (sample_outs []) (sample_ring 4) \<lparr>released_buffers := [7, 5]\<rparr>) = Inr s' \<and>
    log_of reference_runtime s' = [entry_of_buffer 7, entry_of_buffer 5]"
proof -
  let ?s = "sample_worker (sample_fds []) (sample_outs []) (sample_ring 4) \<lparr>released_buffers := [7, 5]\<rparr>"
  have "buffer_entries (buffers ?s) [7, 5] = Inr (map entry_of_buffer [7, 5])"
    by (rule buffer_entries_in) (simp add: BUFFERS_COUNT_def)
  then have "\<exists>s'. release_buffers reference_runtime ?s = Inr s'"
    by (simp add: release_buffers_def push_until_ok_def push_retry_eq reference_runtime_def queue_def
        queue_push_def sample_ring_def)
  then obtain s' where s': "release_buffers reference_runtime ?s = Inr s'" by blast
  have log: "log_of reference_runtime ?s = []" by (simp add: sample_simps)
  have "ring (rt_ring reference_runtime)" by (simp add: reference_runtime_def queue.ring_axioms)
  from release_buffers_hands_back [OF this s'] log
  have "log_of reference_runtime s' = [entry_of_buffer 7, entry_of_buffer 5]" by simp
  then show ?thesis using s' by blast
qed

end
