(* ===== verification/Connections.thy ===== *)
theory Connections
  imports Buffer_Pool
begin

text \<open>
  The life of a client: \<open>process_entry_accept\<close>, \<open>close_connection\<close> and \<open>wideband_send\<close> of
  \<open>server.rs\<close>, with \<open>prepare_incoming_socket\<close> of \<open>network/socket_helpers.rs\<close>. A client
  number is the index of its descriptor in \<open>client_fds\<close>; its output lake sits at the same
  index of \<open>client_out_buffers\<close>.
\<close>

section \<open>The operations\<close>

definition SOL_SOCKET :: int where "SOL_SOCKET = 1"
definition SO_SNDBUF :: int where "SO_SNDBUF = 7"
definition SO_BUSY_POLL :: int where "SO_BUSY_POLL = 46"
definition SO_ZEROCOPY :: int where "SO_ZEROCOPY = 60"
definition IPPROTO_TCP :: int where "IPPROTO_TCP = 6"
definition TCP_NODELAY :: int where "TCP_NODELAY = 1"
definition O_NONBLOCK :: u32 where "O_NONBLOCK = 0x800"

definition prepare_incoming_socket :: "(fd \<Rightarrow> u32) \<Rightarrow> fd \<Rightarrow> syscall list" where
  "prepare_incoming_socket getfl client_fd =
     [Setsockopt client_fd SOL_SOCKET SO_SNDBUF (1 * 1024 * 1024),
      Getsockopt client_fd SOL_SOCKET SO_SNDBUF,
      Setsockopt client_fd SOL_SOCKET SO_BUSY_POLL 50,
      Setsockopt client_fd IPPROTO_TCP TCP_NODELAY 1,
      Setsockopt client_fd SOL_SOCKET SO_ZEROCOPY 1,
      Fcntl_Getfl client_fd,
      Fcntl_Setfl client_fd (getfl client_fd OR O_NONBLOCK)]"

text \<open>
  \<open>attach_reuseport_cbpf\<close> of \<open>utils/faf_helpers.rs\<close>: one raw \<open>setsockopt\<close>, whose result
  is only logged. \<open>SockFprog\<close> is 16 bytes: a \<open>u16\<close>, padding and a pointer.
\<close>

definition SYS_SETSOCKOPT :: int where "SYS_SETSOCKOPT = 54"
definition SO_ATTACH_REUSEPORT_CBPF :: int where "SO_ATTACH_REUSEPORT_CBPF = 51"
definition SOCK_FPROG_SIZE :: int where "SOCK_FPROG_SIZE = 16"

definition attach_reuseport_cbpf :: "fd \<Rightarrow> syscall list" where
  "attach_reuseport_cbpf f =
     (let prog = \<lparr>fprog_len = of_nat (length REUSEPORT_PROG), fprog_filter = REUSEPORT_PROG\<rparr> in
      [Sys_Call5 SYS_SETSOCKOPT f SOL_SOCKET SO_ATTACH_REUSEPORT_CBPF prog SOCK_FPROG_SIZE])"

text \<open>\<open>sq.push(&e).unwrap_or(())\<close>: a failing push is dropped.\<close>

definition push_or_drop :: "('v, 'w, 'l, 'j, 'q) runtime \<Rightarrow> sqe \<Rightarrow> 'q \<Rightarrow> 'q" where
  "push_or_drop E e q = (case sq_push (rt_ring E) q e of Some q' \<Rightarrow> q' | None \<Rightarrow> q)"

definition process_entry_accept ::
  "('v, 'w, 'l, 'j, 'q) runtime \<Rightarrow> int \<Rightarrow> ('v, 'w, 'l, 'j, 'q) step" where
  "process_entry_accept E result s =
     (let client_fd = result in
      if client_fd \<le> 0 then Inr s
      else
        let s = s\<lparr>syscalls := syscalls s @ prepare_incoming_socket (rt_getfl E) client_fd\<rparr>;
            (fds, client_fd_id) = sv_push (rt_fds E) (client_fds s) client_fd;
            s = s\<lparr>client_fds := fds\<rparr> in
        obind (or_fault Panic (sv_insert (rt_outs E) (client_out_buffers s) client_fd_id
                 (lk_build (rt_lake E) DATA_LAKE_SIZE))) (\<lambda>outs.
          let s = s\<lparr>client_out_buffers := outs\<rparr>;
              s = (if ub_kernel_dma s
                   then let client_poll_flag = \<lparr>client_id = of_nat client_fd_id, buffer_id = 0,
                              uniq_id = POLL_EVENT\<rparr>;
                            poll = poll_add client_fd (pack_user_data client_poll_flag);
                            s = s\<lparr>the_ring := push_or_drop E poll (the_ring s)\<rparr>
                        in s\<lparr>the_ring := sq_sync (rt_ring E) (the_ring s)\<rparr>
                   else s);
              ud = pack_user_data \<lparr>client_id = of_nat client_fd_id, buffer_id = 0,
                     uniq_id = INIT_REQUEST\<rparr>;
              s = s\<lparr>the_ring := push_or_drop E (recv_multi client_fd ud) (the_ring s)\<rparr>
          in Inr (s\<lparr>sync_now := True\<rparr>)))"

definition close_connection ::
  "('v, 'w, 'l, 'j, 'q) runtime \<Rightarrow> nat \<Rightarrow> bool \<Rightarrow> ('v, 'w, 'l, 'j, 'q) step" where
  "close_connection E cid force s =
     (let cfd = 0xFF in
      obind (if \<not> force
             then Inr (s, case sv_get (rt_fds E) (client_fds s) cid of Some f \<Rightarrow> f | None \<Rightarrow> cfd)
             else obind (or_fault Panic (sv_remove (rt_fds E) (client_fds s) cid)) (\<lambda>(fds, old).
                  let s = s\<lparr>client_fds := fds\<rparr>;
                      cfd = (case old of Some f \<Rightarrow> f | None \<Rightarrow> cfd) in
                  obind (or_fault Panic (sv_remove (rt_outs E) (client_out_buffers s) cid)) (\<lambda>(outs, _).
                    Inr (s\<lparr>client_out_buffers := outs\<rparr>, cfd))))
        (\<lambda>(s, cfd). if cfd = 0 then Inr s else Inr (s\<lparr>syscalls := syscalls s @ [Close cfd]\<rparr>)))"

text \<open>
  The loop of \<open>wideband_send\<close> over the occupied slots of \<open>client_out_buffers\<close>. A lake keeps
  its contents when its client is unknown.
\<close>

definition send_entry :: "nat \<Rightarrow> fd \<Rightarrow> nat \<Rightarrow> sqe" where
  "send_entry i f n =
     send (pack_user_data \<lparr>client_id = of_nat i, buffer_id = 0, uniq_id = SEND_EVENT\<rparr>) f
       (Client_Lake i) n False"

fun wideband_loop ::
  "('v, 'w, 'l, 'j, 'q) runtime \<Rightarrow> 'v \<Rightarrow> nat list \<Rightarrow> 'w \<Rightarrow> sqe list \<Rightarrow> 'w \<times> sqe list" where
  "wideband_loop E fds [] outs entries = (outs, entries)"
| "wideband_loop E fds (i # is) outs entries =
     (case sv_get (rt_outs E) outs i of
        None \<Rightarrow> wideband_loop E fds is outs entries
      | Some l \<Rightarrow>
          if lk_len (rt_lake E) l = 0 then wideband_loop E fds is outs entries
          else (case sv_get (rt_fds E) fds i of
                  Some f \<Rightarrow>
                    wideband_loop E fds is
                      (sv_set (rt_outs E) outs i (lk_reset (rt_lake E) l))
                      (entries @ [send_entry i f (lk_len (rt_lake E) l)])
                | None \<Rightarrow> wideband_loop E fds is outs entries))"

definition wideband_send :: "('v, 'w, 'l, 'j, 'q) runtime \<Rightarrow> ('v, 'w, 'l, 'j, 'q) step" where
  "wideband_send E s =
     (let ids = sv_indices (rt_outs E) (client_out_buffers s) in
      if length ids = 0 then Inr s
      else
        let s = s\<lparr>last_sync_time := nano_clock s\<rparr>;
            (outs, entries) = wideband_loop E (client_fds s) ids (client_out_buffers s) [];
            s = s\<lparr>client_out_buffers := outs\<rparr> in
        obind (if 0 < length entries
               then obind (or_fault Panic (sq_push_multiple (rt_ring E) (the_ring s) entries)) (\<lambda>q.
                      Inr (s\<lparr>the_ring := q, io_send_busy := True\<rparr>))
               else Inr s) (\<lambda>s.
          Inr (s\<lparr>sync_now := True\<rparr>)))"

section \<open>Accepting\<close>

text \<open>The worker after a client was accepted.\<close>

definition accepted ::
  "('v, 'w, 'l, 'j, 'q) runtime \<Rightarrow> int \<Rightarrow> ('v, 'w, 'l, 'j, 'q) worker \<Rightarrow> ('v, 'w, 'l, 'j, 'q) worker \<Rightarrow> bool" where
  "accepted E result s s' \<longleftrightarrow>
     (let n = sv_next (rt_fds E) (client_fds s) in
        fd_of E s' = (fd_of E s)(n \<mapsto> result) \<and>
        lake_of E s' = (lake_of E s)(n \<mapsto> lk_build (rt_lake E) DATA_LAKE_SIZE) \<and>
        sv_next (rt_fds E) (client_fds s') = Suc n \<and>
        sv_capacity (rt_outs E) (client_out_buffers s') =
          sv_capacity (rt_outs E) (client_out_buffers s) \<and>
        s' = s\<lparr>client_fds := client_fds s', client_out_buffers := client_out_buffers s',
          the_ring := the_ring s', sync_now := True,
          syscalls := syscalls s @ prepare_incoming_socket (rt_getfl E) result\<rparr>)"

context lawful_runtime
begin

lemma push_or_drop_log:
  "sq_log (rt_ring E) (push_or_drop E e q) =
     sq_log (rt_ring E) q @ (if sq_len (rt_ring E) q < sq_capacity (rt_ring E) q then [e] else [])"
  using ring.push_room [of q e] ring.push_full [of q e] by (auto simp: push_or_drop_def)

lemma accept_refused: "result \<le> 0 \<Longrightarrow> process_entry_accept E result s = Inr s"
  by (simp add: process_entry_accept_def)

lemma accept_full:
  assumes "0 < result" "sv_capacity (rt_outs E) (client_out_buffers s) \<le> sv_next (rt_fds E) (client_fds s)"
  shows "process_entry_accept E result s = Inl Panic"
  using assms outs.insert_out fds.push_index [of "client_fds s" result]
  by (simp add: process_entry_accept_def case_prod_beta Let_def)

lemma accept_in:
  assumes "0 < result"
    and "sv_next (rt_fds E) (client_fds s) < sv_capacity (rt_outs E) (client_out_buffers s)"
  shows "\<exists>s'. process_entry_accept E result s = Inr s' \<and> accepted E result s s'"
proof -
  let ?n = "sv_next (rt_fds E) (client_fds s)"
  obtain outs where ins: "sv_insert (rt_outs E) (client_out_buffers s) ?n
      (lk_build (rt_lake E) DATA_LAKE_SIZE) = Some outs"
    using outs.insert_in [OF assms(2)] by blast
  note facts = fds.push_index fds.push_get fds.push_next
    outs.insert_get [OF ins] outs.insert_capacity [OF ins]
  show ?thesis
    using assms(1) ins facts
    by (cases "ub_kernel_dma s")
       (simp_all add: process_entry_accept_def accepted_def case_prod_beta Let_def)
qed

lemma accept_ok:
  assumes "worker_ok E s" "process_entry_accept E result s = Inr s'"
  shows "worker_ok E s'"
proof (cases "0 < result")
  case False
  then show ?thesis using assms by (simp add: accept_refused)
next
  case True
  then have room: "sv_next (rt_fds E) (client_fds s) < sv_capacity (rt_outs E) (client_out_buffers s)"
    using accept_full [of result s] assms(2) by force
  from accept_in [OF True room] assms(2) have acc: "accepted E result s s'" by auto
  then have clients: "fd_of E s' = (fd_of E s)(sv_next (rt_fds E) (client_fds s) \<mapsto> result)"
    "lake_of E s' = (lake_of E s)(sv_next (rt_fds E) (client_fds s) \<mapsto> lk_build (rt_lake E) DATA_LAKE_SIZE)"
    "sv_next (rt_fds E) (client_fds s') = Suc (sv_next (rt_fds E) (client_fds s))"
    by (simp_all add: accepted_def Let_def)
  have "clients_ok E s'"
    using assms(1) clients lakes.build_capacity
    by (auto simp: worker_ok_def clients_ok_def)
  moreover obtain v w q where "s' = s\<lparr>client_fds := v, client_out_buffers := w, the_ring := q,
      sync_now := True, syscalls := syscalls s @ prepare_incoming_socket (rt_getfl E) result\<rparr>"
    using acc by (auto simp: accepted_def Let_def)
  then have "sizes_ok E s'" "released_ok s'"
    using assms(1) by (simp_all add: worker_ok_defs)
  ultimately show ?thesis by (simp add: worker_ok_def)
qed

end

text \<open>
  C19: accepting, on every worker and every result of the kernel. A failed accept changes nothing;
  with the slots of \<open>client_out_buffers\<close> used up the worker panics; otherwise the client gets
  the next number, which no client had before, with its descriptor and an empty lake of the full
  capacity at that number, the seven socket calls are made and a sync is requested, and every
  other client is as before.
\<close>

theorem process_entry_accept_outcome:
  assumes "runtime_laws E"
  shows "if result \<le> 0 then process_entry_accept E result s = Inr s
    else if sv_capacity (rt_outs E) (client_out_buffers s) \<le> sv_next (rt_fds E) (client_fds s)
    then process_entry_accept E result s = Inl Panic
    else fd_of E s (sv_next (rt_fds E) (client_fds s)) = None \<and>
      (\<exists>s'. process_entry_accept E result s = Inr s' \<and> accepted E result s s')"
proof -
  have E: "lawful_runtime E" using assms by (rule lawful_runtime.intro)
  have "stable_vec (rt_fds E)" using assms by (simp add: runtime_laws_def)
  from stable_vec.next_free [OF this] show ?thesis
    using lawful_runtime.accept_refused [OF E, of result s]
      lawful_runtime.accept_full [OF E, of result s] lawful_runtime.accept_in [OF E, of result s]
    by auto
qed

theorem process_entry_accept_outcome_witness:
  "\<exists>s'. process_entry_accept reference_runtime 12
      (sample_worker (sample_fds [9]) (sample_outs [[]]) (sample_ring 4)) = Inr s' \<and>
    fd_of reference_runtime s' 101 = Some 12"
proof -
  let ?s = "sample_worker (sample_fds [9]) (sample_outs [[]]) (sample_ring 4)"
  have "sv_next (rt_fds reference_runtime) (client_fds ?s) = 101"
    "sv_capacity (rt_outs reference_runtime) (client_out_buffers ?s) = 109"
    by (simp_all add: sample_simps)
  with process_entry_accept_outcome [OF reference_runtime_laws, of 12 ?s] show ?thesis
    by (auto simp: accepted_def Let_def)
qed

section \<open>Closing\<close>

context lawful_runtime
begin

text \<open>A slot below the capacity can be emptied, occupied or not.\<close>

lemma close_forced:
  assumes "cid < sv_capacity (rt_fds E) (client_fds s)"
    and "cid < sv_capacity (rt_outs E) (client_out_buffers s)"
  shows "\<exists>v w. close_connection E cid True s = Inr (s\<lparr>client_fds := v, client_out_buffers := w,
      syscalls := syscalls s @ (case fd_of E s cid of None \<Rightarrow> [Close 0xFF]
        | Some f \<Rightarrow> if f = 0 then [] else [Close f])\<rparr>) \<and>
    sv_get (rt_fds E) v = (fd_of E s)(cid := None) \<and>
    sv_get (rt_outs E) w = (lake_of E s)(cid := None) \<and>
    sv_next (rt_fds E) v = sv_next (rt_fds E) (client_fds s) \<and>
    sv_capacity (rt_fds E) v = sv_capacity (rt_fds E) (client_fds s) \<and>
    sv_capacity (rt_outs E) w = sv_capacity (rt_outs E) (client_out_buffers s)"
proof -
  obtain v where v: "sv_remove (rt_fds E) (client_fds s) cid = Some (v, fd_of E s cid)"
    using fds.remove_in [OF assms(1)] fds.remove_elem by force
  obtain w r where w: "sv_remove (rt_outs E) (client_out_buffers s) cid = Some (w, r)"
    using outs.remove_in [OF assms(2)] by force
  note facts = fds.remove_get [OF v] fds.remove_next [OF v] fds.remove_capacity [OF v]
    outs.remove_get [OF w] outs.remove_capacity [OF w]
  have "close_connection E cid True s = Inr (s\<lparr>client_fds := v, client_out_buffers := w,
      syscalls := syscalls s @ (case fd_of E s cid of None \<Rightarrow> [Close 0xFF]
        | Some f \<Rightarrow> if f = 0 then [] else [Close f])\<rparr>)"
    by (simp add: close_connection_def v w split: option.splits)
  with facts show ?thesis by blast
qed

lemma close_forced_Inr:
  assumes "close_connection E cid True s = Inr s'"
  shows "cid < sv_capacity (rt_fds E) (client_fds s)"
    "cid < sv_capacity (rt_outs E) (client_out_buffers s)"
  using assms fds.remove_out [of cid "client_fds s"] outs.remove_out [of cid "client_out_buffers s"]
  by (fastforce simp: close_connection_def obind_eq_Inr_iff or_fault_eq_Inr)+

lemma close_ok:
  assumes "worker_ok E s" "close_connection E cid force s = Inr s'"
  shows "worker_ok E s'"
proof (cases force)
  case False
  then show ?thesis
    using assms by (auto simp: close_connection_def worker_ok_defs split: if_splits)
next
  case True
  then have "close_connection E cid True s = Inr s'" using assms(2) by simp
  from close_forced [OF close_forced_Inr [OF this]] this
  obtain v w l where s': "s' = s\<lparr>client_fds := v, client_out_buffers := w, syscalls := l\<rparr>"
    "sv_get (rt_fds E) v = (fd_of E s)(cid := None)"
    "sv_get (rt_outs E) w = (lake_of E s)(cid := None)"
    "sv_next (rt_fds E) v = sv_next (rt_fds E) (client_fds s)" by auto
  then show ?thesis using assms(1) by (auto simp: worker_ok_defs)
qed

end

text \<open>
  C20: a forced close of a client with a descriptor other than standard input closes exactly that
  descriptor and frees both slots of the client and no others. A second close of the same client
  finds the slot empty and closes the descriptor 255, whoever holds it.
\<close>

theorem close_connection_forced:
  assumes "runtime_laws E" "fd_of E s cid = Some f" "f \<noteq> 0" "lake_of E s cid = Some l"
  shows "\<exists>s'. close_connection E cid True s = Inr s' \<and>
    fd_of E s' = (fd_of E s)(cid := None) \<and> lake_of E s' = (lake_of E s)(cid := None) \<and>
    syscalls s' = syscalls s @ [Close f] \<and>
    (\<exists>s''. close_connection E cid True s' = Inr s'' \<and> syscalls s'' = syscalls s @ [Close f, Close 255])"
proof -
  have E: "lawful_runtime E" using assms(1) by (rule lawful_runtime.intro)
  have vecs: "stable_vec (rt_fds E)" "stable_vec (rt_outs E)"
    using assms(1) by (simp_all add: runtime_laws_def)
  note caps = stable_vec.get_below_capacity [OF vecs(1) assms(2)]
    stable_vec.get_below_capacity [OF vecs(2) assms(4)]
  obtain v w where s': "close_connection E cid True s = Inr (s\<lparr>client_fds := v,
      client_out_buffers := w, syscalls := syscalls s @ [Close f]\<rparr>)"
    "sv_get (rt_fds E) v = (fd_of E s)(cid := None)" "sv_get (rt_outs E) w = (lake_of E s)(cid := None)"
    "sv_capacity (rt_fds E) v = sv_capacity (rt_fds E) (client_fds s)"
    "sv_capacity (rt_outs E) w = sv_capacity (rt_outs E) (client_out_buffers s)"
    using lawful_runtime.close_forced [OF E caps] assms(2,3) by auto
  then show ?thesis
    using caps lawful_runtime.close_forced [OF E, of cid "s\<lparr>client_fds := v,
      client_out_buffers := w, syscalls := syscalls s @ [Close f]\<rparr>"] by auto
qed

theorem close_connection_forced_witness:
  "\<exists>s'. close_connection reference_runtime 100 True
      (sample_worker (sample_fds [9]) (sample_outs [[]]) (sample_ring 4)) = Inr s' \<and>
    syscalls s' = [Close 9]"
  using close_connection_forced [OF reference_runtime_laws, of
      "sample_worker (sample_fds [9]) (sample_outs [[]]) (sample_ring 4)" 100 9 "(DATA_LAKE_SIZE, [])"]
  by (auto simp: sample_simps)

section \<open>Client numbers are used up\<close>

datatype client_event = Connect int | Disconnect nat

fun client_run ::
  "('v, 'w, 'l, 'j, 'q) runtime \<Rightarrow> client_event list \<Rightarrow> ('v, 'w, 'l, 'j, 'q) step" where
  "client_run E [] s = Inr s"
| "client_run E (Connect r # es) s = obind (process_entry_accept E r s) (client_run E es)"
| "client_run E (Disconnect c # es) s = obind (close_connection E c True s) (client_run E es)"

definition connects :: "client_event list \<Rightarrow> nat" where
  "connects es = length (filter (\<lambda>e. case e of Connect r \<Rightarrow> 0 < r | Disconnect c \<Rightarrow> False) es)"

context lawful_runtime
begin

lemma close_forced_cases:
  obtains (panics) "close_connection E c True s = Inl Panic"
  | (closes) s' where "close_connection E c True s = Inr s'"
    "sv_next (rt_fds E) (client_fds s') = sv_next (rt_fds E) (client_fds s)"
    "sv_capacity (rt_outs E) (client_out_buffers s') = sv_capacity (rt_outs E) (client_out_buffers s)"
proof (cases "c < sv_capacity (rt_fds E) (client_fds s) \<and>
    c < sv_capacity (rt_outs E) (client_out_buffers s)")
  case True
  then show ?thesis using close_forced [of c s] by (auto intro: closes)
next
  case False
  then show ?thesis
    using fds.remove_out [of c "client_fds s"] outs.remove_out [of c "client_out_buffers s"]
    by (intro panics, cases "sv_remove (rt_fds E) (client_fds s) c")
       (auto simp: close_connection_def case_prod_beta)
qed

lemma client_run_exhausts:
  assumes "sv_next (rt_fds E) (client_fds s) \<le> sv_capacity (rt_outs E) (client_out_buffers s)"
    and "sv_capacity (rt_outs E) (client_out_buffers s) < sv_next (rt_fds E) (client_fds s) + connects es"
  shows "client_run E es s = Inl Panic"
  using assms
proof (induction E\<equiv>E es s rule: client_run.induct)
  case (1 s)
  then show ?case by (simp add: connects_def)
next
  case (2 r es s)
  show ?case
  proof (cases "0 < r")
    case False
    then show ?thesis using 2 accept_refused [of r s] by (simp add: connects_def)
  next
    case True
    show ?thesis
    proof (cases "sv_next (rt_fds E) (client_fds s) < sv_capacity (rt_outs E) (client_out_buffers s)")
      case True
      then obtain s' where s': "process_entry_accept E r s = Inr s'" "accepted E r s s'"
        using accept_in \<open>0 < r\<close> by blast
      then have "client_run E es s' = Inl Panic"
        using 2 True \<open>0 < r\<close> by (simp add: accepted_def Let_def connects_def)
      then show ?thesis using s' by simp
    next
      case False
      then show ?thesis using accept_full [of r s] \<open>0 < r\<close> by simp
    qed
  qed
next
  case (3 c es s)
  show ?case
    by (cases c s rule: close_forced_cases) (use 3 in \<open>auto simp: connects_def\<close>)
qed

end

text \<open>
  C21: client numbers are never reused and the slots of \<open>client_out_buffers\<close> never grow, so a
  worker panics as soon as more clients have connected in its life than there were slots, however
  many of them have been closed again.
\<close>

theorem client_numbers_exhausted:
  assumes "runtime_laws E"
    and "sv_next (rt_fds E) (client_fds s) \<le> sv_capacity (rt_outs E) (client_out_buffers s)"
    and "sv_capacity (rt_outs E) (client_out_buffers s) < sv_next (rt_fds E) (client_fds s) + connects es"
  shows "client_run E es s = Inl Panic"
  using lawful_runtime.client_run_exhausts [OF lawful_runtime.intro] assms by blast

theorem client_numbers_exhausted_witness:
  "client_run reference_runtime [Connect 7, Disconnect 0, Connect 8, Disconnect 1, Connect 9]
     (sample_worker \<lparr>cells = [], spare = 0\<rparr> \<lparr>cells = [], spare = 2\<rparr> (sample_ring 4)) = Inl Panic"
  by (rule client_numbers_exhausted [OF reference_runtime_laws])
     (simp_all add: sample_simps connects_def)

section \<open>Sending\<close>

text \<open>The clients with output waiting, in the order of their numbers, and the entry for each.\<close>

definition has_output :: "('v, 'w, 'l, 'j, 'q) runtime \<Rightarrow> 'w \<Rightarrow> nat \<Rightarrow> bool" where
  "has_output E w i = (case sv_get (rt_outs E) w i of None \<Rightarrow> False | Some l \<Rightarrow> lk_bytes (rt_lake E) l \<noteq> [])"

definition pending :: "('v, 'w, 'l, 'j, 'q) runtime \<Rightarrow> ('v, 'w, 'l, 'j, 'q) worker \<Rightarrow> nat list" where
  "pending E s =
     filter (has_output E (client_out_buffers s)) (sv_indices (rt_outs E) (client_out_buffers s))"

definition output_entry :: "('v, 'w, 'l, 'j, 'q) runtime \<Rightarrow> 'v \<Rightarrow> 'w \<Rightarrow> nat \<Rightarrow> sqe" where
  "output_entry E v w i =
     send_entry i (the (sv_get (rt_fds E) v i))
       (length (lk_bytes (rt_lake E) (the (sv_get (rt_outs E) w i))))"

definition drained :: "'l lake_ops \<Rightarrow> 'l \<Rightarrow> 'l" where
  "drained L l = (if lk_bytes L l = [] then l else lk_reset L l)"

lemma has_output_simps:
  "sv_get (rt_outs E) w i = None \<Longrightarrow> \<not> has_output E w i"
  "sv_get (rt_outs E) w i = Some l \<Longrightarrow> has_output E w i \<longleftrightarrow> lk_bytes (rt_lake E) l \<noteq> []"
  by (simp_all add: has_output_def)

context lawful_runtime
begin

lemma wideband_loop_skip:
  "\<not> has_output E w i \<Longrightarrow> wideband_loop E v (i # is) w es = wideband_loop E v is w es"
  by (cases "sv_get (rt_outs E) w i") (simp_all add: has_output_simps lakes.len_bytes)

lemma drained_idle:
  "\<not> has_output E w i \<Longrightarrow> map_option (drained (rt_lake E)) (sv_get (rt_outs E) w i) = sv_get (rt_outs E) w i"
  by (cases "sv_get (rt_outs E) w i") (simp_all add: has_output_simps drained_def)

lemma wideband_loop_take:
  assumes "sv_get (rt_outs E) w i = Some l" "lk_bytes (rt_lake E) l \<noteq> []"
    "sv_get (rt_fds E) v i = Some f"
  defines "w1 \<equiv> sv_set (rt_outs E) w i (lk_reset (rt_lake E) l)"
  shows "wideband_loop E v (i # is) w es = wideband_loop E v is w1 (es @ [output_entry E v w i])"
    and "sv_get (rt_outs E) w1 = (sv_get (rt_outs E) w)(i \<mapsto> drained (rt_lake E) l)"
    and "sv_capacity (rt_outs E) w1 = sv_capacity (rt_outs E) w"
  using assms(1-3) outs.set_get [OF assms(1)] outs.set_capacity [OF assms(1)]
  by (simp_all add: w1_def output_entry_def lakes.len_bytes drained_def)

lemma wideband_loop_eq:
  assumes "distinct ids" and "\<forall>i \<in> set ids. has_output E w i \<longrightarrow> sv_get (rt_fds E) v i \<noteq> None"
  shows "\<exists>w'. wideband_loop E v ids w es =
      (w', es @ map (output_entry E v w) (filter (has_output E w) ids)) \<and>
    sv_get (rt_outs E) w' = (\<lambda>i. if i \<in> set ids
      then map_option (drained (rt_lake E)) (sv_get (rt_outs E) w i) else sv_get (rt_outs E) w i) \<and>
    sv_capacity (rt_outs E) w' = sv_capacity (rt_outs E) w"
  using assms
proof (induction ids arbitrary: w es)
  case Nil
  then show ?case by simp
next
  case (Cons i ids)
  have ids: "distinct ids" "i \<notin> set ids" using Cons.prems(1) by auto
  show ?case
  proof (cases "has_output E w i")
    case False
    with Cons.IH [OF ids(1), of w es] Cons.prems(2) show ?thesis
      by (auto simp: wideband_loop_skip drained_idle fun_eq_iff simp del: wideband_loop.simps)
  next
    case True
    then obtain l f where l: "sv_get (rt_outs E) w i = Some l" "lk_bytes (rt_lake E) l \<noteq> []"
      and f: "sv_get (rt_fds E) v i = Some f"
      using Cons.prems(2) by (auto simp: has_output_def split: option.splits)
    note step = wideband_loop_take [OF l f]
    define w1 where "w1 = sv_set (rt_outs E) w i (lk_reset (rt_lake E) l)"
    have same: "has_output E w1 j = has_output E w j" "output_entry E v w1 j = output_entry E v w j"
      if "j \<in> set ids" for j
      using that ids(2) step(2) by (auto simp: has_output_def output_entry_def w1_def)
    then have "map (output_entry E v w1) (filter (has_output E w1) ids) =
        map (output_entry E v w) (filter (has_output E w) ids)"
      by (simp cong: filter_cong map_cong)
    with Cons.IH [OF ids(1), of w1 "es @ [output_entry E v w i]"] Cons.prems(2) True l ids(2) step
    show ?thesis
      by (auto simp: same fun_eq_iff simp flip: w1_def simp del: wideband_loop.simps)
  qed
qed

lemma wideband_send_eq:
  assumes "clients_ok E s"
  shows "\<exists>w'. wideband_send E s =
      (if sv_indices (rt_outs E) (client_out_buffers s) = [] then Inr s
       else if pending E s = [] then Inr (s\<lparr>last_sync_time := nano_clock s,
         client_out_buffers := w', sync_now := True\<rparr>)
       else case sq_push_multiple (rt_ring E) (the_ring s)
           (map (output_entry E (client_fds s) (client_out_buffers s)) (pending E s)) of
         None \<Rightarrow> Inl Panic
       | Some q \<Rightarrow> Inr (s\<lparr>last_sync_time := nano_clock s, client_out_buffers := w',
           the_ring := q, io_send_busy := True, sync_now := True\<rparr>)) \<and>
    sv_get (rt_outs E) w' = map_option (drained (rt_lake E)) \<circ> lake_of E s \<and>
    sv_capacity (rt_outs E) w' = sv_capacity (rt_outs E) (client_out_buffers s)"
proof -
  let ?ids = "sv_indices (rt_outs E) (client_out_buffers s)" and ?w = "client_out_buffers s"
  have known: "\<forall>i \<in> set ?ids. has_output E ?w i \<longrightarrow> sv_get (rt_fds E) (client_fds s) i \<noteq> None"
    using assms by (auto simp: clients_ok_def outs.indices_set)
  obtain w' where w': "wideband_loop E (client_fds s) ?ids ?w [] =
      (w', map (output_entry E (client_fds s) ?w) (pending E s))"
    "sv_get (rt_outs E) w' = (\<lambda>i. if i \<in> set ?ids
      then map_option (drained (rt_lake E)) (sv_get (rt_outs E) ?w i) else sv_get (rt_outs E) ?w i)"
    "sv_capacity (rt_outs E) w' = sv_capacity (rt_outs E) ?w"
    using wideband_loop_eq [OF outs.indices_distinct known, of "[]"] by (auto simp: pending_def)
  moreover have "sv_get (rt_outs E) w' = map_option (drained (rt_lake E)) \<circ> lake_of E s"
    using w'(2) by (auto simp: fun_eq_iff outs.indices_set)
  ultimately show ?thesis
    by (intro exI [of _ w'])
       (auto simp: wideband_send_def Let_def split: option.splits)
qed

lemma drained_bytes: "lk_bytes (rt_lake E) (drained (rt_lake E) l) = []"
  by (simp add: drained_def lakes.reset_bytes)

lemma drained_capacity: "lk_capacity (rt_lake E) (drained (rt_lake E) l) = lk_capacity (rt_lake E) l"
  by (simp add: drained_def lakes.reset_capacity)

lemma wideband_ok:
  assumes "worker_ok E s" "wideband_send E s = Inr s'"
  shows "worker_ok E s'"
proof -
  have "clients_ok E s" using assms(1) by (simp add: worker_ok_def)
  then obtain w' where w': "sv_get (rt_outs E) w' = map_option (drained (rt_lake E)) \<circ> lake_of E s"
    and eq: "wideband_send E s =
      (if sv_indices (rt_outs E) (client_out_buffers s) = [] then Inr s
       else if pending E s = [] then Inr (s\<lparr>last_sync_time := nano_clock s,
         client_out_buffers := w', sync_now := True\<rparr>)
       else case sq_push_multiple (rt_ring E) (the_ring s)
           (map (output_entry E (client_fds s) (client_out_buffers s)) (pending E s)) of
         None \<Rightarrow> Inl Panic
       | Some q \<Rightarrow> Inr (s\<lparr>last_sync_time := nano_clock s, client_out_buffers := w',
           the_ring := q, io_send_busy := True, sync_now := True\<rparr>))"
    using wideband_send_eq by blast
  have "s' = s \<or> (\<exists>q b. s' = s\<lparr>last_sync_time := nano_clock s, client_out_buffers := w',
      sync_now := True\<rparr> \<or> s' = s\<lparr>last_sync_time := nano_clock s, client_out_buffers := w',
      the_ring := q, io_send_busy := True, sync_now := True\<rparr>)"
    using assms(2) unfolding eq by (simp split: if_splits option.splits) blast+
  then show ?thesis
    using assms(1) w' by (auto simp: worker_ok_defs drained_capacity)
qed

end

text \<open>
  C14: the flush of all output, on every worker whose clients are consistent. It panics exactly
  when there is output and the submission queue has no room for one entry per client with output;
  otherwise it appends one send entry per such client, in the order of the client numbers, each
  for the descriptor, the lake and the fill level of its own client, and leaves no output waiting
  and every descriptor as it was. The entries refer to the lakes, which are empty again before
  the kernel has read them.
\<close>

theorem wideband_send_flushes:
  assumes "runtime_laws E" "clients_ok E s"
  shows "if pending E s = [] \<or>
      sq_len (rt_ring E) (the_ring s) + length (pending E s) \<le> sq_capacity (rt_ring E) (the_ring s)
    then \<exists>s'. wideband_send E s = Inr s' \<and>
      log_of E s' = log_of E s @
        map (output_entry E (client_fds s) (client_out_buffers s)) (pending E s) \<and>
      (\<forall>i. \<not> has_output E (client_out_buffers s') i) \<and> client_fds s' = client_fds s \<and>
      (io_send_busy s' \<longleftrightarrow> io_send_busy s \<or> pending E s \<noteq> [])
    else wideband_send E s = Inl Panic"
proof -
  let ?es = "map (output_entry E (client_fds s) (client_out_buffers s)) (pending E s)"
  have E: "lawful_runtime E" using assms(1) by (rule lawful_runtime.intro)
  have ring: "ring (rt_ring E)" and vec: "stable_vec (rt_outs E)"
    using assms(1) by (simp_all add: runtime_laws_def)
  from lawful_runtime.wideband_send_eq [OF E assms(2)] obtain w' where
    eq: "wideband_send E s =
      (if sv_indices (rt_outs E) (client_out_buffers s) = [] then Inr s
       else if pending E s = [] then Inr (s\<lparr>last_sync_time := nano_clock s,
         client_out_buffers := w', sync_now := True\<rparr>)
       else case sq_push_multiple (rt_ring E) (the_ring s)
           (map (output_entry E (client_fds s) (client_out_buffers s)) (pending E s)) of
         None \<Rightarrow> Inl Panic
       | Some q \<Rightarrow> Inr (s\<lparr>last_sync_time := nano_clock s, client_out_buffers := w',
           the_ring := q, io_send_busy := True, sync_now := True\<rparr>))"
    and w': "sv_get (rt_outs E) w' = map_option (drained (rt_lake E)) \<circ> lake_of E s" by blast
  have empty: "\<not> has_output E w' i" for i
    using w' lawful_runtime.drained_bytes [OF E]
    by (cases "lake_of E s i") (simp_all add: has_output_def)
  have none: "\<not> has_output E (client_out_buffers s) i"
    if "sv_indices (rt_outs E) (client_out_buffers s) = []" for i
    using that stable_vec.indices_set [OF vec, of "client_out_buffers s"]
    by (cases "lake_of E s i") (auto simp: has_output_def)
  have idle: "sv_indices (rt_outs E) (client_out_buffers s) = [] \<Longrightarrow> pending E s = []"
    by (simp add: pending_def)
  show ?thesis
    using empty none idle ring.push_multiple_None [OF ring, of "the_ring s" ?es]
      ring.push_multiple_Some(2) [OF ring, of "the_ring s" ?es]
    by (auto simp: eq split: option.splits)
qed

theorem wideband_send_flushes_witness:
  "\<exists>s'. wideband_send reference_runtime
      (sample_worker (sample_fds [9]) (sample_outs [[1, 2]]) (sample_ring 4)) = Inr s' \<and>
    log_of reference_runtime s' = [send_entry 100 9 2]"
proof -
  let ?s = "sample_worker (sample_fds [9]) (sample_outs [[1, 2]]) (sample_ring 4)"
  have "clients_ok reference_runtime ?s"
    by (auto simp: clients_ok_def sample_simps split: if_splits)
  moreover have "pending reference_runtime ?s = [100]"
    by (simp add: pending_def has_output_def slots_indices_def sample_simps upt_conv_Cons)
  moreover have "sq_len (rt_ring reference_runtime) (the_ring ?s) = 0"
    "sq_capacity (rt_ring reference_runtime) (the_ring ?s) = 4" "log_of reference_runtime ?s = []"
    "output_entry reference_runtime (client_fds ?s) (client_out_buffers ?s) 100 = send_entry 100 9 2"
    by (simp_all add: output_entry_def sample_simps numeral_2_eq_2)
  ultimately show ?thesis
    using wideband_send_flushes [OF reference_runtime_laws, of ?s] by auto
qed

end
