(* ===== verification/Replies.thy ===== *)
theory Replies
  imports Connections Trim
begin

text \<open>
  Answering what a receive delivered: \<open>request_reply\<close> of \<open>server.rs\<close>, which scans the
  received bytes, runs the handler on every request and appends the answers to the output lake of
  the client, and \<open>ubdma\<close>, which does the same on the last receive buffer when a poll event
  arrives, before the kernel has announced what is in it.
\<close>

section \<open>The operations\<close>

text \<open>
  The loop that both share: \<open>for index in 0..requests.1\<close> over the entries and their number.
\<close>

function reply_loop ::
  "('v, 'w, 'l, 'j, 'q) runtime \<Rightarrow> request_entry list \<Rightarrow> nat \<Rightarrow> nat \<Rightarrow> nat
     \<Rightarrow> ('v, 'w, 'l, 'j, 'q) worker \<Rightarrow> (nat \<times> ('v, 'w, 'l, 'j, 'q) worker) outcome" where
  "reply_loop E requests n ix total_len s =
     (if ix < n
      then let s = s\<lparr>rps_now := rps_now s + 1\<rparr> in
           obind (slice_get requests ix) (\<lambda>(req_meth, req_path).
           obind (slice_from (hot_internal_cache s) total_len) (\<lambda>tail.
           obind (handler (rt_lake E) (rt_json E) req_meth req_path (date s) tail (hot_json_buf s)
                    (hot_data_lake s)) (\<lambda>(len, tail, json_buf, data_lake).
             reply_loop E requests n (ix + 1) (total_len + len)
               (s\<lparr>hot_internal_cache := take total_len (hot_internal_cache s) @ tail,
                  hot_json_buf := json_buf, hot_data_lake := data_lake\<rparr>))))
      else Inr (total_len, s))"
  by pat_completeness auto
termination
  by (relation "measure (\<lambda>(E, requests, n, ix, total_len, s). n - ix)") auto

declare reply_loop.simps [simp del]

text \<open>The cast \<open>result as usize\<close> of an \<open>i32\<close> extends its sign.\<close>

definition usize_of :: "int \<Rightarrow> nat" where
  "usize_of r = nat (r mod 2 ^ 64)"

text \<open>The cursed part: moving the received bytes to the end of the buffer.\<close>

definition shift_received :: "u16 \<Rightarrow> int \<Rightarrow> ('v, 'w, 'l, 'j, 'q) step" where
  "shift_received buf_id result s =
     (if ub_kernel_dma s
      then obind (slice_get (buffers s) (unat buf_id)) (\<lambda>buf.
           obind (slice_get buf (BUFFER_SIZE - 1)) (\<lambda>b.
             if b = 0
             then obind (shift_ub_inplace buf (usize_of result)) (\<lambda>buf.
                    Inr (s\<lparr>buffers := (buffers s)[unat buf_id := buf]\<rparr>))
             else Inr s))
      else Inr s)"

definition request_reply ::
  "('v, 'w, 'l, 'j, 'q) runtime \<Rightarrow> u32 \<Rightarrow> user_data \<Rightarrow> int \<Rightarrow> ('v, 'w, 'l, 'j, 'q) step" where
  "request_reply E flags user result s =
     (let buf_id = ucast (drop_bit 16 flags) :: u16;
          cid = unat (client_id user) in
      if result > int BUFFER_SIZE then Inr s
      else
        obind (slice_get (buffers s) (unat buf_id)) (\<lambda>buf.
        obind (slice buf 0 (usize_of result)) (\<lambda>buffer.
        let s = s\<lparr>kernel_buf := Some (unat buf_id)\<rparr> in
        obind (parse_http_methods_paths 50 buffer) (\<lambda>(requests, n).
        obind (reply_loop E requests n 0 0 s) (\<lambda>(total_len, s).
        obind (slice (hot_internal_cache s) 0 total_len) (\<lambda>hot_slice.
        obind (or_fault Undefined_Behaviour (lake_of E s cid)) (\<lambda>l.
        obind (lk_write (rt_lake E) l hot_slice) (\<lambda>l.
        let s = s\<lparr>client_out_buffers := sv_set (rt_outs E) (client_out_buffers s) cid l,
                  sync_now := True,
                  released_buffers := released_buffers s @ [buf_id]\<rparr> in
        obind (shift_received buf_id result s) (\<lambda>s.
          if length (released_buffers s) = release_threshold then release_buffers E s
          else Inr s)))))))))"

text \<open>
  The capacity of \<open>useful\<close>, which decides whether the scan was worth it, is zero exactly when
  the requested one is.
\<close>

definition ubdma ::
  "('v, 'w, 'l, 'j, 'q) runtime \<Rightarrow> user_data \<Rightarrow> ('v, 'w, 'l, 'j, 'q) step" where
  "ubdma E client s =
     (let cid = unat (client_id client) in
      case kernel_buf s of
        None \<Rightarrow> Inr s
      | Some i \<Rightarrow>
          obind (ptr_read (buffers s) i) (\<lambda>buffer.
          obind (l_trim256 buffer) (\<lambda>buffer.
          obind (parse_http_methods_paths 50 buffer) (\<lambda>(requests, n).
            let useful_capacity = (n - 5) * DATA_LAKE_SIZE in
            if useful_capacity = 0 then Inr s
            else case lake_of E s cid of
                   None \<Rightarrow> Inr s
                 | Some l \<Rightarrow>
                     if lk_len (rt_lake E) l \<noteq> 0 then Inr s
                     else obind (reply_loop E requests n 0 0 s) (\<lambda>(total_len, s).
                          obind (slice (hot_internal_cache s) 0 total_len) (\<lambda>hot_slice.
                          obind (lk_write (rt_lake E) l hot_slice) (\<lambda>l.
                            Inr (s\<lparr>client_out_buffers :=
                                     sv_set (rt_outs E) (client_out_buffers s) cid l,
                                   sync_now := True\<rparr>))))))))"

section \<open>The loop\<close>

text \<open>The answers to a list of requests, and the part of the worker that the loop may change.\<close>

definition replies :: "byte list \<Rightarrow> request_entry list \<Rightarrow> byte list" where
  "replies today rs = concat (map (response today) rs)"

definition replied ::
  "('v, 'w, 'l, 'j, 'q) runtime \<Rightarrow> nat \<Rightarrow> ('v, 'w, 'l, 'j, 'q) worker
     \<Rightarrow> ('v, 'w, 'l, 'j, 'q) worker \<Rightarrow> bool" where
  "replied E k s s' \<longleftrightarrow> (\<exists>cache j l.
     s' = s\<lparr>rps_now := rps_now s + of_nat k, hot_internal_cache := cache, hot_json_buf := j,
       hot_data_lake := l\<rparr> \<and>
     length cache = length (hot_internal_cache s) \<and>
     lk_capacity (rt_lake E) l = lk_capacity (rt_lake E) (hot_data_lake s))"

lemma replies_simps [simp]:
  "replies today [] = []" "replies today (r # rs) = response today r @ replies today rs"
  by (simp_all add: replies_def)

lemma length_replies_le: "length today = 35 \<Longrightarrow> length (replies today rs) \<le> 224 * length rs"
  by (induction rs) (auto intro: add_mono length_response_le)

lemma repliedI:
  assumes "length cache = length (hot_internal_cache s)"
    and "lk_capacity (rt_lake E) l = lk_capacity (rt_lake E) (hot_data_lake s)"
    and "s' = s\<lparr>rps_now := rps_now s + of_nat k, hot_internal_cache := cache, hot_json_buf := j,
      hot_data_lake := l\<rparr>"
  shows "replied E k s s'"
  unfolding replied_def using assms
  by (intro exI [of _ cache] exI [of _ j] exI [of _ l]) simp

lemma replied_refl: "replied E 0 s s"
  by (rule repliedI [where cache = "hot_internal_cache s" and l = "hot_data_lake s"
      and j = "hot_json_buf s"]) simp_all

lemma replied_frame:
  assumes "replied E k s s'"
  shows "client_out_buffers s' = client_out_buffers s" "client_fds s' = client_fds s"
    "buffers s' = buffers s" "released_buffers s' = released_buffers s" "date s' = date s"
    "ub_kernel_dma s' = ub_kernel_dma s" "the_ring s' = the_ring s" "kernel_buf s' = kernel_buf s"
    "syscalls s' = syscalls s" "rps_now s' = rps_now s + of_nat k"
    "length (hot_internal_cache s') = length (hot_internal_cache s)"
    "lk_capacity (rt_lake E) (hot_data_lake s') = lk_capacity (rt_lake E) (hot_data_lake s)"
  using assms by (auto simp: replied_def)

lemma replied_trans: "replied E a s s' \<Longrightarrow> replied E b s' s'' \<Longrightarrow> replied E (a + b) s s''"
  unfolding replied_def [of E a] replied_def [of E b]
  by (elim exE conjE, rule repliedI) (auto simp: add.assoc)

lemma replied_ok: "replied E k s s' \<Longrightarrow> worker_ok E s \<Longrightarrow> worker_ok E s'"
  by (auto simp: replied_def worker_ok_defs)

context lawful_runtime
begin

text \<open>One turn of the loop.\<close>

lemma reply_loop_turn:
  assumes "ix < n" "ix < length rs" "length (date s) = 35" "lk_capacity (rt_lake E) (hot_data_lake s) = 512"
    and "tot + 224 \<le> length (hot_internal_cache s)"
  shows "\<exists>s'. reply_loop E rs n ix tot s =
      reply_loop E rs n (ix + 1) (tot + length (response (date s) (rs ! ix))) s' \<and> replied E 1 s s' \<and>
    take (tot + length (response (date s) (rs ! ix))) (hot_internal_cache s') =
      take tot (hot_internal_cache s) @ response (date s) (rs ! ix)"
proof -
  obtain m p where r: "rs ! ix = (m, p)" by (cases "rs ! ix")
  let ?r = "response (date s) (m, p)" and ?c = "hot_internal_cache s"
  have len: "length ?r \<le> 224" using length_response_le [OF assms(3)] .
  obtain j l where h: "handler (rt_lake E) (rt_json E) m p (date s) (drop tot ?c) (hot_json_buf s)
      (hot_data_lake s) = Inr (length ?r, ?r @ drop (length ?r) (drop tot ?c), j, l)"
    "lk_capacity (rt_lake E) l = lk_capacity (rt_lake E) (hot_data_lake s)"
    using handler_lays_out [OF lakes.lake_axioms json.json_axioms, of "date s" m p "hot_data_lake s"
        "drop tot ?c" "hot_json_buf s"] len assms(4,5) by fastforce
  let ?s = "s\<lparr>rps_now := rps_now s + 1,
      hot_internal_cache := take tot ?c @ ?r @ drop (length ?r) (drop tot ?c),
      hot_json_buf := j, hot_data_lake := l\<rparr>"
  have "reply_loop E rs n ix tot s = reply_loop E rs n (ix + 1) (tot + length ?r) ?s"
    using assms(1,2,5) h(1) by (subst reply_loop.simps) (simp add: slice_simps slice_from_def r)
  moreover have "replied E 1 s ?s"
    using h(2) len assms(5) by (intro repliedI) auto
  ultimately show ?thesis using assms(5) unfolding r
    by (intro exI [of _ ?s]) simp
qed

lemma reply_loop_eq:
  assumes "n \<le> length rs" "length (date s) = 35" "lk_capacity (rt_lake E) (hot_data_lake s) = 512"
    and "tot + 224 * (n - ix) \<le> length (hot_internal_cache s)" and "ix \<le> n"
  shows "\<exists>s'. reply_loop E rs n ix tot s =
      Inr (tot + length (replies (date s) (drop ix (take n rs))), s') \<and> replied E (n - ix) s s' \<and>
    take (tot + length (replies (date s) (drop ix (take n rs)))) (hot_internal_cache s') =
      take tot (hot_internal_cache s) @ replies (date s) (drop ix (take n rs))"
  using assms
proof (induction "n - ix" arbitrary: ix tot s)
  case 0
  then show ?case using replied_refl by (subst reply_loop.simps) simp
next
  case (Suc k)
  let ?r = "response (date s) (rs ! ix)"
  have ix: "ix < n" "ix < length rs" and room: "tot + 224 \<le> length (hot_internal_cache s)"
    using Suc.hyps(2) Suc.prems by auto
  from reply_loop_turn [OF ix Suc.prems(2,3) room] obtain s1 where
    s1: "reply_loop E rs n ix tot s = reply_loop E rs n (ix + 1) (tot + length ?r) s1" "replied E 1 s s1"
    "take (tot + length ?r) (hot_internal_cache s1) = take tot (hot_internal_cache s) @ ?r" by blast
  note frame = replied_frame [OF s1(2)]
  have "length ?r \<le> 224" using length_response_le [OF Suc.prems(2)] .
  then have room': "tot + length ?r + 224 * (n - (ix + 1)) \<le> length (hot_internal_cache s1)"
    using Suc.hyps(2) Suc.prems(4) frame(11) by simp
  have rs: "drop ix (take n rs) = rs ! ix # drop (ix + 1) (take n rs)"
    using ix by (simp add: Cons_nth_drop_Suc [symmetric])
  have k: "k = n - (ix + 1)" and next_le: "ix + 1 \<le> n" using Suc.hyps(2) by auto
  have hot: "length (date s1) = 35" "lk_capacity (rt_lake E) (hot_data_lake s1) = 512"
    using Suc.prems(2,3) frame(5,12) by simp_all
  obtain s2 where s2: "reply_loop E rs n (ix + 1) (tot + length ?r) s1 =
      Inr (tot + length ?r + length (replies (date s1) (drop (ix + 1) (take n rs))), s2)"
    "replied E (n - (ix + 1)) s1 s2"
    "take (tot + length ?r + length (replies (date s1) (drop (ix + 1) (take n rs)))) (hot_internal_cache s2) =
      take (tot + length ?r) (hot_internal_cache s1) @ replies (date s1) (drop (ix + 1) (take n rs))"
    using Suc.hyps(1) [OF k Suc.prems(1) hot room' next_le] by blast
  have "replied E (n - ix) s s2"
    using replied_trans [OF s1(2) s2(2)] ix by (simp add: Suc_diff_Suc)
  then show ?case
    using s1 s2 frame(5) unfolding rs by (intro exI [of _ s2]) (simp add: add.assoc)
qed

end

section \<open>Answering a receive\<close>

text \<open>The requests that the scan of a buffer returns, and when it stays in the buffer.\<close>

definition scanned :: "byte list \<Rightarrow> request_entry list" where
  "scanned buf = requests_of buf (take 50 (request_positions buf))"

definition scan_safe :: "byte list \<Rightarrow> bool" where
  "scan_safe buf \<longleftrightarrow> (\<forall>p \<in> set (take 50 (request_positions buf)). \<not> overruns buf p)"

lemma length_scanned: "length (scanned buf) \<le> 50"
proof -
  have "length (scanned buf) \<le> length (take 50 (request_positions buf))"
    unfolding scanned_def requests_of_def parsed_starts_def List.map_filter_def
    by (metis (no_types, lifting) length_filter_le length_map order_trans)
  then show ?thesis by simp
qed

lemma parse_scanned:
  "parse_http_methods_paths 50 buf =
     (if scan_safe buf then Inr (filled 50 ([], []) (scanned buf)) else Inl Undefined_Behaviour)"
  by (auto simp: parse_http_methods_paths_eq scan_safe_def scanned_def)

text \<open>
  The worker after a receive of \<open>len\<close> bytes in buffer \<open>bid\<close> for client \<open>cid\<close> was answered
  with the new lake \<open>l\<close>: in \<open>ub_kernel_dma\<close> mode the received bytes move to the end of a
  buffer whose last byte is zero.
\<close>

definition reply_state ::
  "('v, 'w, 'l, 'j, 'q) runtime \<Rightarrow> u16 \<Rightarrow> nat \<Rightarrow> nat \<Rightarrow> 'l \<Rightarrow> ('v, 'w, 'l, 'j, 'q) worker
     \<Rightarrow> ('v, 'w, 'l, 'j, 'q) worker" where
  "reply_state E bid cid len l s = s\<lparr>
     client_out_buffers := sv_set (rt_outs E) (client_out_buffers s) cid l,
     sync_now := True,
     released_buffers := released_buffers s @ [bid],
     buffers := (if ub_kernel_dma s \<and> buffers s ! unat bid ! (BUFFER_SIZE - 1) = 0
       then (buffers s)[unat bid := replicate (BUFFER_SIZE - len) 0 @ take len (buffers s ! unat bid)]
       else buffers s)\<rparr>"

lemma usize_of_nonneg: "0 \<le> r \<Longrightarrow> r < 2 ^ 64 \<Longrightarrow> usize_of r = nat r"
  by (simp add: usize_of_def)

lemma shift_received_eq:
  assumes "unat bid < length (buffers s)" "length (buffers s ! unat bid) = BUFFER_SIZE"
    "usize_of result \<le> BUFFER_SIZE"
  shows "shift_received bid result s = Inr (s\<lparr>buffers :=
    (if ub_kernel_dma s \<and> buffers s ! unat bid ! (BUFFER_SIZE - 1) = 0
     then (buffers s)[unat bid := replicate (BUFFER_SIZE - usize_of result) 0 @
       take (usize_of result) (buffers s ! unat bid)]
     else buffers s)\<rparr>)"
  using assms by (simp add: shift_received_def slice_get_def shift_ub_inplace_le BUFFER_SIZE_def)

lemma buffer_length: "sizes_ok E s \<Longrightarrow> i < BUFFERS_COUNT \<Longrightarrow> length (buffers s ! i) = BUFFER_SIZE"
  by (simp add: sizes_ok_def)

context lawful_runtime
begin

lemma reply_all:
  assumes "sizes_ok E s"
  shows "\<exists>s'. reply_loop E (fst (filled 50 ([], []) (scanned buf))) (snd (filled 50 ([], []) (scanned buf)))
      0 0 s = Inr (length (replies (date s) (scanned buf)), s') \<and>
    replied E (length (scanned buf)) s s' \<and>
    slice (hot_internal_cache s') 0 (length (replies (date s) (scanned buf))) =
      Inr (replies (date s) (scanned buf))"
proof -
  let ?rs = "fst (filled 50 ([], []) (scanned buf))" and ?n = "length (scanned buf)"
  let ?out = "replies (date s) (scanned buf)"
  have n: "snd (filled 50 ([], []) (scanned buf)) = ?n" "take ?n ?rs = scanned buf" "?n \<le> length ?rs"
    using length_scanned [of buf] by (simp_all add: filled_def)
  have room: "0 + 224 * (?n - 0) \<le> length (hot_internal_cache s)"
    using assms length_scanned [of buf] by (simp add: sizes_ok_def BUFFER_SIZE_def)
  have hot: "length (date s) = 35" "lk_capacity (rt_lake E) (hot_data_lake s) = 512"
    using assms by (simp_all add: sizes_ok_def)
  obtain s' where s': "reply_loop E ?rs ?n 0 0 s = Inr (length ?out, s')"
    "replied E ?n s s'" "take (length ?out) (hot_internal_cache s') = ?out"
    using reply_loop_eq [OF n(3) hot room] by (auto simp: n(2))
  have "length ?out \<le> length (hot_internal_cache s')"
    using length_replies_le [OF hot(1), of "scanned buf"] room replied_frame(11) [OF s'(2)] by simp
  with s' show ?thesis unfolding n(1) by (intro exI [of _ s']) (simp add: slice_def)
qed

lemma request_reply_eq:
  fixes flags :: u32 and user :: user_data
  assumes "sizes_ok E s" "result \<le> int BUFFER_SIZE" "usize_of result \<le> BUFFER_SIZE"
  defines "bid \<equiv> ucast (drop_bit 16 flags) :: u16" and "cid \<equiv> unat (client_id user)"
  assumes bid: "unat bid < BUFFERS_COUNT"
  defines "buf \<equiv> take (usize_of result) (buffers s ! unat bid)"
  assumes safe: "scan_safe buf"
  shows "\<exists>s1. replied E (length (scanned buf)) (s\<lparr>kernel_buf := Some (unat bid)\<rparr>) s1 \<and>
    request_reply E flags user result s =
      obind (or_fault Undefined_Behaviour (lake_of E s cid)) (\<lambda>l.
      obind (lk_write (rt_lake E) l (replies (date s) (scanned buf))) (\<lambda>l'.
        if Suc (length (released_buffers s)) = release_threshold
        then release_buffers E (reply_state E bid cid (usize_of result) l' s1)
        else Inr (reply_state E bid cid (usize_of result) l' s1)))"
proof -
  let ?s = "s\<lparr>kernel_buf := Some (unat bid)\<rparr>" and ?b = "buffers s ! unat bid"
  have len: "length (buffers s) = BUFFERS_COUNT" "length ?b = BUFFER_SIZE"
    using assms(1) bid by (simp_all add: sizes_ok_def)
  have "sizes_ok E ?s" using assms(1) by (simp add: sizes_ok_def)
  from reply_all [OF this, of buf] obtain s1 where s1:
    "reply_loop E (fst (filled 50 ([], []) (scanned buf))) (snd (filled 50 ([], []) (scanned buf)))
      0 0 ?s = Inr (length (replies (date s) (scanned buf)), s1)"
    "replied E (length (scanned buf)) ?s s1"
    "slice (hot_internal_cache s1) 0 (length (replies (date s) (scanned buf))) =
      Inr (replies (date s) (scanned buf))" by auto
  have frame: "client_out_buffers s1 = client_out_buffers s" "buffers s1 = buffers s"
    "released_buffers s1 = released_buffers s" "ub_kernel_dma s1 = ub_kernel_dma s"
    using replied_frame [OF s1(2)] by simp_all
  have get: "slice_get (buffers s) (unat bid) = Inr ?b" "slice ?b 0 (usize_of result) = Inr buf"
    using bid len assms(3) by (simp_all add: slice_get_def slice_def buf_def BUFFER_SIZE_def)
  have shift: "shift_received bid result (s1\<lparr>client_out_buffers := sv_set (rt_outs E) (client_out_buffers s) cid l,
      sync_now := True, released_buffers := released_buffers s @ [bid]\<rparr>) =
    Inr (reply_state E bid cid (usize_of result) l s1)" for l
    using bid len assms(3) frame by (simp add: shift_received_eq reply_state_def)
  have released: "length (released_buffers (reply_state E bid cid k l s1)) = Suc (length (released_buffers s))"
    for k l using frame(3) by (simp add: reply_state_def)
  show ?thesis
    using s1 get assms(2) safe frame(1,3)
    by (intro exI [of _ s1] conjI)
       (simp_all add: request_reply_def Let_def parse_scanned case_prod_beta shift released
         bid_def [symmetric] cid_def [symmetric] del: snd_filled)
qed

lemma reply_state_parts:
  assumes "sizes_ok E s" "clients_ok E s" "lake_of E s cid = Some l"
    "lk_capacity (rt_lake E) l' = lk_capacity (rt_lake E) l" "len \<le> BUFFER_SIZE"
  shows "sizes_ok E (reply_state E bid cid len l' s)" "clients_ok E (reply_state E bid cid len l' s)"
proof -
  have "\<forall>b \<in> set ((buffers s)[unat bid := replicate (BUFFER_SIZE - len) 0 @ take len (buffers s ! unat bid)]).
      length b = BUFFER_SIZE" if "unat bid < length (buffers s)"
    using assms(1,5) that by (auto simp: sizes_ok_def dest!: set_update_subset_insert [THEN subsetD])
  then show "sizes_ok E (reply_state E bid cid len l' s)"
    using assms(1) by (cases "unat bid < length (buffers s)") (simp_all add: sizes_ok_def reply_state_def list_update_beyond)
  show "clients_ok E (reply_state E bid cid len l' s)"
    using assms(2-4) outs.set_get [OF assms(3), of l']
    by (auto simp: clients_ok_def reply_state_def split: if_splits)
qed

lemma request_reply_bounds:
  assumes "sizes_ok E s" "request_reply E flags user result s = Inr s'" "result \<le> int BUFFER_SIZE"
  shows "unat (ucast (drop_bit 16 flags) :: u16) < BUFFERS_COUNT" "usize_of result \<le> BUFFER_SIZE"
    "scan_safe (take (usize_of result) (buffers s ! unat (ucast (drop_bit 16 flags) :: u16)))"
  using assms
  by (auto simp: request_reply_def Let_def obind_eq_Inr_iff slice_get_def slice_def parse_scanned
      sizes_ok_def split: if_splits)

lemma request_reply_Inr:
  fixes flags :: u32 and user :: user_data
  assumes "sizes_ok E s" "request_reply E flags user result s = Inr s'" "result \<le> int BUFFER_SIZE"
  defines "bid \<equiv> ucast (drop_bit 16 flags) :: u16" and "cid \<equiv> unat (client_id user)"
  defines "rs \<equiv> scanned (take (usize_of result) (buffers s ! unat bid))"
  obtains l l' s1 where "lake_of E s cid = Some l"
    "lk_write (rt_lake E) l (replies (date s) rs) = Inr l'"
    "replied E (length rs) (s\<lparr>kernel_buf := Some (unat bid)\<rparr>) s1"
    "(if Suc (length (released_buffers s)) = release_threshold
      then release_buffers E (reply_state E bid cid (usize_of result) l' s1)
      else Inr (reply_state E bid cid (usize_of result) l' s1)) = Inr s'"
proof -
  note bounds = request_reply_bounds [OF assms(1-3)]
  from request_reply_eq [OF assms(1,3) bounds(2,1,3), of user] obtain s1 where
    s1: "replied E (length rs) (s\<lparr>kernel_buf := Some (unat bid)\<rparr>) s1"
    and eq: "request_reply E flags user result s =
      obind (or_fault Undefined_Behaviour (lake_of E s cid)) (\<lambda>l.
      obind (lk_write (rt_lake E) l (replies (date s) rs)) (\<lambda>l'.
        if Suc (length (released_buffers s)) = release_threshold
        then release_buffers E (reply_state E bid cid (usize_of result) l' s1)
        else Inr (reply_state E bid cid (usize_of result) l' s1)))"
    unfolding rs_def bid_def cid_def by blast
  from assms(2) [unfolded eq] obtain l l' where "lake_of E s cid = Some l"
    "lk_write (rt_lake E) l (replies (date s) rs) = Inr l'"
    "(if Suc (length (released_buffers s)) = release_threshold
      then release_buffers E (reply_state E bid cid (usize_of result) l' s1)
      else Inr (reply_state E bid cid (usize_of result) l' s1)) = Inr s'"
    unfolding obind_eq_Inr_iff or_fault_eq_Inr by blast
  with s1 show ?thesis by (intro that)
qed

lemma request_reply_ok:
  assumes "worker_ok E s" "request_reply E flags user result s = Inr s'"
  shows "worker_ok E s'"
proof (cases "result \<le> int BUFFER_SIZE")
  case False
  then show ?thesis using assms by (simp add: request_reply_def)
next
  case True
  let ?bid = "ucast (drop_bit 16 flags) :: u16" and ?len = "usize_of result"
  let ?s = "s\<lparr>kernel_buf := Some (unat ?bid)\<rparr>"
  have sizes: "sizes_ok E s" using assms(1) by (simp add: worker_ok_def)
  note bounds = request_reply_bounds [OF sizes assms(2) True]
  let ?rs = "scanned (take ?len (buffers s ! unat ?bid))"
  obtain l l' s1 where l: "lake_of E s (unat (client_id user)) = Some l"
    and wr: "lk_write (rt_lake E) l (replies (date s) ?rs) = Inr l'"
    and s1: "replied E (length ?rs) ?s s1"
    and s': "(if Suc (length (released_buffers s)) = release_threshold
        then release_buffers E (reply_state E ?bid (unat (client_id user)) ?len l' s1)
        else Inr (reply_state E ?bid (unat (client_id user)) ?len l' s1)) = Inr s'"
    by (rule request_reply_Inr [OF sizes assms(2) True])
  let ?s2 = "reply_state E ?bid (unat (client_id user)) ?len l' s1"
  note frame = replied_frame [OF s1]
  have "worker_ok E ?s" using assms(1) bounds(1) by (simp add: worker_ok_defs)
  then have ok1: "worker_ok E s1" by (rule replied_ok [OF s1])
  moreover have "lake_of E s1 (unat (client_id user)) = Some l" using l frame(1) by simp
  ultimately have parts: "sizes_ok E ?s2" "clients_ok E ?s2"
    using reply_state_parts [OF _ _ _ lakes.write_capacity [OF wr] bounds(2)]
    by (auto simp: worker_ok_def)
  have rest: "\<forall>b \<in> set (released_buffers ?s2). unat b < BUFFERS_COUNT"
    "\<forall>i. kernel_buf ?s2 = Some i \<longrightarrow> i < BUFFERS_COUNT"
    "length (released_buffers ?s2) = Suc (length (released_buffers s))"
    "length (released_buffers s) < release_threshold"
    using ok1 assms(1) bounds(1) frame(4) by (auto simp: worker_ok_defs reply_state_def)
  show ?thesis
  proof (cases "Suc (length (released_buffers s)) = release_threshold")
    case True
    then have "release_buffers E ?s2 = Inr s'" using s' by simp
    from release_buffers_Inr(2) [OF ring.ring_axioms this] obtain q
      where "s' = ?s2\<lparr>the_ring := q, released_buffers := []\<rparr>" by blast
    then show ?thesis
      using parts rest(2)
      by (simp add: worker_ok_def sizes_ok_def clients_ok_def released_ok_def release_threshold_eq)
  next
    case False
    then show ?thesis using s' parts rest by (simp add: worker_ok_def released_ok_def)
  qed
qed

end

text \<open>The bytes of a receive, and the worker after it was answered.\<close>

definition buffer_of :: "u32 \<Rightarrow> u16" where
  "buffer_of flags = ucast (drop_bit 16 flags)"

definition received :: "('v, 'w, 'l, 'j, 'q) worker \<Rightarrow> u16 \<Rightarrow> int \<Rightarrow> byte list" where
  "received s bid result = take (nat result) (buffers s ! unat bid)"

definition answered ::
  "('v, 'w, 'l, 'j, 'q) runtime \<Rightarrow> u16 \<Rightarrow> nat \<Rightarrow> request_entry list
     \<Rightarrow> ('v, 'w, 'l, 'j, 'q) worker \<Rightarrow> ('v, 'w, 'l, 'j, 'q) worker \<Rightarrow> bool" where
  "answered E bid cid rs s s' \<longleftrightarrow>
     (\<exists>l l'. lake_of E s cid = Some l \<and> lake_of E s' = (lake_of E s)(cid \<mapsto> l') \<and>
        lk_bytes (rt_lake E) l' = lk_bytes (rt_lake E) l @ replies (date s) rs) \<and>
     released_buffers s' = released_buffers s @ [bid] \<and> sync_now s' \<and>
     rps_now s' = rps_now s + of_nat (length rs) \<and> kernel_buf s' = Some (unat bid) \<and>
     client_fds s' = client_fds s \<and> the_ring s' = the_ring s \<and> syscalls s' = syscalls s"

context lawful_runtime
begin

lemma request_reply_too_long:
  "int BUFFER_SIZE < result \<Longrightarrow> request_reply E flags user result s = Inr s"
  by (simp add: request_reply_def)

lemma request_reply_no_buffer:
  assumes "sizes_ok E s" "result \<le> int BUFFER_SIZE" "BUFFERS_COUNT \<le> unat (buffer_of flags)"
  shows "request_reply E flags user result s = Inl Panic"
  using assms by (simp add: request_reply_def buffer_of_def slice_get_def sizes_ok_def)

lemma request_reply_unsafe:
  assumes "sizes_ok E s" "0 \<le> result" "result \<le> int BUFFER_SIZE" "unat (buffer_of flags) < BUFFERS_COUNT"
    and "\<not> scan_safe (received s (buffer_of flags) result)"
  shows "request_reply E flags user result s = Inl Undefined_Behaviour"
  using assms buffer_length [OF assms(1,4)]
  by (simp add: request_reply_def buffer_of_def received_def slice_get_def slice_def parse_scanned
      sizes_ok_def usize_of_nonneg BUFFER_SIZE_def Let_def)

lemma request_reply_written:
  assumes "worker_ok E s" "0 \<le> result" "result \<le> int BUFFER_SIZE"
    "unat (buffer_of flags) < BUFFERS_COUNT" "scan_safe (received s (buffer_of flags) result)"
  defines "out \<equiv> replies (date s) (scanned (received s (buffer_of flags) result))"
  shows "lake_of E s (unat (client_id user)) = None \<Longrightarrow>
      request_reply E flags user result s = Inl Undefined_Behaviour"
    and "lake_of E s (unat (client_id user)) = Some l \<Longrightarrow>
      length (lk_bytes (rt_lake E) l) + length out \<le> DATA_LAKE_SIZE \<Longrightarrow>
      \<exists>s1. answered E (buffer_of flags) (unat (client_id user))
          (scanned (received s (buffer_of flags) result)) s s1 \<and>
        request_reply E flags user result s =
          (if Suc (length (released_buffers s)) = release_threshold then release_buffers E s1 else Inr s1)"
proof -
  let ?bid = "buffer_of flags" and ?cid = "unat (client_id user)" and ?len = "nat result"
  let ?rs = "scanned (received s (buffer_of flags) result)"
  have sizes: "sizes_ok E s" using assms(1) by (simp add: worker_ok_def)
  have len: "usize_of result = ?len" "usize_of result \<le> BUFFER_SIZE"
    using assms(2,3) by (simp_all add: usize_of_nonneg BUFFER_SIZE_def)
  obtain s1 where s1: "replied E (length ?rs) (s\<lparr>kernel_buf := Some (unat ?bid)\<rparr>) s1"
    and eq: "request_reply E flags user result s =
      obind (or_fault Undefined_Behaviour (lake_of E s ?cid)) (\<lambda>l.
      obind (lk_write (rt_lake E) l out) (\<lambda>l'.
        if Suc (length (released_buffers s)) = release_threshold
        then release_buffers E (reply_state E ?bid ?cid ?len l' s1)
        else Inr (reply_state E ?bid ?cid ?len l' s1)))"
    using request_reply_eq [OF sizes assms(3) len(2), of flags user, folded buffer_of_def,
        unfolded len(1), folded received_def] assms(4,5) unfolding out_def by blast
  show "lake_of E s ?cid = None \<Longrightarrow> request_reply E flags user result s = Inl Undefined_Behaviour"
    by (simp add: eq)
  assume l: "lake_of E s ?cid = Some l"
    and room: "length (lk_bytes (rt_lake E) l) + length out \<le> DATA_LAKE_SIZE"
  have "lk_capacity (rt_lake E) l = DATA_LAKE_SIZE"
    using assms(1) l by (auto simp: worker_ok_def clients_ok_def)
  then obtain l' where l': "lk_write (rt_lake E) l out = Inr l'"
    "lk_bytes (rt_lake E) l' = lk_bytes (rt_lake E) l @ out"
    using lakes.write_in [of l out] room by auto
  note frame = replied_frame [OF s1]
  have "answered E ?bid ?cid ?rs s (reply_state E ?bid ?cid ?len l' s1)"
    unfolding answered_def using l l'(2) outs.set_get [OF l, of l'] frame
    by (intro conjI exI [of _ l] exI [of _ l']) (simp_all add: reply_state_def out_def)
  then show "\<exists>s1. answered E ?bid ?cid ?rs s s1 \<and>
      request_reply E flags user result s =
        (if Suc (length (released_buffers s)) = release_threshold then release_buffers E s1 else Inr s1)"
    using l l'(1) eq by auto
qed

end


section \<open>Pipelining, end to end\<close>

definition request_line :: "http_request \<Rightarrow> request_entry" where
  "request_line r = (req_method r, req_path r)"

lemma scanned_plain:
  assumes "\<forall>r \<in> set rs. plain_request r" "length rs \<le> 50"
  shows "scanned (concat (map render rs)) = map request_line rs" "scan_safe (concat (map render rs))"
proof -
  show "scanned (concat (map render rs)) = map request_line rs"
    using requests_of_plain [OF assms(1), of "[]" 50] assms(2)
    by (simp add: scanned_def request_positions_plain [OF assms(1)] request_line_def)
  show "scan_safe (concat (map render rs))"
    using plain_no_overrun [OF assms(1), of _ "[]"]
    by (auto simp: scan_safe_def request_positions_plain [OF assms(1)] dest: in_set_takeD)
qed

text \<open>
  C5: HTTP pipelining through the worker. When the kernel reports a receive whose bytes are up to
  50 plain requests back to back, for a client with 224 bytes of lake left per request, the lake
  of that client gains the answer to each of them, in the order of the requests and nothing else.
\<close>

theorem pipelined_requests_answered:
  assumes "runtime_laws E" "worker_ok E s" "0 \<le> result" "result \<le> int BUFFER_SIZE"
    and "unat (buffer_of flags) < BUFFERS_COUNT" "Suc (length (released_buffers s)) \<noteq> release_threshold"
    and "\<forall>r \<in> set rs. plain_request r" "length rs \<le> 50"
    and "received s (buffer_of flags) result = concat (map render rs)"
    and "lake_of E s (unat (client_id user)) = Some l"
    and "length (lk_bytes (rt_lake E) l) + 224 * length rs \<le> DATA_LAKE_SIZE"
  shows "\<exists>s' l'. request_reply E flags user result s = Inr s' \<and>
    lake_of E s' = (lake_of E s)(unat (client_id user) \<mapsto> l') \<and>
    lk_bytes (rt_lake E) l' = lk_bytes (rt_lake E) l @
      concat (map (\<lambda>r. response (date s) (req_method r, req_path r)) rs)"
proof -
  note scan = scanned_plain [OF assms(7,8)]
  have out: "replies (date s) (map request_line rs) =
      concat (map (\<lambda>r. response (date s) (req_method r, req_path r)) rs)"
    by (simp add: replies_def request_line_def comp_def)
  have "length (date s) = 35" using assms(2) by (simp add: worker_ok_defs)
  from length_replies_le [OF this, of "map request_line rs"]
  have room: "length (lk_bytes (rt_lake E) l) + length (replies (date s) (map request_line rs)) \<le> DATA_LAKE_SIZE"
    using assms(11) by simp
  from lawful_runtime.request_reply_written(2) [OF lawful_runtime.intro [OF assms(1)] assms(2-5)
      _ assms(10)] scan room assms(6)
  obtain s1 where "answered E (buffer_of flags) (unat (client_id user)) (map request_line rs) s s1"
    "request_reply E flags user result s = Inr s1"
    unfolding assms(9) by auto
  then show ?thesis
    using assms(10) out by (auto simp: answered_def)
qed

text \<open>A worker whose buffer 3 holds two requests.\<close>

definition sample_reader where
  "sample_reader = sample_worker (sample_fds [9]) (sample_outs [[]]) (sample_ring 4)
     \<lparr>buffers := (replicate BUFFERS_COUNT (replicate BUFFER_SIZE 0))
       [3 := concat (map render [sample_request, sample_request]) @ replicate (BUFFER_SIZE - 88) 0]\<rparr>"

lemma length_sample_requests: "length (concat (map render [sample_request, sample_request])) = 88"
  by (simp add: render_def sample_request_def)

lemma sample_reader_ok: "worker_ok reference_runtime sample_reader"
proof -
  have "sizes_ok reference_runtime sample_reader"
    using length_sample_requests
    by (auto simp: sizes_ok_def sample_reader_def reference_runtime_def bounded_lake_def BUFFER_SIZE_def
        dest!: set_update_subset_insert [THEN subsetD])
  moreover have "clients_ok reference_runtime sample_reader"
    by (auto simp: clients_ok_def sample_reader_def sample_simps split: if_splits)
  moreover have "released_ok sample_reader"
    by (simp add: released_ok_def sample_reader_def release_threshold_eq)
  ultimately show ?thesis by (simp add: worker_ok_def)
qed

lemma sample_received: "received sample_reader 3 88 = concat (map render [sample_request, sample_request])"
  using length_sample_requests
  by (simp add: received_def sample_reader_def BUFFERS_COUNT_def)

lemma sample_plain: "\<forall>r \<in> set [sample_request, sample_request]. plain_request r"
  by code_simp

lemma sample_reader_lake: "lake_of reference_runtime sample_reader 100 = Some (DATA_LAKE_SIZE, [])"
  by (simp add: sample_reader_def sample_simps)

theorem pipelined_requests_answered_witness:
  "\<exists>s' l'. request_reply reference_runtime 0x30000 \<lparr>client_id = 100, buffer_id = 0, uniq_id = INIT_REQUEST\<rparr>
      88 sample_reader = Inr s' \<and>
    lake_of reference_runtime s' = (lake_of reference_runtime sample_reader)(100 \<mapsto> l') \<and>
    lk_bytes (rt_lake reference_runtime) l' =
      response (replicate 35 0) (ascii ''GET'', ascii ''/plaintext'') @
      response (replicate 35 0) (ascii ''GET'', ascii ''/plaintext'')"
proof -
  have "buffer_of 0x30000 = 3" by (simp add: buffer_of_def)
  then show ?thesis
    using pipelined_requests_answered [OF reference_runtime_laws sample_reader_ok, of 88 "0x30000"
        "[sample_request, sample_request]" "\<lparr>client_id = 100, buffer_id = 0, uniq_id = INIT_REQUEST\<rparr>"
        "(DATA_LAKE_SIZE, [])"] sample_received sample_plain sample_reader_lake
    by (simp add: BUFFER_SIZE_def BUFFERS_COUNT_def DATA_LAKE_SIZE_def release_threshold_eq
        sample_reader_def sample_request_def reference_runtime_def bounded_lake_def)
qed


section \<open>Polling\<close>

text \<open>The bytes that a poll event finds in the last receive buffer.\<close>

definition glimpsed :: "('v, 'w, 'l, 'j, 'q) worker \<Rightarrow> nat \<Rightarrow> byte list" where
  "glimpsed s i = dropWhile (\<lambda>b. b = 0) (buffers s ! i)"

context lawful_runtime
begin

lemma l_trim_buffer: "l_trim256 buf = Inr (dropWhile (\<lambda>b. b = 0) buf)"
  by (simp add: l_trim256_def l_trim_loop_correct strip_left_def)

lemma ubdma_skips:
  assumes "worker_ok E s" "kernel_buf s = Some i"
  shows "\<not> scan_safe (glimpsed s i) \<Longrightarrow> ubdma E user s = Inl Undefined_Behaviour"
    and "scan_safe (glimpsed s i) \<Longrightarrow> length (scanned (glimpsed s i)) \<le> 5 \<or>
      lake_of E s (unat (client_id user)) = None \<or> has_output E (client_out_buffers s) (unat (client_id user))
      \<Longrightarrow> ubdma E user s = Inr s"
proof -
  have i: "i < length (buffers s)" using assms by (simp add: worker_ok_defs)
  have n: "snd (filled 50 ([], []) (scanned (glimpsed s i))) = length (scanned (glimpsed s i))"
    using length_scanned [of "glimpsed s i"] by simp
  show "\<not> scan_safe (glimpsed s i) \<Longrightarrow> ubdma E user s = Inl Undefined_Behaviour"
    using assms(2) i by (simp add: ubdma_def ptr_read_def l_trim_buffer parse_scanned glimpsed_def)
  show "ubdma E user s = Inr s"
    if "scan_safe (glimpsed s i)" "length (scanned (glimpsed s i)) \<le> 5 \<or>
      lake_of E s (unat (client_id user)) = None \<or> has_output E (client_out_buffers s) (unat (client_id user))"
    using that assms(2) i n
    by (auto simp: ubdma_def ptr_read_def l_trim_buffer parse_scanned glimpsed_def case_prod_beta
        Let_def lakes.len_bytes has_output_def simp del: snd_filled split: option.splits)
qed

lemma ubdma_writes:
  assumes "worker_ok E s" "kernel_buf s = Some i" "scan_safe (glimpsed s i)"
    "5 < length (scanned (glimpsed s i))" "lake_of E s (unat (client_id user)) = Some l"
    "lk_bytes (rt_lake E) l = []"
  shows "\<exists>s1 l'. ubdma E user s =
      Inr (s1\<lparr>client_out_buffers := sv_set (rt_outs E) (client_out_buffers s1) (unat (client_id user)) l',
        sync_now := True\<rparr>) \<and> replied E (length (scanned (glimpsed s i))) s s1 \<and>
    lk_bytes (rt_lake E) l' = replies (date s) (scanned (glimpsed s i)) \<and>
    lk_capacity (rt_lake E) l' = lk_capacity (rt_lake E) l"
proof -
  let ?rs = "scanned (glimpsed s i)"
  have i: "i < length (buffers s)" and sizes: "sizes_ok E s" and today: "length (date s) = 35"
    using assms(1,2) by (simp_all add: worker_ok_defs)
  have n: "snd (filled 50 ([], []) ?rs) = length ?rs"
    using length_scanned [of "glimpsed s i"] by simp
  obtain s1 where s1: "reply_loop E (fst (filled 50 ([], []) ?rs)) (length ?rs) 0 0 s =
      Inr (length (replies (date s) ?rs), s1)" "replied E (length ?rs) s s1"
    "slice (hot_internal_cache s1) 0 (length (replies (date s) ?rs)) = Inr (replies (date s) ?rs)"
    using reply_all [OF sizes, of "glimpsed s i"] unfolding n by blast
  have "length (replies (date s) ?rs) \<le> DATA_LAKE_SIZE"
    using length_replies_le [OF today, of ?rs] length_scanned [of "glimpsed s i"]
    by (simp add: DATA_LAKE_SIZE_def BUFFER_SIZE_def)
  moreover have "lk_capacity (rt_lake E) l = DATA_LAKE_SIZE"
    using assms(1,5) by (auto simp: worker_ok_def clients_ok_def)
  ultimately obtain l' where l': "lk_write (rt_lake E) l (replies (date s) ?rs) = Inr l'"
    "lk_bytes (rt_lake E) l' = replies (date s) ?rs"
    using lakes.write_in [of l "replies (date s) ?rs"] assms(6) by auto
  have "ubdma E user s =
      Inr (s1\<lparr>client_out_buffers := sv_set (rt_outs E) (client_out_buffers s1) (unat (client_id user)) l',
        sync_now := True\<rparr>)"
    using assms(2-6) i n s1(1,3) l'(1)
    by (simp add: ubdma_def ptr_read_def l_trim_buffer parse_scanned case_prod_beta Let_def
        lakes.len_bytes DATA_LAKE_SIZE_def BUFFER_SIZE_def glimpsed_def [symmetric] del: snd_filled)
  then show ?thesis using s1(2) l' lakes.write_capacity [OF l'(1)] by blast
qed

lemma lake_update_ok:
  assumes "worker_ok E s" "lake_of E s cid = Some l" "lk_capacity (rt_lake E) l' = lk_capacity (rt_lake E) l"
  shows "worker_ok E (s\<lparr>client_out_buffers := sv_set (rt_outs E) (client_out_buffers s) cid l',
    sync_now := b\<rparr>)"
  using assms(1,3) assms(2) outs.set_get [OF assms(2), of l'] by (auto simp: worker_ok_defs split: if_splits)

lemma ubdma_ok:
  assumes "worker_ok E s" "ubdma E user s = Inr s'"
  shows "worker_ok E s'"
proof (cases "kernel_buf s")
  case None
  then show ?thesis using assms by (simp add: ubdma_def)
next
  case (Some i)
  note skips = ubdma_skips [OF assms(1) Some, of user]
  have safe: "scan_safe (glimpsed s i)" using skips(1) assms(2) by force
  show ?thesis
  proof (cases "length (scanned (glimpsed s i)) \<le> 5 \<or>
      lake_of E s (unat (client_id user)) = None \<or> has_output E (client_out_buffers s) (unat (client_id user))")
    case True
    then show ?thesis using skips(2) [OF safe] assms by simp
  next
    case False
    then obtain l where l: "lake_of E s (unat (client_id user)) = Some l" "lk_bytes (rt_lake E) l = []"
      "5 < length (scanned (glimpsed s i))" by (auto simp: has_output_def)
    from ubdma_writes [OF assms(1) Some safe l(3,1,2)] assms(2) obtain s1 l' where
      s': "s' = s1\<lparr>client_out_buffers :=
        sv_set (rt_outs E) (client_out_buffers s1) (unat (client_id user)) l', sync_now := True\<rparr>"
      and s1: "replied E (length (scanned (glimpsed s i))) s s1"
      and l': "lk_capacity (rt_lake E) l' = lk_capacity (rt_lake E) l" by auto
    show ?thesis unfolding s'
      using lake_update_ok [OF replied_ok [OF s1 assms(1)] _ l'] l(1) replied_frame(1) [OF s1] by simp
  qed
qed

end

text \<open>
  C24: what a poll event does, on every worker that satisfies the invariant. Without a receive so
  far it does nothing. Otherwise the last receive buffer, without its leading zeroes, is scanned:
  an overrun there is undefined behaviour; up to five requests, an unknown client or output that
  is already waiting leave the worker as it is; and for more than five requests the lake of the
  client is filled with the answers to all of them, while no buffer is released and the ring is
  not used.
\<close>

theorem ubdma_outcome:
  assumes "runtime_laws E" "worker_ok E s"
  shows "case kernel_buf s of
      None \<Rightarrow> ubdma E user s = Inr s
    | Some i \<Rightarrow>
        if \<not> scan_safe (glimpsed s i) then ubdma E user s = Inl Undefined_Behaviour
        else if length (scanned (glimpsed s i)) \<le> 5 \<or> lake_of E s (unat (client_id user)) = None \<or>
          has_output E (client_out_buffers s) (unat (client_id user))
        then ubdma E user s = Inr s
        else \<exists>s' l'. ubdma E user s = Inr s' \<and> sync_now s' \<and>
          lake_of E s' = (lake_of E s)(unat (client_id user) \<mapsto> l') \<and>
          lk_bytes (rt_lake E) l' = replies (date s) (scanned (glimpsed s i)) \<and>
          released_buffers s' = released_buffers s \<and> the_ring s' = the_ring s"
proof (cases "kernel_buf s")
  case None
  then show ?thesis by (simp add: ubdma_def)
next
  case (Some i)
  have E: "lawful_runtime E" using assms(1) by (rule lawful_runtime.intro)
  have vec: "stable_vec (rt_outs E)" using assms(1) by (simp add: runtime_laws_def)
  note skips = lawful_runtime.ubdma_skips [OF E assms(2) Some, of user]
  have fills: "\<exists>s' l'. ubdma E user s = Inr s' \<and> sync_now s' \<and>
      lake_of E s' = (lake_of E s)(unat (client_id user) \<mapsto> l') \<and>
      lk_bytes (rt_lake E) l' = replies (date s) (scanned (glimpsed s i)) \<and>
      released_buffers s' = released_buffers s \<and> the_ring s' = the_ring s"
    if safe: "scan_safe (glimpsed s i)" and many: "5 < length (scanned (glimpsed s i))"
      and l: "lake_of E s (unat (client_id user)) = Some l" "lk_bytes (rt_lake E) l = []" for l
  proof -
    obtain s1 l' where s1: "ubdma E user s =
        Inr (s1\<lparr>client_out_buffers := sv_set (rt_outs E) (client_out_buffers s1) (unat (client_id user)) l',
          sync_now := True\<rparr>)" "replied E (length (scanned (glimpsed s i))) s s1"
      "lk_bytes (rt_lake E) l' = replies (date s) (scanned (glimpsed s i))"
      using lawful_runtime.ubdma_writes [OF E assms(2) Some safe many l] by blast
    then show ?thesis
      using replied_frame [OF s1(2)] stable_vec.set_get [OF vec l(1), of l'] by auto
  qed
  show ?thesis
    using skips fills by (auto simp: Some has_output_def not_le split: option.splits)
qed

text \<open>No buffer was received yet.\<close>

theorem ubdma_outcome_witness:
  "ubdma reference_runtime \<lparr>client_id = 100, buffer_id = 0, uniq_id = POLL_EVENT\<rparr> sample_reader
    = Inr sample_reader"
  using ubdma_outcome [OF reference_runtime_laws sample_reader_ok, of
      "\<lparr>client_id = 100, buffer_id = 0, uniq_id = POLL_EVENT\<rparr>"]
  by (simp add: sample_reader_def)

end
