(* ===== verification/Dispatch.thy ===== *)
theory Dispatch
  imports Replies
begin

text \<open>
  \<open>process_entry\<close> and \<open>process_entry_response\<close> of \<open>server.rs\<close>: what the worker does with a
  completion, decided by the user datum the entry was submitted with and by the result.
\<close>

section \<open>The operations\<close>

definition EAGAIN :: int where "EAGAIN = 11"
definition EBADF :: int where "EBADF = 9"
definition ENOBUFS :: int where "ENOBUFS = 105"
definition ECONNRESET :: int where "ECONNRESET = 104"

definition process_entry_response ::
  "('v, 'w, 'l, 'j, 'q) runtime \<Rightarrow> u64 \<Rightarrow> int \<Rightarrow> u32 \<Rightarrow> ('v, 'w, 'l, 'j, 'q) step" where
  "process_entry_response E ud result flags s =
     (let user = unpack_user_data ud;
          cid = unat (client_id user) in
      if result = - EAGAIN \<or> result = - EBADF then Inr s
      else if result = - ENOBUFS then release_buffers E s
      else if result = - 32 then Inr s
      else if result = 0 \<and> uniq_id user \<noteq> SEND_EVENT \<or> result = - ECONNRESET
      then close_connection E cid True s
      else if result < 0 then Inr s
      else if uniq_id user = POLL_EVENT \<and> ub_kernel_dma s then ubdma E user s
      else if uniq_id user = SEND_EVENT then Inr s
      else if result > 0 then request_reply E flags user result s
      else Inr s)"

definition process_entry ::
  "('v, 'w, 'l, 'j, 'q) runtime \<Rightarrow> cqe \<Rightarrow> ('v, 'w, 'l, 'j, 'q) step" where
  "process_entry E c s =
     (let ud = cqe_user_data c; result = cqe_result c; flags = cqe_flags c in
      if ud = BUFFER_REGISTER_CODE \<and> result = 0 \<and> flags = 0 then Inr s
      else if ud = CODE_ACCEPT then process_entry_accept E result s
      else if ud \<ge> REQ_RESP_OFFSET then process_entry_response E ud result flags s
      else Inr s)"

section \<open>The invariant is kept\<close>

text \<open>An operation, with an argument, that keeps an invariant whenever it returns.\<close>

locale keeps =
  fixes inv :: "'s \<Rightarrow> bool" and operation :: "'x \<Rightarrow> 's \<Rightarrow> 's outcome"
  assumes kept: "inv s \<Longrightarrow> operation x s = Inr s' \<Longrightarrow> inv s'"
begin

lemma run_kept: "inv s \<Longrightarrow> run_all operation xs s = Inr s' \<Longrightarrow> inv s'"
  by (induction xs arbitrary: s) (auto simp: obind_eq_Inr_iff intro: kept)

end

sublocale lawful_runtime \<subseteq> accepts: keeps "worker_ok E" "process_entry_accept E"
  by unfold_locales (rule accept_ok)

sublocale lawful_runtime \<subseteq> closes: keeps "worker_ok E" "\<lambda>c. close_connection E (fst c) (snd c)"
  by unfold_locales (rule close_ok)

sublocale lawful_runtime \<subseteq> releases: keeps "worker_ok E" "\<lambda>_ :: unit. release_buffers E"
  by unfold_locales (rule release_buffers_ok [OF ring.ring_axioms])

sublocale lawful_runtime \<subseteq> sends: keeps "worker_ok E" "\<lambda>_ :: unit. wideband_send E"
  by unfold_locales (rule wideband_ok)

sublocale lawful_runtime \<subseteq> polls: keeps "worker_ok E" "ubdma E"
  by unfold_locales (rule ubdma_ok)

sublocale lawful_runtime \<subseteq> answers: keeps "worker_ok E" "\<lambda>r. request_reply E (fst r) (fst (snd r)) (snd (snd r))"
  by unfold_locales (rule request_reply_ok)

context lawful_runtime
begin

lemma process_entry_response_ok:
  assumes "worker_ok E s" "process_entry_response E ud result flags s = Inr s'"
  shows "worker_ok E s'"
  using assms(2) release_buffers_ok [OF ring.ring_axioms assms(1)] close_ok [OF assms(1)]
    ubdma_ok [OF assms(1)] request_reply_ok [OF assms(1)] assms(1)
  unfolding process_entry_response_def Let_def
  by (simp split: if_split_asm)

lemma process_entry_ok:
  assumes "worker_ok E s" "process_entry E c s = Inr s'"
  shows "worker_ok E s'"
  using assms(2) accept_ok [OF assms(1)] process_entry_response_ok [OF assms(1)] assms(1)
  unfolding process_entry_def Let_def by (simp split: if_split_asm)

end

sublocale lawful_runtime \<subseteq> entries: keeps "worker_ok E" "process_entry E"
  by unfold_locales (rule process_entry_ok)

text \<open>
  The worker invariant is kept by the processing of any sequence of completions, whatever
  they are, for as long as the worker runs.
\<close>

theorem completions_keep_invariant:
  assumes "runtime_laws E" "worker_ok E s" "run_all (process_entry E) cs s = Inr s'"
  shows "worker_ok E s'"
proof -
  have "lawful_runtime E" using assms(1) by (rule lawful_runtime.intro)
  then have entries: "keeps (worker_ok E) (process_entry E)"
    by (simp add: keeps_def lawful_runtime.process_entry_ok)
  show ?thesis using keeps.run_kept [OF entries assms(2,3)] .
qed

section \<open>Routing\<close>

text \<open>The completion of an entry, as the kernel posts it.\<close>

definition completion :: "sqe \<Rightarrow> int \<Rightarrow> u32 \<Rightarrow> cqe" where
  "completion e r flags = \<lparr>cqe_user_data = op_user_data e, cqe_result = r, cqe_flags = flags\<rparr>"

definition tag :: "u32 \<Rightarrow> u16 \<Rightarrow> u64" where
  "tag c kind = pack_user_data \<lparr>client_id = c, buffer_id = 0, uniq_id = kind\<rparr>"

lemma tag_bounds:
  "REQ_RESP_OFFSET \<le> tag c kind" "tag c kind \<noteq> CODE_ACCEPT" "tag c kind \<noteq> BUFFER_REGISTER_CODE"
  by (simp_all add: tag_def pack_tag_bounds)

lemma process_entry_tagged:
  assumes "op_user_data e = tag c kind"
  shows "process_entry E (completion e r flags) s = process_entry_response E (tag c kind) r flags s"
  using assms tag_bounds [of c kind]
  by (simp add: process_entry_def completion_def Let_def)

lemma unpack_tag:
  "c \<noteq> 0 \<Longrightarrow> kind \<in> {INIT_REQUEST, POLL_EVENT, SEND_EVENT} \<Longrightarrow>
   unpack_user_data (tag c kind) = \<lparr>client_id = c, buffer_id = 0, uniq_id = kind\<rparr>"
  unfolding tag_def by (rule unpack_pack_server)

lemma event_kinds [simp]:
  "POLL_EVENT \<noteq> SEND_EVENT" "SEND_EVENT \<noteq> POLL_EVENT" "INIT_REQUEST \<noteq> SEND_EVENT"
  "INIT_REQUEST \<noteq> POLL_EVENT"
  by (simp_all add: POLL_EVENT_def SEND_EVENT_def INIT_REQUEST_def)

lemmas errno_defs = EAGAIN_def EBADF_def ENOBUFS_def ECONNRESET_def

text \<open>The response handler without the errors that it ignores one by one.\<close>

lemma process_entry_response_eq:
  "process_entry_response E ud r flags s =
     (let user = unpack_user_data ud in
      if r = 0 \<and> uniq_id user \<noteq> SEND_EVENT \<or> r = - ECONNRESET
      then close_connection E (unat (client_id user)) True s
      else if r < 0 then (if r = - ENOBUFS then release_buffers E s else Inr s)
      else if uniq_id user = POLL_EVENT \<and> ub_kernel_dma s then ubdma E user s
      else if uniq_id user = SEND_EVENT then Inr s
      else request_reply E flags user r s)"
  by (simp add: process_entry_response_def errno_defs Let_def)

lemma receive_routed:
  assumes "c \<noteq> 0"
  shows "process_entry E (completion (recv_multi f (tag c INIT_REQUEST)) r flags) s =
    (if 0 < r then request_reply E flags \<lparr>client_id = c, buffer_id = 0, uniq_id = INIT_REQUEST\<rparr> r s
     else if r = 0 then close_connection E (unat c) True s
     else process_entry_response E (tag c INIT_REQUEST) r flags s)"
  using unpack_tag [OF assms]
  by (simp add: process_entry_tagged process_entry_response_def Let_def errno_defs)

text \<open>
  C13: every entry the worker submits is routed, on completion, to the operation it was submitted
  for, and for its own client (any but number 0): a successful receive to \<open>request_reply\<close>, an
  empty receive to a forced close, a poll to \<open>ubdma\<close> in that mode, a send to nothing, a buffer
  registration to nothing and an accept to \<open>process_entry_accept\<close>.
\<close>

theorem completions_routed:
  assumes "c \<noteq> 0"
  shows "process_entry E (completion (recv_multi f (tag c INIT_REQUEST)) r flags) s =
      (if 0 < r then request_reply E flags \<lparr>client_id = c, buffer_id = 0, uniq_id = INIT_REQUEST\<rparr> r s
       else if r = 0 then close_connection E (unat c) True s
       else process_entry_response E (tag c INIT_REQUEST) r flags s) \<and>
    (0 < r \<and> ub_kernel_dma s \<longrightarrow>
      process_entry E (completion (poll_add f (tag c POLL_EVENT)) r flags) s =
        ubdma E \<lparr>client_id = c, buffer_id = 0, uniq_id = POLL_EVENT\<rparr> s) \<and>
    (0 \<le> r \<longrightarrow> process_entry E (completion (send (tag c SEND_EVENT) f p n b) r flags) s = Inr s) \<and>
    process_entry E (completion (provide_buffer a i k) 0 0) s = Inr s \<and>
    process_entry E (completion (accept_multi f) r flags) s = process_entry_accept E r s"
proof (intro conjI impI)
  note unpack = unpack_tag [OF assms]
  show "process_entry E (completion (recv_multi f (tag c INIT_REQUEST)) r flags) s =
      (if 0 < r then request_reply E flags \<lparr>client_id = c, buffer_id = 0, uniq_id = INIT_REQUEST\<rparr> r s
       else if r = 0 then close_connection E (unat c) True s
       else process_entry_response E (tag c INIT_REQUEST) r flags s)"
    by (rule receive_routed [OF assms])
  show "process_entry E (completion (poll_add f (tag c POLL_EVENT)) r flags) s =
        ubdma E \<lparr>client_id = c, buffer_id = 0, uniq_id = POLL_EVENT\<rparr> s" if "0 < r \<and> ub_kernel_dma s"
    using that by (simp add: process_entry_tagged process_entry_response_def unpack Let_def errno_defs)
  show "process_entry E (completion (send (tag c SEND_EVENT) f p n b) r flags) s = Inr s" if "0 \<le> r"
    using that by (simp add: process_entry_tagged process_entry_response_def unpack Let_def errno_defs)
  show "process_entry E (completion (provide_buffer a i k) 0 0) s = Inr s"
    by (simp add: process_entry_def completion_def)
  show "process_entry E (completion (accept_multi f) r flags) s = process_entry_accept E r s"
    by (simp add: process_entry_def completion_def CODE_ACCEPT_def BUFFER_REGISTER_CODE_def Let_def)
qed

theorem completions_routed_witness:
  "process_entry reference_runtime (completion (recv_multi 9 (tag 100 INIT_REQUEST)) 88 0x30000) sample_reader
    = request_reply reference_runtime 0x30000
        \<lparr>client_id = 100, buffer_id = 0, uniq_id = INIT_REQUEST\<rparr> 88 sample_reader"
  using completions_routed [of 100 reference_runtime 9 88 "0x30000" sample_reader] by simp

section \<open>Errors\<close>

text \<open>
  C23: error completions. Whatever entry it belongs to, a negative result of a tagged completion
  changes nothing, except that a shortage of buffers hands back the released ones and a reset
  connection is closed.
\<close>

theorem error_completions:
  assumes "r < 0" "REQ_RESP_OFFSET \<le> ud"
  shows "process_entry E \<lparr>cqe_user_data = ud, cqe_result = r, cqe_flags = flags\<rparr> s =
    (if r = - ENOBUFS then release_buffers E s
     else if r = - ECONNRESET then close_connection E (unat (client_id (unpack_user_data ud))) True s
     else Inr s)"
proof -
  have "ud \<noteq> CODE_ACCEPT" "ud \<noteq> BUFFER_REGISTER_CODE"
    using assms(2) code_below_offset by auto
  then show ?thesis
    using assms by (simp add: process_entry_def process_entry_response_def Let_def errno_defs)
qed

theorem error_completions_witness:
  "process_entry reference_runtime \<lparr>cqe_user_data = - 1, cqe_result = - 125, cqe_flags = 0\<rparr> sample_reader
    = Inr sample_reader"
  using error_completions [of "- 125" "- 1" reference_runtime 0 sample_reader]
  by (simp add: errno_defs)

text \<open>The invariant after a client of the sample worker hangs up.\<close>

theorem completions_keep_invariant_witness:
  "\<exists>s'. run_all (process_entry reference_runtime) [completion (recv_multi 9 (tag 100 INIT_REQUEST)) 0 0]
      sample_reader = Inr s' \<and> worker_ok reference_runtime s'"
proof -
  have "process_entry reference_runtime (completion (recv_multi 9 (tag 100 INIT_REQUEST)) 0 0) sample_reader
      = close_connection reference_runtime 100 True sample_reader"
    by (simp add: process_entry_tagged process_entry_response_def unpack_tag Let_def errno_defs)
  moreover obtain v w l where "close_connection reference_runtime 100 True sample_reader =
      Inr (sample_reader\<lparr>client_fds := v, client_out_buffers := w, syscalls := l\<rparr>)"
    using reference.close_forced [of 100 sample_reader]
    by (auto simp: sample_reader_def sample_simps)
  ultimately have "run_all (process_entry reference_runtime)
      [completion (recv_multi 9 (tag 100 INIT_REQUEST)) 0 0] sample_reader =
      Inr (sample_reader\<lparr>client_fds := v, client_out_buffers := w, syscalls := l\<rparr>)" by simp
  with completions_keep_invariant [OF reference_runtime_laws sample_reader_ok this]
  show ?thesis by blast
qed

section \<open>Completions that come after the close\<close>

context lawful_runtime
begin

lemma after_close:
  assumes "close_connection E cid True s = Inr s'"
  shows "lake_of E s' cid = None" "fd_of E s' cid = None" "buffers s' = buffers s" "date s' = date s"
    "released_buffers s' = released_buffers s"
  using close_forced [OF close_forced_Inr [OF assms]] assms by auto

lemma close_again:
  assumes "close_connection E cid True s = Inr s'"
  shows "\<exists>s''. close_connection E cid True s' = Inr s'' \<and> syscalls s'' = syscalls s' @ [Close 255]"
proof -
  have "cid < sv_capacity (rt_fds E) (client_fds s')" "cid < sv_capacity (rt_outs E) (client_out_buffers s')"
    using close_forced [OF close_forced_Inr [OF assms]] close_forced_Inr [OF assms] assms by auto
  from close_forced [OF this] after_close(2) [OF assms] show ?thesis by auto
qed

end

text \<open>
  C22: a connection that is reset while receives of it are still in the completion queue. The next
  receive that brings data for the closed client is undefined behaviour, and the next empty one
  closes descriptor 255, whoever owns it by then.
\<close>

theorem stale_completions:
  assumes "runtime_laws E" "worker_ok E s" "c \<noteq> 0" "close_connection E (unat c) True s = Inr s'"
    and "0 < r" "r \<le> int BUFFER_SIZE" "unat (buffer_of flags) < BUFFERS_COUNT"
    and "scan_safe (received s (buffer_of flags) r)"
  shows "process_entry E (completion (recv_multi f (tag c INIT_REQUEST)) r flags) s' = Inl Undefined_Behaviour \<and>
    (\<exists>s''. process_entry E (completion (recv_multi f (tag c INIT_REQUEST)) 0 0) s' = Inr s'' \<and>
      syscalls s'' = syscalls s' @ [Close 255])"
proof
  have E: "lawful_runtime E" using assms(1) by (rule lawful_runtime.intro)
  note closed = lawful_runtime.after_close [OF E assms(4)]
  have ok: "worker_ok E s'" by (rule lawful_runtime.close_ok [OF E assms(2,4)])
  have scan: "scan_safe (received s' (buffer_of flags) r)"
    using assms(8) closed(3) by (simp add: received_def)
  have "request_reply E flags \<lparr>client_id = c, buffer_id = 0, uniq_id = INIT_REQUEST\<rparr> r s' =
      Inl Undefined_Behaviour"
    using lawful_runtime.request_reply_written(1) [OF E ok _ assms(6,7) scan] assms(5) closed(1) by simp
  then show "process_entry E (completion (recv_multi f (tag c INIT_REQUEST)) r flags) s' =
      Inl Undefined_Behaviour"
    using assms(5) by (simp add: receive_routed [OF assms(3)])
  show "\<exists>s''. process_entry E (completion (recv_multi f (tag c INIT_REQUEST)) 0 0) s' = Inr s'' \<and>
      syscalls s'' = syscalls s' @ [Close 255]"
    using lawful_runtime.close_again [OF E assms(4)] by (simp add: receive_routed [OF assms(3)])
qed

theorem stale_completions_witness:
  "\<exists>s'. close_connection reference_runtime 100 True sample_reader = Inr s' \<and>
    process_entry reference_runtime (completion (recv_multi 9 (tag 100 INIT_REQUEST)) 88 0x30000) s' =
      Inl Undefined_Behaviour"
proof -
  obtain s' where "close_connection reference_runtime (unat (100 :: u32)) True sample_reader = Inr s'"
    using reference.close_forced [of 100 sample_reader]
    by (auto simp: sample_reader_def sample_simps)
  moreover have "buffer_of 0x30000 = 3" by (simp add: buffer_of_def)
  ultimately show ?thesis
    using stale_completions [OF reference_runtime_laws sample_reader_ok, of 100 s' 88 "0x30000" 9]
      sample_received scanned_plain(2) [OF sample_plain]
    by (simp add: BUFFER_SIZE_def BUFFERS_COUNT_def)
qed

end
