(* ===== verification/Reactor.thy ===== *)
theory Reactor
  imports Dispatch
begin

text \<open>
  \<open>sq_poll\<close> of \<open>server.rs\<close>: setting a worker up and the loop it runs for ever, one pass of
  which is \<open>turn\<close>. The clocks and the date line of a pass are its arguments. The step relation
  \<open>reactor\<close> breaks a pass into its stages and interleaves them with what the kernel does to the
  ring and to the receive buffers.
\<close>

section \<open>Setting up\<close>

fun reserve_writes_buffer :: "('v, 'w, 'l, 'j, 'q) runtime \<Rightarrow> nat
    \<Rightarrow> ('v, 'w, 'l, 'j, 'q) worker \<Rightarrow> ('v, 'w, 'l, 'j, 'q) worker" where
  "reserve_writes_buffer E 0 s = s"
| "reserve_writes_buffer E (Suc n) s =
     reserve_writes_buffer E n (s\<lparr>client_fds := fst (sv_push (rt_fds E) (client_fds s) 0xFFFF)\<rparr>)"

text \<open>\<open>sq.push(..).unwrap()\<close>, a number of times.\<close>

fun push_times :: "('v, 'w, 'l, 'j, 'q) runtime \<Rightarrow> sqe \<Rightarrow> nat \<Rightarrow> 'q \<Rightarrow> 'q outcome" where
  "push_times E e 0 q = Inr q"
| "push_times E e (Suc n) q = obind (or_fault Panic (sq_push (rt_ring E) q e)) (push_times E e n)"

definition sq_poll_setup ::
  "('v, 'w, 'l, 'j, 'q) runtime \<Rightarrow> fd \<Rightarrow> ('v, 'w, 'l, 'j, 'q) step" where
  "sq_poll_setup E listener_fd s =
     obind (register_buffers E s) (\<lambda>s.
     let s = s\<lparr>syscalls := syscalls s @ attach_reuseport_cbpf listener_fd\<rparr> in
     obind (push_times E (accept_multi listener_fd) DEFAULT_ACCEPT_MULTIPLICATOR (the_ring s)) (\<lambda>q.
     let (r, q) = rg_submit (rt_ring E) q in
     obind r (\<lambda>_.
     let s = reserve_writes_buffer E 100 (s\<lparr>the_ring := q\<rparr>);
         (r, q) = rg_register_files (rt_ring E) (the_ring s) (replicate 1024 (- 1)) in
     obind r (\<lambda>_. Inr (s\<lparr>the_ring := q, synced := 0\<rparr>)))))"

section \<open>One pass of the loop\<close>

definition tick ::
  "int \<Rightarrow> int \<Rightarrow> byte list \<Rightarrow> ('v, 'w, 'l, 'j, 'q) worker \<Rightarrow> ('v, 'w, 'l, 'j, 'q) worker" where
  "tick nano now today s =
     (let s = s\<lparr>nano_clock := nano, clock := now\<rparr> in
      if clock s \<noteq> synced s
      then s\<lparr>rps := rps_now s, hz := hz_now s, rps_now := 0, hz_now := 0, synced := clock s,
             date := today\<rparr>
      else s)"

definition flush :: "('v, 'w, 'l, 'j, 'q) runtime \<Rightarrow> ('v, 'w, 'l, 'j, 'q) step" where
  "flush E s = (if cq_is_empty (rt_ring E) (the_ring s) then wideband_send E s else Inr s)"

definition sync_queues ::
  "('v, 'w, 'l, 'j, 'q) runtime \<Rightarrow> ('v, 'w, 'l, 'j, 'q) worker \<Rightarrow> ('v, 'w, 'l, 'j, 'q) worker" where
  "sync_queues E s =
     (let s = (if sync_now s
               then s\<lparr>the_ring := sq_sync (rt_ring E) (the_ring s), sync_now := False\<rparr> else s) in
      if cq_is_empty (rt_ring E) (the_ring s)
      then s\<lparr>the_ring := cq_sync (rt_ring E) (the_ring s)\<rparr> else s)"

text \<open>The subtraction \<open>sq.capacity() - 4\<close> on \<open>usize\<close>.\<close>

definition usize_sub :: "nat \<Rightarrow> nat \<Rightarrow> nat" where
  "usize_sub a b = (a + 2 ^ 64 - b) mod 2 ^ 64"

definition enter_kernel :: "('v, 'w, 'l, 'j, 'q) runtime \<Rightarrow> ('v, 'w, 'l, 'j, 'q) step" where
  "enter_kernel E s =
     (if cq_is_empty (rt_ring E) (the_ring s)
      then let (r, q) = rg_submit_and_wait (rt_ring E) (the_ring s) 1 in
           obind r (\<lambda>_. Inr (s\<lparr>the_ring := q, io_send_busy := False\<rparr>))
      else if sq_len (rt_ring E) (the_ring s) \<ge> usize_sub (sq_capacity (rt_ring E) (the_ring s)) 4
      then let (r, q) = rg_submit (rt_ring E) (the_ring s) in
           obind r (\<lambda>_. Inr (s\<lparr>the_ring := q\<rparr>))
      else Inr s)"

text \<open>
  \<open>while let Some(cqe) = cq.next()\<close>: \<open>None\<close> means that the loop does not end.
\<close>

partial_function (option) drain ::
  "('v, 'w, 'l, 'j, 'q) runtime \<Rightarrow> ('v, 'w, 'l, 'j, 'q) worker
     \<Rightarrow> ('v, 'w, 'l, 'j, 'q) worker outcome option" where
  "drain E s =
     (case cq_next (rt_ring E) (the_ring s) of
        None \<Rightarrow> Some (Inr s)
      | Some (c, q) \<Rightarrow>
          (case process_entry E c (s\<lparr>the_ring := q\<rparr>) of
             Inl e \<Rightarrow> Some (Inl e)
           | Inr s \<Rightarrow> drain E (s\<lparr>hz_now := hz_now s + 1\<rparr>)))"

definition idle_release :: "('v, 'w, 'l, 'j, 'q) runtime \<Rightarrow> ('v, 'w, 'l, 'j, 'q) step" where
  "idle_release E s = (if rps s = 0 then release_buffers E s else Inr s)"

definition turn ::
  "('v, 'w, 'l, 'j, 'q) runtime \<Rightarrow> int \<Rightarrow> int \<Rightarrow> byte list \<Rightarrow> ('v, 'w, 'l, 'j, 'q) worker
     \<Rightarrow> ('v, 'w, 'l, 'j, 'q) worker outcome option" where
  "turn E nano now today s =
     (case obind (flush E (tick nano now today s)) (\<lambda>s. enter_kernel E (sync_queues E s)) of
        Inl e \<Rightarrow> Some (Inl e)
      | Inr s \<Rightarrow>
          (case drain E (s\<lparr>hz_now := hz_now s + 1\<rparr>) of
             None \<Rightarrow> None
           | Some r \<Rightarrow> Some (obind r (idle_release E))))"

section \<open>A pass ends\<close>

text \<open>No operation of the worker adds to the completions that it has already seen.\<close>

lemma reply_loop_ring: "reply_loop E rs n ix tot s = Inr (t, s') \<Longrightarrow> the_ring s' = the_ring s"
proof (induction E rs n ix tot s rule: reply_loop.induct)
  case (1 E rs n ix tot s)
  show ?case
    using 1(2) 1(1) by (subst (asm) reply_loop.simps)
      (fastforce simp: obind_eq_Inr_iff Let_def split: if_split_asm)
qed

definition seen :: "('v, 'w, 'l, 'j, 'q) runtime \<Rightarrow> ('v, 'w, 'l, 'j, 'q) worker \<Rightarrow> nat" where
  "seen E s = cq_len (rt_ring E) (the_ring s)"

context lawful_runtime
begin

lemma push_or_drop_cq: "cq_len (rt_ring E) (push_or_drop E e q) = cq_len (rt_ring E) q"
  using ring.push_Some(2) [of q e] by (cases "sq_push (rt_ring E) q e") (auto simp: push_or_drop_def)

lemma accept_seen:
  assumes "process_entry_accept E r s = Inr s'"
  shows "seen E s' = seen E s"
proof (cases "0 < r")
  case False
  then show ?thesis using assms accept_refused [of r s] by simp
next
  case True
  let ?n = "snd (sv_push (rt_fds E) (client_fds s) r)"
  obtain w where w: "sv_insert (rt_outs E) (client_out_buffers s) ?n (lk_build (rt_lake E) DATA_LAKE_SIZE) = Some w"
    using assms True
    by (cases "sv_insert (rt_outs E) (client_out_buffers s) ?n (lk_build (rt_lake E) DATA_LAKE_SIZE)")
       (simp_all add: process_entry_accept_def case_prod_beta Let_def)
  show ?thesis
    using assms [symmetric] True w
    by (simp add: process_entry_accept_def case_prod_beta Let_def seen_def push_or_drop_cq ring.sync_cq
        split: if_split_asm)
qed

lemma close_seen:
  assumes "close_connection E cid force s = Inr s'"
  shows "seen E s' = seen E s"
proof (cases force)
  case False
  then show ?thesis using assms [symmetric]
    by (simp add: close_connection_def seen_def split: if_split_asm)
next
  case True
  then have "close_connection E cid True s = Inr s'" using assms by simp
  from close_forced [OF close_forced_Inr [OF this]] this show ?thesis by (auto simp: seen_def)
qed

lemma release_seen: "release_buffers E s = Inr s' \<Longrightarrow> seen E s' = seen E s"
  by (auto simp: release_buffers_def seen_def obind_eq_Inr_iff push_until_ok_Inr Let_def
      case_prod_beta ring.sync_cq ring.submit_cq ring.wait_cq dest!: ring.push_multiple_Some(5)
      split: if_split_asm)

lemma shift_received_seen: "shift_received bid result s = Inr s' \<Longrightarrow> seen E s' = seen E s"
  by (auto simp: shift_received_def seen_def obind_eq_Inr_iff split: if_split_asm)

lemma ubdma_seen: "ubdma E user s = Inr s' \<Longrightarrow> seen E s' = seen E s"
  by (auto simp: ubdma_def seen_def obind_eq_Inr_iff Let_def dest!: reply_loop_ring
      split: if_split_asm option.split_asm prod.split_asm)

lemma request_reply_seen:
  assumes "request_reply E flags user result s = Inr s'"
  shows "seen E s' = seen E s"
  using assms
  by (auto simp: request_reply_def obind_eq_Inr_iff Let_def seen_def [symmetric]
      dest!: reply_loop_ring release_seen shift_received_seen split: if_split_asm prod.split_asm)
     (auto simp: seen_def)

lemma process_entry_seen: "process_entry E c s = Inr s' \<Longrightarrow> seen E s' = seen E s"
  using accept_seen close_seen release_seen ubdma_seen request_reply_seen
  unfolding process_entry_def process_entry_response_def Let_def
  by (simp split: if_split_asm)

lemma drain_step:
  "cq_next (rt_ring E) (the_ring s) = None \<Longrightarrow> drain E s = Some (Inr s)"
  "cq_next (rt_ring E) (the_ring s) = Some (c, q) \<Longrightarrow> process_entry E c (s\<lparr>the_ring := q\<rparr>) = Inl e \<Longrightarrow>
     drain E s = Some (Inl e)"
  "cq_next (rt_ring E) (the_ring s) = Some (c, q) \<Longrightarrow> process_entry E c (s\<lparr>the_ring := q\<rparr>) = Inr s1 \<Longrightarrow>
     drain E s = drain E (s1\<lparr>hz_now := hz_now s1 + 1\<rparr>)"
  by (subst drain.simps, simp)+

lemma worker_ok_updates:
  "worker_ok E s \<Longrightarrow> worker_ok E (s\<lparr>the_ring := q\<rparr>)" "worker_ok E s \<Longrightarrow> worker_ok E (s\<lparr>hz_now := h\<rparr>)"
  by (simp_all add: worker_ok_defs)

lemma drain_outcome:
  "\<exists>r. drain E s = Some r \<and> (\<forall>s'. r = Inr s' \<longrightarrow> seen E s' = 0 \<and> (worker_ok E s \<longrightarrow> worker_ok E s'))"
proof (induction "seen E s" arbitrary: s)
  case 0
  then have "cq_next (rt_ring E) (the_ring s) = None" by (simp add: ring.next_none seen_def)
  from drain_step(1) [OF this] show ?case using 0 by simp
next
  case (Suc n)
  then obtain c q where c: "cq_next (rt_ring E) (the_ring s) = Some (c, q)"
    using ring.next_none [of "the_ring s"] by (cases "cq_next (rt_ring E) (the_ring s)") (auto simp: seen_def)
  have n: "seen E (s\<lparr>the_ring := q\<rparr>) = n"
    using ring.next_some [OF c] Suc.hyps(2) by (simp add: seen_def)
  show ?case
  proof (cases "process_entry E c (s\<lparr>the_ring := q\<rparr>)")
    case (Inl e)
    from drain_step(2) [OF c Inl] show ?thesis by simp
  next
    case (Inr s1)
    let ?s1 = "s1\<lparr>hz_now := hz_now s1 + 1\<rparr>"
    have ok: "worker_ok E ?s1" if "worker_ok E s"
      by (rule worker_ok_updates(2) [OF process_entry_ok [OF worker_ok_updates(1) [OF that] Inr]])
    have "n = seen E ?s1" using process_entry_seen [OF Inr] n by (simp add: seen_def)
    from Suc.hyps(1) [OF this] ok show ?thesis
      unfolding drain_step(3) [OF c Inr] by blast
  qed
qed

end


section \<open>The reactor as a transition system\<close>

inductive reactor ::
  "('v, 'w, 'l, 'j, 'q) runtime \<Rightarrow> ('v, 'w, 'l, 'j, 'q) worker \<Rightarrow> ('v, 'w, 'l, 'j, 'q) worker \<Rightarrow> bool"
  for E where
  Tick: "length today = 35 \<Longrightarrow> reactor E s (tick nano now today s)"
| Flush: "flush E s = Inr s' \<Longrightarrow> reactor E s s'"
| Sync: "reactor E s (sync_queues E s)"
| Enter: "enter_kernel E s = Inr s' \<Longrightarrow> reactor E s s'"
| Count: "reactor E s (s\<lparr>hz_now := hz_now s + 1\<rparr>)"
| Take: "cq_next (rt_ring E) (the_ring s) = Some (c, q) \<Longrightarrow>
    process_entry E c (s\<lparr>the_ring := q\<rparr>) = Inr s' \<Longrightarrow> reactor E s s'"
| Idle: "idle_release E s = Inr s' \<Longrightarrow> reactor E s s'"
| Kernel_Ring: "sq_log (rt_ring E) q = log_of E s \<Longrightarrow> reactor E s (s\<lparr>the_ring := q\<rparr>)"
| Kernel_Write: "length b = BUFFER_SIZE \<Longrightarrow> reactor E s (s\<lparr>buffers := (buffers s)[i := b]\<rparr>)"

inductive_cases reactorE: "reactor E s s'"

text \<open>A server before \<open>sq_poll\<close>: no clients, nothing released, all arrays in place.\<close>

definition fresh :: "('v, 'w, 'l, 'j, 'q) runtime \<Rightarrow> ('v, 'w, 'l, 'j, 'q) worker \<Rightarrow> bool" where
  "fresh E s \<longleftrightarrow> sizes_ok E s \<and> (\<forall>i. lake_of E s i = None) \<and> sv_next (rt_fds E) (client_fds s) = 0 \<and>
     released_buffers s = [] \<and> kernel_buf s = None"

inductive reachable :: "('v, 'w, 'l, 'j, 'q) runtime \<Rightarrow> ('v, 'w, 'l, 'j, 'q) worker \<Rightarrow> bool" for E where
  Start: "fresh E s \<Longrightarrow> sq_poll_setup E f s = Inr s' \<Longrightarrow> reachable E s'"
| Step: "reachable E s \<Longrightarrow> reactor E s s' \<Longrightarrow> reachable E s'"

subsection \<open>Setting up\<close>

context lawful_runtime
begin

lemma reserve_frame:
  "\<exists>v. reserve_writes_buffer E n s = s\<lparr>client_fds := v\<rparr> \<and>
     sv_next (rt_fds E) v = sv_next (rt_fds E) (client_fds s) + n \<and>
     sv_get (rt_fds E) v = (\<lambda>i. if sv_next (rt_fds E) (client_fds s) \<le> i \<and>
       i < sv_next (rt_fds E) (client_fds s) + n then Some 0xFFFF else fd_of E s i)"
proof (induction n arbitrary: s)
  case 0
  then show ?case by (intro exI [of _ "client_fds s"]) (auto simp: fun_eq_iff)
next
  case (Suc n)
  let ?s = "s\<lparr>client_fds := fst (sv_push (rt_fds E) (client_fds s) 0xFFFF)\<rparr>"
  obtain v where "reserve_writes_buffer E n ?s = ?s\<lparr>client_fds := v\<rparr>"
    "sv_next (rt_fds E) v = sv_next (rt_fds E) (client_fds ?s) + n"
    "sv_get (rt_fds E) v = (\<lambda>i. if sv_next (rt_fds E) (client_fds ?s) \<le> i \<and>
       i < sv_next (rt_fds E) (client_fds ?s) + n then Some 0xFFFF else fd_of E ?s i)"
    using Suc.IH [of ?s] by blast
  then show ?case
    by (intro exI [of _ v]) (auto simp: fds.push_next fds.push_get fun_eq_iff)
qed

lemma push_times_log:
  "push_times E e n q = Inr q' \<Longrightarrow> sq_log (rt_ring E) q' = sq_log (rt_ring E) q @ replicate n e"
  by (induction n arbitrary: q)
     (auto simp: obind_eq_Inr_iff or_fault_eq_Inr replicate_append_same
       simp flip: replicate_Suc dest!: ring.push_Some(1))

lemma setup_Inr:
  assumes "sq_poll_setup E f s = Inr s'"
  shows "\<exists>v q. s' = s\<lparr>client_fds := v, the_ring := q, syscalls := syscalls s @ attach_reuseport_cbpf f,
      synced := 0\<rparr> \<and>
    sv_next (rt_fds E) v = sv_next (rt_fds E) (client_fds s) + 100 \<and>
    sv_get (rt_fds E) v = (\<lambda>i. if sv_next (rt_fds E) (client_fds s) \<le> i \<and>
       i < sv_next (rt_fds E) (client_fds s) + 100 then Some 0xFFFF else fd_of E s i)"
proof -
  from assms obtain x where x: "register_buffers E s = Inr x"
    unfolding sq_poll_setup_def obind_eq_Inr_iff by blast
  then obtain q0 where q0: "x = s\<lparr>the_ring := q0\<rparr>"
    using register_buffers_Inr [OF ring.ring_axioms x] by blast
  obtain q1 q2 where s': "s' = (reserve_writes_buffer E 100
      (s\<lparr>syscalls := syscalls s @ attach_reuseport_cbpf f, the_ring := q1\<rparr>))\<lparr>the_ring := q2, synced := 0\<rparr>"
    using assms x unfolding q0
    by (auto simp: sq_poll_setup_def obind_eq_Inr_iff Let_def case_prod_beta)
  let ?s = "s\<lparr>syscalls := syscalls s @ attach_reuseport_cbpf f, the_ring := q1\<rparr>"
  from reserve_frame [of 100 ?s] obtain v where "reserve_writes_buffer E 100 ?s = ?s\<lparr>client_fds := v\<rparr>"
    "sv_next (rt_fds E) v = sv_next (rt_fds E) (client_fds s) + 100"
    "sv_get (rt_fds E) v = (\<lambda>i. if sv_next (rt_fds E) (client_fds s) \<le> i \<and>
       i < sv_next (rt_fds E) (client_fds s) + 100 then Some 0xFFFF else fd_of E s i)"
    by (auto cong: if_cong)
  then show ?thesis unfolding s' by (intro exI [of _ v] exI [of _ q2]) simp
qed

lemma setup_ok:
  assumes "fresh E s" "sq_poll_setup E f s = Inr s'"
  shows "worker_ok E s'"
  using assms(1) setup_Inr [OF assms(2)]
  by (auto simp: fresh_def worker_ok_defs RESERVED_def release_threshold_eq)

lemma setup_log:
  assumes "sq_poll_setup E f s = Inr s'"
  shows "log_of E s' = log_of E s @ map entry_of_buffer [0..<BUFFERS_COUNT] @
    replicate DEFAULT_ACCEPT_MULTIPLICATOR (accept_multi f)"
proof -
  from assms obtain x where x: "register_buffers E s = Inr x"
    unfolding sq_poll_setup_def obind_eq_Inr_iff by blast
  obtain q1 q2 where q: "push_times E (accept_multi f) DEFAULT_ACCEPT_MULTIPLICATOR (the_ring x) = Inr q1"
    "the_ring s' = snd (rg_register_files (rt_ring E) q2 (replicate 1024 (- 1)))"
    "q2 = the_ring (reserve_writes_buffer E 100 (x\<lparr>syscalls := syscalls x @ attach_reuseport_cbpf f,
      the_ring := snd (rg_submit (rt_ring E) q1)\<rparr>))"
    using assms x by (auto simp: sq_poll_setup_def obind_eq_Inr_iff Let_def case_prod_beta)
  have "q2 = snd (rg_submit (rt_ring E) q1)"
    using reserve_frame [of 100 "x\<lparr>syscalls := syscalls x @ attach_reuseport_cbpf f,
      the_ring := snd (rg_submit (rt_ring E) q1)\<rparr>"] q(3) by auto
  then show ?thesis
    using q(2) push_times_log [OF q(1)] register_buffers_Inr [OF ring.ring_axioms x]
    by (simp add: ring.register_log ring.submit_log)
qed

lemma drain_steps: "drain E s = Some (Inr s') \<Longrightarrow> (reactor E)\<^sup>*\<^sup>* s s'"
proof (induction "seen E s" arbitrary: s)
  case 0
  then have "cq_next (rt_ring E) (the_ring s) = None" by (simp add: ring.next_none seen_def)
  from drain_step(1) [OF this] show ?case using 0 by simp
next
  case (Suc n)
  then obtain c q where c: "cq_next (rt_ring E) (the_ring s) = Some (c, q)"
    using ring.next_none [of "the_ring s"] by (cases "cq_next (rt_ring E) (the_ring s)") (auto simp: seen_def)
  obtain s1 where s1: "process_entry E c (s\<lparr>the_ring := q\<rparr>) = Inr s1"
    using drain_step(2) [OF c] Suc.prems by (cases "process_entry E c (s\<lparr>the_ring := q\<rparr>)") auto
  have "n = seen E (s1\<lparr>hz_now := hz_now s1 + 1\<rparr>)"
    using process_entry_seen [OF s1] ring.next_some [OF c] Suc.hyps(2) by (simp add: seen_def)
  from Suc.hyps(1) [OF this] Suc.prems have "(reactor E)\<^sup>*\<^sup>* (s1\<lparr>hz_now := hz_now s1 + 1\<rparr>) s'"
    unfolding drain_step(3) [OF c s1] .
  then show ?case using Take [OF c s1] Count [of E s1] by (meson converse_rtranclp_into_rtranclp)
qed

subsection \<open>The invariant\<close>

lemma tick_ok: "worker_ok E s \<Longrightarrow> length today = 35 \<Longrightarrow> worker_ok E (tick nano now today s)"
  by (simp add: tick_def worker_ok_defs Let_def)

lemma flush_ok: "worker_ok E s \<Longrightarrow> flush E s = Inr s' \<Longrightarrow> worker_ok E s'"
  using wideband_ok [of s s'] by (simp add: flush_def split: if_split_asm)

lemma sync_queues_ok: "worker_ok E s \<Longrightarrow> worker_ok E (sync_queues E s)"
  by (simp add: sync_queues_def Let_def worker_ok_defs)

lemma enter_kernel_ok:
  assumes "worker_ok E s" "enter_kernel E s = Inr s'"
  shows "worker_ok E s'"
proof -
  obtain q b where "s' = s\<lparr>the_ring := q, io_send_busy := b\<rparr> \<or> s' = s\<lparr>the_ring := q\<rparr> \<or> s' = s"
    using assms(2)
    by (auto simp: enter_kernel_def obind_eq_Inr_iff case_prod_beta Let_def split: if_split_asm)
  then show ?thesis using assms(1) by (auto simp: worker_ok_defs)
qed

lemma idle_release_ok: "worker_ok E s \<Longrightarrow> idle_release E s = Inr s' \<Longrightarrow> worker_ok E s'"
  using release_buffers_ok [OF ring.ring_axioms, of s s'] by (simp add: idle_release_def split: if_split_asm)

lemma kernel_write_ok:
  assumes "worker_ok E s" "length b = BUFFER_SIZE"
  shows "worker_ok E (s\<lparr>buffers := (buffers s)[i := b]\<rparr>)"
  using assms by (auto simp: worker_ok_defs dest!: set_update_subset_insert [THEN subsetD])

lemmas stage_ok = tick_ok flush_ok sync_queues_ok enter_kernel_ok idle_release_ok kernel_write_ok
  worker_ok_updates process_entry_ok

lemma reactor_ok: "reactor E s s' \<Longrightarrow> worker_ok E s \<Longrightarrow> worker_ok E s'"
  by (erule reactorE) (auto intro: stage_ok)

lemma reachable_ok: "reachable E s \<Longrightarrow> worker_ok E s"
  by (induction rule: reachable.induct) (auto intro: setup_ok reactor_ok)

subsection \<open>Passes as runs\<close>

lemma turn_Inr:
  assumes "turn E nano now today s = Some (Inr s')"
  obtains s1 s2 s3 where "flush E (tick nano now today s) = Inr s1"
    "enter_kernel E (sync_queues E s1) = Inr s2"
    "drain E (s2\<lparr>hz_now := hz_now s2 + 1\<rparr>) = Some (Inr s3)" "idle_release E s3 = Inr s'"
  using assms by (auto simp: turn_def obind_eq_Inr_iff split: sum.splits option.splits)

lemma pass_steps:
  assumes "enter_kernel E (sync_queues E s1) = Inr s2"
    "drain E (s2\<lparr>hz_now := hz_now s2 + 1\<rparr>) = Some (Inr s3)" "idle_release E s3 = Inr s'"
  shows "(reactor E)\<^sup>*\<^sup>* s1 s'"
proof -
  let ?s2 = "s2\<lparr>hz_now := hz_now s2 + 1\<rparr>"
  note step = converse_rtranclp_into_rtranclp [where r = "reactor E"]
  have "(reactor E)\<^sup>*\<^sup>* ?s2 s3" by (rule drain_steps [OF assms(2)])
  then have "(reactor E)\<^sup>*\<^sup>* ?s2 s'" by (rule rtranclp.rtrancl_into_rtrancl) (rule Idle [OF assms(3)])
  then have "(reactor E)\<^sup>*\<^sup>* (sync_queues E s1) s'" by (rule step [OF Enter [OF assms(1)] step [OF Count]])
  then show ?thesis by (rule step [OF Sync])
qed

lemma turn_steps:
  assumes "turn E nano now today s = Some (Inr s')" "length today = 35"
  shows "(reactor E)\<^sup>*\<^sup>* s s'"
proof -
  obtain s1 s2 s3 where s: "flush E (tick nano now today s) = Inr s1"
    "enter_kernel E (sync_queues E s1) = Inr s2"
    "drain E (s2\<lparr>hz_now := hz_now s2 + 1\<rparr>) = Some (Inr s3)" "idle_release E s3 = Inr s'"
    by (rule turn_Inr [OF assms(1)])
  note step = converse_rtranclp_into_rtranclp [where r = "reactor E"]
  from pass_steps [OF s(2-4)] show ?thesis
    by (rule step [OF Tick [OF assms(2)] step [OF Flush [OF s(1)]]])
qed

lemma run_ok: "(reactor E)\<^sup>*\<^sup>* s s' \<Longrightarrow> worker_ok E s \<Longrightarrow> worker_ok E s'"
  by (induction rule: rtranclp_induct) (auto intro: reactor_ok)

end

text \<open>
  C6: every state that a worker can reach, from any fresh server, through any interleaving of the
  stages of its loop with the kernel consuming submissions, posting arbitrary completions and
  overwriting receive buffers, satisfies the worker invariant: the buffers and caches keep their
  sizes, every output lake belongs to a client with a descriptor, has its full capacity and a
  number above the reserved ones, and fewer than 682 buffers, all of them valid, are waiting.
\<close>

theorem reachable_invariant:
  assumes "runtime_laws E" "reachable E s"
  shows "worker_ok E s"
  by (rule lawful_runtime.reachable_ok [OF lawful_runtime.intro [OF assms(1)] assms(2)])

text \<open>A worker on a ring of 4096 entries before and after its set-up.\<close>

definition sample_fresh where
  "sample_fresh = sample_worker \<lparr>cells = [], spare = 0\<rparr> \<lparr>cells = [], spare = 65535\<rparr> (sample_ring 4096)"

lemma sample_fresh: "fresh reference_runtime sample_fresh"
  by (simp add: fresh_def sizes_ok_def sample_fresh_def sample_simps)

lemma queue_push_times:
  "queued q + n \<le> room q \<Longrightarrow> push_times reference_runtime e n q =
     Inr (q\<lparr>pushed := pushed q @ replicate n e, queued := queued q + n\<rparr>)"
  by (induction n arbitrary: q)
     (simp_all add: reference_runtime_def queue_def queue_push_def replicate_append_same)

lemma registered_on_queue:
  assumes "length (buffers s) = BUFFERS_COUNT" "the_ring s = sample_ring 4096"
  shows "register_buffers reference_runtime s = Inr (s\<lparr>the_ring := (sample_ring 4096)
    \<lparr>pushed := map entry_of_buffer [0..<BUFFERS_COUNT], queued := BUFFERS_COUNT, taken := BUFFERS_COUNT\<rparr>\<rparr>)"
proof -
  have "buffer_entries (buffers s) [0..<BUFFERS_COUNT] = Inr (map entry_of_buffer [0..<BUFFERS_COUNT])"
    using assms(1) by (intro buffer_entries_in) simp
  moreover have "BUFFERS_COUNT \<le> 4096" by (simp add: BUFFERS_COUNT_def)
  ultimately show ?thesis
    by (simp add: register_buffers_def push_until_ok_def push_retry_eq reference_runtime_def queue_def
        queue_push_def assms(2) sample_ring_def Let_def)
qed

lemma setup_on_queue:
  assumes "length (buffers s) = BUFFERS_COUNT" "the_ring s = sample_ring 4096"
  shows "\<exists>s'. sq_poll_setup reference_runtime f s = Inr s'"
proof -
  have "BUFFERS_COUNT + DEFAULT_ACCEPT_MULTIPLICATOR \<le> 4096"
    by (simp add: BUFFERS_COUNT_def DEFAULT_ACCEPT_MULTIPLICATOR_def)
  then show ?thesis
    by (simp add: sq_poll_setup_def registered_on_queue [OF assms] queue_push_times Let_def sample_ring_def)
       (simp add: reference_runtime_def queue_def)
qed

lemma sample_setup: "\<exists>s'. sq_poll_setup reference_runtime 3 sample_fresh = Inr s'"
  by (rule setup_on_queue) (simp_all add: sample_fresh_def)



theorem reachable_invariant_witness:
  "\<exists>s. reachable reference_runtime s \<and> worker_ok reference_runtime s"
proof -
  obtain s where "sq_poll_setup reference_runtime 3 sample_fresh = Inr s" using sample_setup by blast
  from Start [OF sample_fresh this] have "reachable reference_runtime s" .
  with reachable_invariant [OF reference_runtime_laws this] show ?thesis by blast
qed

text \<open>
  C27: what a worker that has been set up looks like: the 1024 receive buffers are offered to the
  kernel and sixteen accepts queued, in this order and nothing else; the balancer is attached; the
  first hundred client numbers hold placeholders; and the invariant holds.
\<close>

theorem sq_poll_setup_establishes:
  assumes "runtime_laws E" "fresh E s" "sq_poll_setup E f s = Inr s'"
  shows "log_of E s' = log_of E s @ map entry_of_buffer [0..<BUFFERS_COUNT] @
      replicate DEFAULT_ACCEPT_MULTIPLICATOR (accept_multi f) \<and>
    syscalls s' = syscalls s @ [Sys_Call5 54 f 1 51 \<lparr>fprog_len = 2, fprog_filter = REUSEPORT_PROG\<rparr> 16] \<and>
    (\<forall>i. fd_of E s' i = (if i < 100 then Some 0xFFFF else None)) \<and>
    sv_next (rt_fds E) (client_fds s') = 100 \<and> worker_ok E s'"
proof -
  have E: "lawful_runtime E" using assms(1) by (rule lawful_runtime.intro)
  have vec: "stable_vec (rt_fds E)" using assms(1) by (simp add: runtime_laws_def)
  have none: "fd_of E s i = None" for i
    using assms(2) stable_vec.next_free [OF vec] by (simp add: fresh_def)
  show ?thesis
    using lawful_runtime.setup_log [OF E assms(3)] lawful_runtime.setup_Inr [OF E assms(3)] none
      lawful_runtime.setup_ok [OF E assms(2,3)] assms(2)
    by (auto simp: fresh_def attach_reuseport_cbpf_def Let_def REUSEPORT_PROG_def SYS_SETSOCKOPT_def
      SOL_SOCKET_def SO_ATTACH_REUSEPORT_CBPF_def SOCK_FPROG_SIZE_def)
qed

theorem sq_poll_setup_establishes_witness:
  "\<exists>s'. sq_poll_setup reference_runtime 3 sample_fresh = Inr s' \<and>
    sv_next (rt_fds reference_runtime) (client_fds s') = 100"
  using sample_setup sq_poll_setup_establishes [OF reference_runtime_laws sample_fresh] by blast




end
