(* ===== verification/Startup.thy ===== *)
theory Startup
  imports Reactor
begin

text \<open>
  From \<open>main\<close> to the reactor: \<open>Uring::new\<close> of \<open>uring/mod.rs\<close>, \<open>build_listener\<close> and
  \<open>build_uring\<close> of \<open>server_internals.rs\<close>, \<open>log_kernel_error\<close> of \<open>utils/kernel.rs\<close>, \<open>run\<close>
  of \<open>server.rs\<close> and \<open>main\<close> of \<open>main.rs\<close>. What the kernel and the crates answer is an
  argument.
\<close>

section \<open>The ring and the listener\<close>






section \<open>Running\<close>

text \<open>
  \<open>syslog\<close> reads its string argument up to a zero byte, which a Rust string need not have; the
  store to address \<open>0xDEAD\<close> is meant to end the process.
\<close>

definition log_kernel_error :: "string \<Rightarrow> string \<Rightarrow> unit outcome" where
  "log_kernel_error message code =
     obind (guard_or Undefined_Behaviour (CHR 0x00 \<in> set message)) (\<lambda>_.
     obind (guard_or Panic (CHR 0x00 \<notin> set code)) (\<lambda>_.
       Inl Undefined_Behaviour))"

text \<open>A started thread: its number, its stack size, and the core it asks for.\<close>

record spawned =
  thread_number :: nat
  stack_size :: nat
  core :: "nat outcome"

record host =
  core_ids :: "nat list option"
  spawn_error :: "nat \<Rightarrow> int option"

text \<open>The main thread parks for ever once all workers run.\<close>

fun spawn_workers :: "host \<Rightarrow> nat list \<Rightarrow> spawned list \<Rightarrow> unit outcome \<times> spawned list" where
  "spawn_workers H [] acc = (Inl Diverges, acc)"
| "spawn_workers H (t # ts) acc =
     (case core_ids H of
        None \<Rightarrow> (Inl Panic, acc)
      | Some cores \<Rightarrow>
          (case spawn_error H t of
             Some e \<Rightarrow> (Inl (Os_Error e), acc)
           | None \<Rightarrow> spawn_workers H ts
               (acc @ [\<lparr>thread_number = t, stack_size = BUFFER_SIZE * BUFFERS_COUNT * 10,
                  core = slice_get cores t\<rparr>])))"

definition run :: "host \<Rightarrow> ('v, 'w, 'l, 'j) server \<Rightarrow> unit outcome \<times> spawned list" where
  "run H s =
     (if realtime s \<and> ub_kernel_dma s
      then (obind (log_kernel_error ''realtime and ub dma is incompatible.'' ''RT_DMA_CONFLICT'')
              (\<lambda>_. Inr ()), [])
      else spawn_workers H [0..<unat (get_workers s)] [])"


section \<open>The program\<close>

definition main_server ::
  "('v, 'w, 'l, 'j, 'q) runtime \<Rightarrow> nat \<Rightarrow> int \<Rightarrow> int \<Rightarrow> string list \<Rightarrow> ('v, 'w, 'l, 'j) server" where
  "main_server E num_cpus nano_now now args =
     build (set_ub_kernel_dma (list_ex (\<lambda>arg. arg = ''--ubdma'') args)
       (set_realtime False
         (set_uring_size 4096
           (set_sqpoll_idle 0
             (set_sqpoll_enabled False
               (server_new E num_cpus nano_now now ''0.0.0.0:8080''))))))"

definition main :: "('v, 'w, 'l, 'j, 'q) runtime \<Rightarrow> host \<Rightarrow> nat \<Rightarrow> int \<Rightarrow> int \<Rightarrow> string list
    \<Rightarrow> unit outcome \<times> spawned list" where
  "main E H num_cpus nano_now now args =
     (case run H (main_server E num_cpus nano_now now args) of
        (Inl (Os_Error e), ts) \<Rightarrow> (Inl Panic, ts)
      | r \<Rightarrow> r)"


section \<open>What starts\<close>

lemma spawn_workers_ok:
  assumes "core_ids H = Some cores" "\<forall>t \<in> set ts. spawn_error H t = None"
  shows "spawn_workers H ts acc = (Inl Diverges, acc @ map (\<lambda>t. \<lparr>thread_number = t,
    stack_size = BUFFER_SIZE * BUFFERS_COUNT * 10, core = slice_get cores t\<rparr>) ts)"
  using assms by (induction ts arbitrary: acc) simp_all

text \<open>
  C39: \<open>run\<close> never returns to its caller. With both the realtime and the UBDMA flag it ends in
  the deliberate bad store; otherwise, if every thread can be started, it starts exactly the
  configured number of workers, numbered from zero, each of which pins itself to the core of its
  number or panics when the machine has no such core.
\<close>

theorem run_spawns_workers:
  assumes "core_ids H = Some cores" "\<forall>t < unat (workers s). spawn_error H t = None"
  shows "if realtime s \<and> ub_kernel_dma s then run H s = (Inl Undefined_Behaviour, [])
    else run H s = (Inl Diverges, map (\<lambda>t. \<lparr>thread_number = t, stack_size = 73400320,
      core = (if t < length cores then Inr (cores ! t) else Inl Panic)\<rparr>) [0..<unat (workers s)])"
  using assms
  by (simp add: run_def log_kernel_error_def guard_or_def get_workers_def spawn_workers_ok slice_get_def
      BUFFER_SIZE_def BUFFERS_COUNT_def)

theorem run_spawns_workers_witness:
  "run \<lparr>core_ids = Some [0], spawn_error = (\<lambda>_. None)\<rparr>
     (server_new reference_runtime 2 0 0 ''0.0.0.0:8080'') =
   (Inl Diverges, [\<lparr>thread_number = 0, stack_size = 73400320, core = Inr 0\<rparr>,
      \<lparr>thread_number = 1, stack_size = 73400320, core = Inl Panic\<rparr>])"
  using run_spawns_workers [of "\<lparr>core_ids = Some [0], spawn_error = (\<lambda>_. None)\<rparr>" "[0]"
      "server_new reference_runtime 2 0 0 ''0.0.0.0:8080''"]
  by (simp add: server_new_def upt_rec)



end
