(* ===== verification/Client_Table.thy ===== *)
theory Client_Table
  imports Reactor
begin

text \<open>
  What the worker promises its clients, and that it keeps the promise. The abstract state is a
  table of connected clients, each with its descriptor and the bytes waiting for it; the abstract
  operations are connecting, answering, flushing and closing. The worker refines it: every
  completion and every stage of the reactor loop is a sequence of these operations, and the send
  entries it submits are the flushes, in the same order.
\<close>

section \<open>The specification\<close>

record client_table =
  clients :: "nat \<rightharpoonup> fd \<times> byte list"
  next_client :: nat

text \<open>
  An answer names the date line and the requests it answers. A lake that has no room for an
  answer ends up with contents that are not specified, which the event carries.
\<close>

datatype table_event =
    Connected nat fd
  | Answered nat "byte list" "request_entry list"
  | Overflowed nat "byte list" "request_entry list" "byte list"
  | Flushed nat fd "byte list"
  | Closed nat

definition set_output :: "nat \<Rightarrow> byte list \<Rightarrow> client_table \<Rightarrow> client_table option" where
  "set_output i out t =
     map_option (\<lambda>(f, _). t\<lparr>clients := (clients t)(i \<mapsto> (f, out))\<rparr>) (clients t i)"

definition output_of :: "client_table \<Rightarrow> nat \<Rightarrow> byte list" where
  "output_of t i = (case clients t i of None \<Rightarrow> [] | Some (f, out) \<Rightarrow> out)"

fun table_step :: "table_event \<Rightarrow> client_table \<Rightarrow> client_table option" where
  "table_step (Connected i f) t =
     (if i = next_client t \<and> clients t i = None
      then Some (t\<lparr>clients := (clients t)(i \<mapsto> (f, [])), next_client := Suc i\<rparr>) else None)"
| "table_step (Answered i today rs) t =
     (if length (output_of t i) + length (replies today rs) \<le> DATA_LAKE_SIZE
      then set_output i (output_of t i @ replies today rs) t else None)"
| "table_step (Overflowed i today rs out) t =
     (if DATA_LAKE_SIZE < length (output_of t i) + length (replies today rs)
      then set_output i out t else None)"
| "table_step (Flushed i f out) t =
     (if clients t i = Some (f, out) \<and> out \<noteq> [] then set_output i [] t else None)"
| "table_step (Closed i) t =
     (if clients t i = None then None else Some (t\<lparr>clients := (clients t)(i := None)\<rparr>))"

fun table_run :: "table_event list \<Rightarrow> client_table \<Rightarrow> client_table option" where
  "table_run [] t = Some t"
| "table_run (e # es) t = Option.bind (table_step e t) (table_run es)"

lemma table_run_append: "table_run (es @ es') t = Option.bind (table_run es t) (table_run es')"
proof (induction es arbitrary: t)
  case (Cons e es)
  then show ?case by (cases "table_step e t") simp_all
qed simp

lemma table_run_one [simp]: "table_run [e] t = table_step e t"
  by (cases "table_step e t") simp_all


lemma step_Connected: "table_step (Connected i f) t = Some t' \<Longrightarrow> clients t' i = Some (f, [])"
  by (auto split: if_split_asm)

text \<open>Flushing several clients, one after the other.\<close>

lemma run_flushes:
  assumes "distinct ids" and "\<forall>i \<in> set ids. \<exists>f out. clients t i = Some (f, out) \<and> out \<noteq> []"
  shows "table_run (map (\<lambda>i. Flushed i (fst (the (clients t i))) (snd (the (clients t i)))) ids) t =
    Some (t\<lparr>clients := \<lambda>i. if i \<in> set ids then map_option (\<lambda>(f, _). (f, [])) (clients t i)
      else clients t i\<rparr>)"
  using assms
proof (induction ids arbitrary: t)
  case Nil
  then show ?case by simp
next
  case (Cons i ids)
  then obtain f out where i: "clients t i = Some (f, out)" "out \<noteq> []" "i \<notin> set ids" by auto
  let ?t = "t\<lparr>clients := (clients t)(i \<mapsto> (f, []))\<rparr>"
  have step: "table_step (Flushed i f out) t = Some ?t" using i by (simp add: set_output_def)
  have "map (\<lambda>i. Flushed i (fst (the (clients t i))) (snd (the (clients t i)))) ids =
      map (\<lambda>i. Flushed i (fst (the (clients ?t i))) (snd (the (clients ?t i)))) ids"
    using i(3) by auto
  moreover have "\<forall>j \<in> set ids. \<exists>f out. clients ?t j = Some (f, out) \<and> out \<noteq> []"
    using Cons.prems(2) i(3) by auto
  ultimately have "table_run (map (\<lambda>i. Flushed i (fst (the (clients t i))) (snd (the (clients t i)))) ids) ?t =
      Some (?t\<lparr>clients := \<lambda>j. if j \<in> set ids then map_option (\<lambda>(f, _). (f, [])) (clients ?t j)
        else clients ?t j\<rparr>)"
    using Cons.IH [of ?t] Cons.prems(1) by (simp only: distinct.simps)
  then show ?case using i step by (auto simp: fun_eq_iff)
qed

section \<open>What the specification promises\<close>

text \<open>The bytes a run answers a client with, and the bytes it sends to it.\<close>

definition answers_to :: "nat \<Rightarrow> table_event list \<Rightarrow> byte list" where
  "answers_to i es = concat (map (\<lambda>e. case e of Answered j today rs \<Rightarrow>
     if j = i then replies today rs else [] | _ \<Rightarrow> []) es)"

definition sent_to :: "nat \<Rightarrow> table_event list \<Rightarrow> byte list" where
  "sent_to i es = concat (map (\<lambda>e. case e of Flushed j f out \<Rightarrow> if j = i then out else [] | _ \<Rightarrow> []) es)"

definition overflows :: "nat \<Rightarrow> table_event list \<Rightarrow> bool" where
  "overflows i es \<longleftrightarrow> (\<exists>today rs out. Overflowed i today rs out \<in> set es)"

lemmas stream_defs = answers_to_def sent_to_def overflows_def


lemma stream_snoc [simp]:
  "answers_to i (es @ [e]) = answers_to i es @
     (case e of Answered j today rs \<Rightarrow> if j = i then replies today rs else [] | _ \<Rightarrow> [])"
  "sent_to i (es @ [e]) = sent_to i es @
     (case e of Flushed j f out \<Rightarrow> if j = i then out else [] | _ \<Rightarrow> [])"
  "overflows i (es @ [e]) \<longleftrightarrow> overflows i es \<or>
     (case e of Overflowed j today rs out \<Rightarrow> j = i | _ \<Rightarrow> False)"
  by (auto simp: stream_defs split: table_event.split)










section \<open>The refinement\<close>

text \<open>The table of a worker: the clients with a descriptor and a lake, and the next number.\<close>

fun client_entry :: "'l lake_ops \<Rightarrow> fd option \<Rightarrow> 'l option \<Rightarrow> (fd \<times> byte list) option" where
  "client_entry L (Some f) (Some l) = Some (f, lk_bytes L l)"
| "client_entry L _ _ = None"

lemma client_entry_None [simp]: "client_entry L fo None = None"
  by (cases fo) simp_all

definition table_of :: "('v, 'w, 'l, 'j, 'q) runtime \<Rightarrow> ('v, 'w, 'l, 'j, 'q) worker \<Rightarrow> client_table" where
  "table_of E s = \<lparr>clients = \<lambda>i. client_entry (rt_lake E) (fd_of E s i) (lake_of E s i),
     next_client = sv_next (rt_fds E) (client_fds s)\<rparr>"

text \<open>The send entries among a list of entries, and those of a run of the table.\<close>

definition is_send :: "sqe \<Rightarrow> bool" where
  "is_send e = (case op e of Send f a n fl \<Rightarrow> True | _ \<Rightarrow> False)"

definition sends_of :: "sqe list \<Rightarrow> sqe list" where
  "sends_of es = filter is_send es"

definition flush_entries :: "table_event list \<Rightarrow> sqe list" where
  "flush_entries es = concat (map (\<lambda>e. case e of Flushed i f out \<Rightarrow> [send_entry i f (length out)] | _ \<Rightarrow> []) es)"

lemma sends_of_simps [simp]:
  "sends_of [] = []" "sends_of (es @ es') = sends_of es @ sends_of es'"
  "is_send (send ud f a n m)" "is_send (send_entry i f n)" "\<not> is_send (provide_buffer a b k)" "\<not> is_send (accept_multi f)"
  "\<not> is_send (recv_multi f ud)" "\<not> is_send (poll_add f ud)" "\<not> is_send (entry_of_buffer i)"
  by (simp_all add: sends_of_def is_send_def send_entry_def entry_of_buffer_def sqe_defs)

lemma flush_entries_simps [simp]:
  "flush_entries [] = []" "flush_entries (es @ es') = flush_entries es @ flush_entries es'"
  "flush_entries (Flushed i f out # es) = send_entry i f (length out) # flush_entries es"
  "flush_entries (Connected i f # es) = flush_entries es"
  "flush_entries (Answered i today rs # es) = flush_entries es"
  "flush_entries (Overflowed i today rs out # es) = flush_entries es"
  "flush_entries (Closed i # es) = flush_entries es"
  by (simp_all add: flush_entries_def)

lemma sends_flush_entries [simp]: "sends_of (flush_entries es) = flush_entries es"
proof (induction es)
  case (Cons e es)
  then show ?case by (cases e) (simp_all add: sends_of_def)
qed simp

definition refines ::
  "('v, 'w, 'l, 'j, 'q) runtime \<Rightarrow> table_event list \<Rightarrow> ('v, 'w, 'l, 'j, 'q) worker
     \<Rightarrow> ('v, 'w, 'l, 'j, 'q) worker \<Rightarrow> bool" where
  "refines E evs s s' \<longleftrightarrow> table_run evs (table_of E s) = Some (table_of E s') \<and>
     (\<exists>es. log_of E s' = log_of E s @ es \<and> sends_of es = flush_entries evs)"

lemma refines_silent:
  assumes "client_fds s' = client_fds s" "client_out_buffers s' = client_out_buffers s"
    "log_of E s' = log_of E s @ es" "sends_of es = []"
  shows "refines E [] s s'"
  using assms by (simp add: refines_def table_of_def)

lemma refines_same:
  assumes "client_fds s' = client_fds s" "client_out_buffers s' = client_out_buffers s"
    "log_of E s' = log_of E s"
  shows "refines E [] s s'"
  by (rule refines_silent [OF assms(1,2), of E "[]"]) (simp_all add: assms(3))

lemma refines_trans:
  assumes "refines E evs s s'" "refines E evs' s' s''"
  shows "refines E (evs @ evs') s s''"
  using assms by (auto simp: refines_def table_run_append)

lemma refines_one:
  assumes "table_step e (table_of E s) = Some (table_of E s')" "log_of E s' = log_of E s @ es"
    "sends_of es = flush_entries [e]"
  shows "refines E [e] s s'"
  using assms by (auto simp: refines_def)

lemma table_of_lake:
  assumes "lake_of E s i = Some l" "fd_of E s i = Some f"
  shows "clients (table_of E s) i = Some (f, lk_bytes (rt_lake E) l)"
    "output_of (table_of E s) i = lk_bytes (rt_lake E) l"
  using assms by (simp_all add: table_of_def output_of_def)

text \<open>Replacing one lake.\<close>

lemma table_of_set:
  assumes "lake_of E s i = Some l" "fd_of E s i = Some f" "lake_of E s' = (lake_of E s)(i \<mapsto> l')"
    "client_fds s' = client_fds s"
  shows "set_output i (lk_bytes (rt_lake E) l') (table_of E s) = Some (table_of E s')"
  using assms by (auto simp: set_output_def table_of_def fun_eq_iff)

text \<open>The events of an answer to a receive and of a poll.\<close>

definition answer_event ::
  "('v, 'w, 'l, 'j, 'q) runtime \<Rightarrow> nat \<Rightarrow> request_entry list \<Rightarrow> ('v, 'w, 'l, 'j, 'q) worker
     \<Rightarrow> ('v, 'w, 'l, 'j, 'q) worker \<Rightarrow> table_event" where
  "answer_event E cid rs s s' =
     (if length (output_of (table_of E s) cid) + length (replies (date s) rs) \<le> DATA_LAKE_SIZE
      then Answered cid (date s) rs
      else Overflowed cid (date s) rs (output_of (table_of E s') cid))"

definition poll_events ::
  "('v, 'w, 'l, 'j, 'q) runtime \<Rightarrow> nat \<Rightarrow> ('v, 'w, 'l, 'j, 'q) worker \<Rightarrow> table_event list" where
  "poll_events E cid s =
     (case kernel_buf s of
        None \<Rightarrow> []
      | Some i \<Rightarrow> if length (scanned (glimpsed s i)) \<le> 5 \<or> lake_of E s cid = None \<or>
            has_output E (client_out_buffers s) cid
          then [] else [Answered cid (date s) (scanned (glimpsed s i))])"

definition flush_events ::
  "('v, 'w, 'l, 'j, 'q) runtime \<Rightarrow> ('v, 'w, 'l, 'j, 'q) worker \<Rightarrow> table_event list" where
  "flush_events E s = map (\<lambda>i. Flushed i (fst (the (clients (table_of E s) i)))
     (snd (the (clients (table_of E s) i)))) (pending E s)"

text \<open>The events of a completion.\<close>

definition entry_events ::
  "('v, 'w, 'l, 'j, 'q) runtime \<Rightarrow> cqe \<Rightarrow> ('v, 'w, 'l, 'j, 'q) worker \<Rightarrow> ('v, 'w, 'l, 'j, 'q) worker
     \<Rightarrow> table_event list" where
  "entry_events E c s s' =
     (let user = unpack_user_data (cqe_user_data c); cid = unat (client_id user); r = cqe_result c;
          is_poll = (uniq_id user = POLL_EVENT \<and> ub_kernel_dma s) in
      if cqe_user_data c = CODE_ACCEPT
      then (if 0 < r then [Connected (next_client (table_of E s)) r] else [])
      else if cqe_user_data c < REQ_RESP_OFFSET then []
      else if r = 0 \<and> uniq_id user \<noteq> SEND_EVENT \<or> r = - ECONNRESET
      then (if lake_of E s cid = None then [] else [Closed cid])
      else if 0 \<le> r \<and> is_poll then poll_events E cid s
      else if r \<le> 0 \<or> uniq_id user = SEND_EVENT \<or> int BUFFER_SIZE < r then []
      else [answer_event E cid (scanned (received s (buffer_of (cqe_flags c)) r)) s s'])"

context lawful_runtime
begin

subsection \<open>Accepting and closing\<close>

lemma accept_log:
  assumes "process_entry_accept E r s = Inr s'"
  shows "\<exists>es. log_of E s' = log_of E s @ es \<and> (\<forall>e \<in> set es. (\<exists>f ud. e = poll_add f ud \<or> e = recv_multi f ud))"
proof (cases "0 < r")
  case False
  then show ?thesis using assms accept_refused [of r s] by simp
next
  case True
  let ?n = "snd (sv_push (rt_fds E) (client_fds s) r)"
  obtain w where w: "sv_insert (rt_outs E) (client_out_buffers s) ?n (lk_build (rt_lake E) DATA_LAKE_SIZE) = Some w"
    using assms True
    by (cases "sv_insert (rt_outs E) (client_out_buffers s) ?n (lk_build (rt_lake E) DATA_LAKE_SIZE)")
       (simp_all add: process_entry_accept_def case_prod_beta Let_def)
  show ?thesis
    using assms [symmetric] True w
    by (auto simp: process_entry_accept_def case_prod_beta Let_def push_or_drop_log ring.sync_log
        split: if_split_asm)
qed

lemma accept_refines:
  assumes "worker_ok E s" "process_entry_accept E r s = Inr s'"
  shows "refines E (if 0 < r then [Connected (next_client (table_of E s)) r] else []) s s'"
proof (cases "0 < r")
  case False
  then show ?thesis using assms(2) accept_refused [of r s] by (simp add: refines_same)
next
  case True
  let ?n = "sv_next (rt_fds E) (client_fds s)"
  have room: "?n < sv_capacity (rt_outs E) (client_out_buffers s)"
    using accept_full [OF True, of s] assms(2) by force
  from accept_in [OF True this] assms(2) have acc: "accepted E r s s'" by auto
  have "fd_of E s ?n = None" by (simp add: fds.next_free)
  then have "clients (table_of E s) ?n = None"
    by (simp add: table_of_def split: option.split)
  then have "table_step (Connected ?n r) (table_of E s) = Some (table_of E s')"
    using acc by (auto simp: accepted_def Let_def table_of_def fun_eq_iff lakes.build_bytes)
  moreover obtain es where "log_of E s' = log_of E s @ es"
    "\<forall>e \<in> set es. (\<exists>f ud. e = poll_add f ud \<or> e = recv_multi f ud)"
    using accept_log [OF assms(2)] by blast
  moreover from this(2) have "sends_of es = []" by (auto simp: sends_of_def filter_empty_conv)
  ultimately show ?thesis using True by (auto simp: table_of_def intro: refines_one)
qed

lemma close_refines:
  assumes "worker_ok E s" "close_connection E cid True s = Inr s'"
  shows "refines E (if lake_of E s cid = None then [] else [Closed cid]) s s'"
proof -
  from close_forced [OF close_forced_Inr [OF assms(2)]] assms(2)
  obtain v w l where s': "s' = s\<lparr>client_fds := v, client_out_buffers := w, syscalls := l\<rparr>"
    "sv_get (rt_fds E) v = (fd_of E s)(cid := None)"
    "sv_get (rt_outs E) w = (lake_of E s)(cid := None)"
    "sv_next (rt_fds E) v = sv_next (rt_fds E) (client_fds s)" by auto
  show ?thesis
  proof (cases "lake_of E s cid")
    case None
    then have "table_of E s' = table_of E s"
      using s' by (auto simp: table_of_def fun_eq_iff split: option.split)
    then show ?thesis using s' None by (auto simp: refines_def)
  next
    case (Some k)
    then obtain f where "fd_of E s cid = Some f"
      using assms(1) by (auto simp: worker_ok_def clients_ok_def)
    then have "table_step (Closed cid) (table_of E s) = Some (table_of E s')"
      using s' Some by (auto simp: table_of_def fun_eq_iff split: option.split)
    then show ?thesis using s' Some by (auto intro: refines_one [where es = "[]"])
  qed
qed

lemma release_refines:
  assumes "release_buffers E s = Inr s'"
  shows "refines E [] s s'"
proof -
  note r = release_buffers_Inr [OF ring.ring_axioms assms]
  show ?thesis
    by (rule refines_silent [OF _ _ r(1)]) (subst r(2), simp, subst r(2), simp, simp add: sends_of_def)
qed

subsection \<open>Answering\<close>

lemma answer_refines:
  assumes "worker_ok E s" "lake_of E s cid = Some l"
    and "lk_write (rt_lake E) l (replies (date s) rs) = Inr l'"
    and "lake_of E s' = (lake_of E s)(cid \<mapsto> l')" "client_fds s' = client_fds s" "log_of E s' = log_of E s"
  shows "refines E [answer_event E cid rs s s'] s s'"
proof -
  from assms(1,2) obtain f where f: "fd_of E s cid = Some f" "lk_capacity (rt_lake E) l = DATA_LAKE_SIZE"
    by (auto simp: worker_ok_def clients_ok_def)
  note table = table_of_lake [OF assms(2) f(1)]
  have out: "output_of (table_of E s') cid = lk_bytes (rt_lake E) l'"
    using table_of_lake(2) [of E s' cid l' f] assms(4,5) f(1) by simp
  have "table_step (answer_event E cid rs s s') (table_of E s) = Some (table_of E s')"
    using table_of_set [OF assms(2) f(1) assms(4,5)] lakes.write_in [of l "replies (date s) rs"] assms(3) f(2)
    by (auto simp: answer_event_def table(2) out)
  then show ?thesis using assms(6)
    by (intro refines_one [where es = "[]"]) (simp_all add: answer_event_def)
qed

lemma request_reply_refines:
  assumes "worker_ok E s" "request_reply E flags user result s = Inr s'" "result \<le> int BUFFER_SIZE"
  shows "refines E [answer_event E (unat (client_id user))
    (scanned (take (usize_of result) (buffers s ! unat (buffer_of flags)))) s s'] s s'"
proof -
  let ?rs = "scanned (take (usize_of result) (buffers s ! unat (buffer_of flags)))"
  let ?cid = "unat (client_id user)"
  have sizes: "sizes_ok E s" using assms(1) by (simp add: worker_ok_def)
  obtain l l' s1 where l: "lake_of E s ?cid = Some l"
    and wr: "lk_write (rt_lake E) l (replies (date s) ?rs) = Inr l'"
    and s1: "replied E (length ?rs) (s\<lparr>kernel_buf := Some (unat (buffer_of flags))\<rparr>) s1"
    and s': "(if Suc (length (released_buffers s)) = release_threshold
        then release_buffers E (reply_state E (buffer_of flags) ?cid (usize_of result) l' s1)
        else Inr (reply_state E (buffer_of flags) ?cid (usize_of result) l' s1)) = Inr s'"
    unfolding buffer_of_def by (rule request_reply_Inr [OF sizes assms(2,3)])
  let ?s2 = "reply_state E (buffer_of flags) ?cid (usize_of result) l' s1"
  note frame = replied_frame [OF s1]
  have s2: "refines E [answer_event E ?cid ?rs s ?s2] s ?s2"
    using outs.set_get [OF l, of l'] frame
    by (intro answer_refines [OF assms(1) l wr]) (simp_all add: reply_state_def)
  have rest: "refines E [] ?s2 s'"
  proof (cases "Suc (length (released_buffers s)) = release_threshold")
    case True
    then show ?thesis using s' release_refines [of ?s2 s'] by simp
  next
    case False
    then show ?thesis using s' by (simp add: refines_same)
  qed
  then have "table_of E ?s2 = table_of E s'" by (simp add: refines_def)
  then have "answer_event E ?cid ?rs s ?s2 = answer_event E ?cid ?rs s s'"
    by (simp only: answer_event_def)
  then show ?thesis using refines_trans [OF s2 rest] by simp
qed

lemma ubdma_refines:
  assumes "worker_ok E s" "ubdma E user s = Inr s'"
  shows "refines E (poll_events E (unat (client_id user)) s) s s'"
proof (cases "kernel_buf s")
  case None
  then show ?thesis using assms by (simp add: ubdma_def poll_events_def refines_same)
next
  case (Some i)
  let ?cid = "unat (client_id user)" and ?rs = "scanned (glimpsed s i)"
  note skips = ubdma_skips [OF assms(1) Some, of user]
  have safe: "scan_safe (glimpsed s i)" using skips(1) assms(2) by force
  show ?thesis
  proof (cases "length ?rs \<le> 5 \<or> lake_of E s ?cid = None \<or> has_output E (client_out_buffers s) ?cid")
    case True
    then show ?thesis using skips(2) [OF safe] assms(2) Some by (simp add: refines_same poll_events_def)
  next
    case False
    then obtain l where l: "lake_of E s ?cid = Some l" "lk_bytes (rt_lake E) l = []" "5 < length ?rs"
      by (auto simp: has_output_def)
    from assms(1) l(1) obtain f where f: "fd_of E s ?cid = Some f" by (auto simp: worker_ok_def clients_ok_def)
    from ubdma_writes [OF assms(1) Some safe l(3,1,2)] assms(2) obtain s1 l' where
      s': "s' = s1\<lparr>client_out_buffers := sv_set (rt_outs E) (client_out_buffers s1) ?cid l', sync_now := True\<rparr>"
      and s1: "replied E (length ?rs) s s1" and l': "lk_bytes (rt_lake E) l' = replies (date s) ?rs" by auto
    note frame = replied_frame [OF s1]
    have today: "length (date s) = 35" using assms(1) by (simp add: worker_ok_defs)
    have "length (replies (date s) ?rs) \<le> DATA_LAKE_SIZE"
      using length_replies_le [OF today, of ?rs] length_scanned [of "glimpsed s i"]
      by (simp add: DATA_LAKE_SIZE_def BUFFER_SIZE_def)
    moreover have "set_output ?cid (replies (date s) ?rs) (table_of E s) = Some (table_of E s')"
      using table_of_set [OF l(1) f, of s' l'] outs.set_get [OF l(1), of l'] frame l' s' by simp
    ultimately have "table_step (Answered ?cid (date s) ?rs) (table_of E s) = Some (table_of E s')"
      using table_of_lake(2) [OF l(1) f] l(2) by simp
    then have "refines E [Answered ?cid (date s) ?rs] s s'"
      by (rule refines_one [where es = "[]"]) (simp_all add: s' frame)
    then show ?thesis using False Some by (auto simp: poll_events_def)
  qed
qed

subsection \<open>Flushing\<close>

lemma wideband_Inr:
  assumes "clients_ok E s" "wideband_send E s = Inr s'"
  shows "lake_of E s' = map_option (drained (rt_lake E)) \<circ> lake_of E s" "client_fds s' = client_fds s"
    "log_of E s' = log_of E s @ map (output_entry E (client_fds s) (client_out_buffers s)) (pending E s)"
proof -
  have none: "lake_of E s = Map.empty \<and> pending E s = []" if "sv_indices (rt_outs E) (client_out_buffers s) = []"
    using that outs.indices_set [of "client_out_buffers s"] by (auto simp: pending_def)
  from wideband_send_eq [OF assms(1)] obtain w' where
    eq: "wideband_send E s =
      (if sv_indices (rt_outs E) (client_out_buffers s) = [] then Inr s
       else if pending E s = [] then Inr (s\<lparr>last_sync_time := nano_clock s,
         client_out_buffers := w', sync_now := True\<rparr>)
       else case sq_push_multiple (rt_ring E) (the_ring s)
           (map (output_entry E (client_fds s) (client_out_buffers s)) (pending E s)) of
         None \<Rightarrow> Inl Panic
       | Some q \<Rightarrow> Inr (s\<lparr>last_sync_time := nano_clock s, client_out_buffers := w',
           the_ring := q, io_send_busy := True, sync_now := True\<rparr>))"
    and w': "sv_get (rt_outs E) w' = map_option (drained (rt_lake E)) \<circ> lake_of E s" by blast
  note cases = assms(2) [unfolded eq, symmetric]
  show "client_fds s' = client_fds s"
    using cases by (simp split: if_split_asm option.split_asm)
  show "lake_of E s' = map_option (drained (rt_lake E)) \<circ> lake_of E s"
    using cases w' none by (simp split: if_split_asm option.split_asm)
  show "log_of E s' = log_of E s @ map (output_entry E (client_fds s) (client_out_buffers s)) (pending E s)"
    using cases none by (auto dest: ring.push_multiple_Some(2) split: if_split_asm option.split_asm)
qed

lemma wideband_returns:
  assumes "clients_ok E s"
    and "sq_len (rt_ring E) (the_ring s) + length (pending E s) \<le> sq_capacity (rt_ring E) (the_ring s)"
  shows "\<exists>s'. wideband_send E s = Inr s'"
  using wideband_send_eq [OF assms(1)] assms(2)
    ring.push_multiple_None [of "the_ring s" "map (output_entry E (client_fds s) (client_out_buffers s)) (pending E s)"]
  by (auto split: option.splits)

text \<open>One more client with output.\<close>

lemma pending_insert:
  assumes "lake_of E s' = (lake_of E s)(i \<mapsto> l')"
  shows "length (pending E s') \<le> Suc (length (pending E s))"
    "lk_bytes (rt_lake E) l' \<noteq> [] \<Longrightarrow> i \<in> set (pending E s')"
proof -
  have set_pending: "set (pending E s) = {j. has_output E (client_out_buffers s) j}" for s :: "('v, 'w, 'l, 'j, 'q) worker"
    by (auto simp: pending_def outs.indices_set has_output_def split: option.splits)
  have "distinct (pending E s)" for s :: "('v, 'w, 'l, 'j, 'q) worker"
    by (simp add: pending_def outs.indices_distinct)
  note len = distinct_card [OF this, symmetric]
  have "set (pending E s') \<subseteq> insert i (set (pending E s))"
    using assms by (auto simp: set_pending has_output_def split: if_split_asm)
  then show "length (pending E s') \<le> Suc (length (pending E s))"
    unfolding len using card_mono [of "insert i (set (pending E s))" "set (pending E s')"]
    by (simp add: card_insert_if split: if_split_asm)
  show "lk_bytes (rt_lake E) l' \<noteq> [] \<Longrightarrow> i \<in> set (pending E s')"
    using assms by (simp add: set_pending has_output_def)
qed

lemma wideband_refines:
  assumes "worker_ok E s" "wideband_send E s = Inr s'"
  shows "refines E (flush_events E s) s s'"
proof -
  have ok: "clients_ok E s" using assms(1) by (simp add: worker_ok_def)
  note r = wideband_Inr [OF ok assms(2)]
  have ids: "distinct (pending E s)" by (simp add: pending_def outs.indices_distinct)
  have some: "\<exists>f l. fd_of E s i = Some f \<and> lake_of E s i = Some l \<and> lk_bytes (rt_lake E) l \<noteq> []"
    if "i \<in> set (pending E s)" for i
    using that ok by (fastforce simp: pending_def has_output_def clients_ok_def split: option.splits)
  then have full: "\<forall>i \<in> set (pending E s). \<exists>f out. clients (table_of E s) i = Some (f, out) \<and> out \<noteq> []"
    using table_of_lake(1) by fastforce
  have idle: "client_entry (rt_lake E) (fd_of E s i) (map_option (drained (rt_lake E)) (lake_of E s i)) =
      (if i \<in> set (pending E s) then map_option (\<lambda>(f, _). (f, [])) (clients (table_of E s) i)
       else clients (table_of E s) i)" for i
    by (cases "lake_of E s i"; cases "fd_of E s i")
       (auto simp: pending_def outs.indices_set has_output_def drained_bytes table_of_def)
  have "table_run (flush_events E s) (table_of E s) = Some (table_of E s')"
    unfolding flush_events_def run_flushes [OF ids full] using r(1,2) idle
    by (simp add: table_of_def cong: if_cong)
  moreover have "map (output_entry E (client_fds s) (client_out_buffers s)) (pending E s) =
      flush_entries (flush_events E s)"
    using some by (fastforce simp: flush_entries_def flush_events_def output_entry_def comp_def
        table_of_def concat_map_singleton intro!: map_cong)
  ultimately show ?thesis using r(3) by (auto simp: refines_def)
qed

subsection \<open>Completions\<close>

lemma receive_refines:
  assumes "worker_ok E s" "request_reply E flags user r s = Inr s'" "0 < r"
  shows "refines E (if int BUFFER_SIZE < r then [] else
    [answer_event E (unat (client_id user)) (scanned (received s (buffer_of flags) r)) s s']) s s'"
proof (cases "int BUFFER_SIZE < r")
  case True
  then show ?thesis using assms(2) request_reply_too_long [OF True] by (simp add: refines_same)
next
  case False
  then have "usize_of r = nat r" using assms(3) by (simp add: usize_of_nonneg BUFFER_SIZE_def)
  then show ?thesis
    using request_reply_refines [OF assms(1,2)] False by (simp add: received_def)
qed

lemma process_entry_refines:
  assumes "worker_ok E s" "process_entry E c s = Inr s'"
  shows "refines E (entry_events E c s s') s s'"
proof -
  let ?ud = "cqe_user_data c" and ?r = "cqe_result c"
  let ?user = "unpack_user_data ?ud"
  have codes: "CODE_ACCEPT < REQ_RESP_OFFSET" "BUFFER_REGISTER_CODE < REQ_RESP_OFFSET" "CODE_ACCEPT \<noteq> BUFFER_REGISTER_CODE"
    by (simp_all add: CODE_ACCEPT_def BUFFER_REGISTER_CODE_def REQ_RESP_OFFSET_eq)
  consider (accept) "?ud = CODE_ACCEPT" | (other) "?ud \<noteq> CODE_ACCEPT" "?ud < REQ_RESP_OFFSET"
    | (tagged) "?ud \<noteq> CODE_ACCEPT" "REQ_RESP_OFFSET \<le> ?ud" by fastforce
  then show ?thesis
  proof cases
    case accept
    then show ?thesis
      using assms codes accept_refines [OF assms(1), of ?r s'] by (simp add: process_entry_def entry_events_def Let_def)
  next
    case other
    then have "s' = s" using assms(2) by (auto simp: process_entry_def Let_def split: if_split_asm)
    then show ?thesis using other by (simp add: entry_events_def refines_same)
  next
    case tagged
    then have r: "process_entry_response E ?ud ?r (cqe_flags c) s = Inr s'"
      using assms(2) codes by (auto simp: process_entry_def Let_def split: if_split_asm)
    note parts = release_refines [of s s'] close_refines [OF assms(1), of "unat (client_id ?user)" s']
      ubdma_refines [OF assms(1), of ?user s'] receive_refines [OF assms(1), of "cqe_flags c" ?user ?r s']
    have same: "refines E [] s s" by (simp add: refines_same)
    define closing where "closing \<longleftrightarrow> ?r = 0 \<and> uniq_id ?user \<noteq> SEND_EVENT \<or> ?r = - ECONNRESET"
    define polling where "polling \<longleftrightarrow> uniq_id ?user = POLL_EVENT \<and> ub_kernel_dma s"
    have evs: "entry_events E c s s' =
      (if closing
       then (if lake_of E s (unat (client_id ?user)) = None then [] else [Closed (unat (client_id ?user))])
       else if ?r < 0 then []
       else if polling then poll_events E (unat (client_id ?user)) s
       else if uniq_id ?user = SEND_EVENT then []
       else if int BUFFER_SIZE < ?r then []
       else [answer_event E (unat (client_id ?user)) (scanned (received s (buffer_of (cqe_flags c)) ?r)) s s'])"
      using tagged by (auto simp: entry_events_def Let_def closing_def polling_def)
    have "\<not> closing \<Longrightarrow> \<not> ?r < 0 \<Longrightarrow> uniq_id ?user \<noteq> SEND_EVENT \<Longrightarrow> 0 < ?r"
      by (auto simp: closing_def)
    with r parts same show ?thesis
      unfolding evs process_entry_response_eq Let_def closing_def [symmetric] polling_def [symmetric]
      by (auto split: if_split_asm)
  qed
qed

subsection \<open>The reactor\<close>

lemma enter_kernel_refines:
  assumes "enter_kernel E s = Inr s'"
  shows "refines E [] s s'"
proof -
  have "client_fds s' = client_fds s \<and> client_out_buffers s' = client_out_buffers s \<and> log_of E s' = log_of E s"
    using assms
    by (auto simp: enter_kernel_def obind_eq_Inr_iff case_prod_beta Let_def ring.wait_log ring.submit_log
        split: if_split_asm)
  then show ?thesis by (simp add: refines_same)
qed

lemma reactor_refines:
  assumes "reactor E s s'" "worker_ok E s"
  shows "\<exists>evs. refines E evs s s'"
  using assms(1)
proof cases
  case (Flush)
  then show ?thesis
    using wideband_refines [OF assms(2), of s'] refines_same [of s s E]
    by (auto simp: flush_def split: if_split_asm)
next
  case (Take c q)
  let ?s = "s\<lparr>the_ring := q\<rparr>"
  have "refines E [] s ?s" using ring.next_some [OF Take(1)] by (intro refines_same) simp_all
  from refines_trans [OF this process_entry_refines [OF worker_ok_updates(1) [OF assms(2)] Take(2)]]
  show ?thesis by blast
next
  case Idle
  then show ?thesis
    using release_refines [of s s'] refines_same [of s s E]
    by (auto simp: idle_release_def split: if_split_asm)
next
  case Enter
  then show ?thesis using enter_kernel_refines by blast
qed (auto simp: tick_def sync_queues_def Let_def ring.sync_log ring.cq_sync_log intro!: exI [of _ "[]"] refines_same)

lemma run_refines:
  assumes "(reactor E)\<^sup>*\<^sup>* s s'" "worker_ok E s"
  shows "\<exists>evs. refines E evs s s'"
  using assms
proof (induction rule: converse_rtranclp_induct)
  case base
  then show ?case using refines_same [of s' s' E] by auto
next
  case (step s s1)
  then show ?case
    using reactor_refines [OF step.hyps(1)] reactor_ok [OF step.hyps(1)] refines_trans by blast
qed

lemma setup_table:
  assumes "fresh E s" "sq_poll_setup E f s = Inr s'"
  shows "table_of E s' = \<lparr>clients = Map.empty, next_client = 100\<rparr>"
    "sends_of (log_of E s') = sends_of (log_of E s)"
  using setup_Inr [OF assms(2)] setup_log [OF assms(2)] assms(1)
  by (auto simp: table_of_def fresh_def sends_of_def)

end

text \<open>
  C8: the worker refines the table of clients. Whatever completion it processes, and whatever it
  does with it, its table afterwards is the one that the specification gives for the event that
  the completion stands for: a new client for an accept, the answers to the scanned requests for
  a receive or a poll, the end of the client for an empty receive or a reset, and nothing for
  everything else.
\<close>

theorem process_entry_refines_table:
  assumes "runtime_laws E" "worker_ok E s" "process_entry E c s = Inr s'"
  shows "table_run (entry_events E c s s') (table_of E s) = Some (table_of E s')"
  using lawful_runtime.process_entry_refines [OF lawful_runtime.intro [OF assms(1)] assms(2,3)]
  by (simp add: refines_def)

theorem process_entry_refines_table_witness:
  "\<exists>s'. process_entry reference_runtime (completion (accept_multi 3) 12 0) sample_reader = Inr s' \<and>
    clients (table_of reference_runtime s') 101 = Some (12, [])"
proof -
  let ?c = "completion (accept_multi 3) 12 0"
  have "sv_next (rt_fds reference_runtime) (client_fds sample_reader) = 101"
    "sv_capacity (rt_outs reference_runtime) (client_out_buffers sample_reader) = 109"
    by (simp_all add: sample_reader_def sample_simps)
  moreover from this obtain s' where s': "process_entry_accept reference_runtime 12 sample_reader = Inr s'"
    using reference.accept_in [of 12 sample_reader] by auto
  moreover have "process_entry reference_runtime ?c sample_reader = Inr s'"
    using s' by (simp add: process_entry_def completion_def BUFFER_REGISTER_CODE_def CODE_ACCEPT_def)
  moreover have "next_client (table_of reference_runtime sample_reader) = 101"
    using calculation(1) by (simp add: table_of_def)
  ultimately have "table_step (Connected 101 12) (table_of reference_runtime sample_reader) =
      Some (table_of reference_runtime s')"
    using process_entry_refines_table [OF reference_runtime_laws sample_reader_ok, of ?c s']
    by (simp add: entry_events_def completion_def Let_def del: table_step.simps table_run.simps(2))
  from step_Connected [OF this] \<open>process_entry reference_runtime ?c sample_reader = Inr s'\<close>
  show ?thesis by blast
qed



section \<open>Output is sent in the next pass\<close>

context lawful_runtime
begin

lemma turn_seen:
  assumes "turn E nano now today s = Some (Inr s')"
  shows "seen E s' = 0"
proof -
  obtain s1 s2 s3 where "flush E (tick nano now today s) = Inr s1"
    "enter_kernel E (sync_queues E s1) = Inr s2"
    and s3: "drain E (s2\<lparr>hz_now := hz_now s2 + 1\<rparr>) = Some (Inr s3)" "idle_release E s3 = Inr s'"
    by (rule turn_Inr [OF assms])
  have "seen E s3 = 0" using drain_outcome [of "s2\<lparr>hz_now := hz_now s2 + 1\<rparr>"] s3(1) by auto
  then show ?thesis using s3(2) release_seen [of s3 s'] by (auto simp: idle_release_def split: if_split_asm)
qed

lemma turn_flushes:
  assumes "turn E nano now today s = Some (Inr s')" "worker_ok E s" "seen E s = 0" "length today = 35"
  shows "\<exists>es. log_of E s' = log_of E s @
    map (output_entry E (client_fds s) (client_out_buffers s)) (pending E s) @ es"
proof -
  let ?t = "tick nano now today s"
  obtain s1 s2 s3 where s: "flush E ?t = Inr s1" "enter_kernel E (sync_queues E s1) = Inr s2"
    "drain E (s2\<lparr>hz_now := hz_now s2 + 1\<rparr>) = Some (Inr s3)" "idle_release E s3 = Inr s'"
    by (rule turn_Inr [OF assms(1)])
  have same: "client_fds ?t = client_fds s" "client_out_buffers ?t = client_out_buffers s" "the_ring ?t = the_ring s"
    by (simp_all add: tick_def Let_def)
  have "cq_is_empty (rt_ring E) (the_ring ?t)"
    using assms(3) same(3) by (simp add: ring.empty_len seen_def)
  then have sent: "wideband_send E ?t = Inr s1" using s(1) by (simp add: flush_def)
  have t_ok: "worker_ok E ?t" using tick_ok [OF assms(2,4)] .
  then have "clients_ok E ?t" by (simp add: worker_ok_def)
  from wideband_Inr(3) [OF this sent] have log: "log_of E s1 = log_of E s @
      map (output_entry E (client_fds s) (client_out_buffers s)) (pending E s)"
    by (simp add: same pending_def)
  have s1_ok: "worker_ok E s1" using wideband_ok [OF t_ok sent] .
  from run_refines [OF pass_steps [OF s(2-4)] s1_ok] log show ?thesis by (auto simp: refines_def)
qed

end






end
