(* ===== verification/Ownership.thy ===== *)
theory Ownership
  imports Client_Table "HOL-Library.Multiset"
begin

text \<open>
  Who owns the 1024 receive buffers. A buffer belongs to the kernel from the moment its provide
  entry is pushed; the kernel delivers it with a receive completion; the worker consumes the
  completion and keeps the buffer among the released ones until it provides it again. The kernel
  is only assumed to deliver buffers that it owns, each with one completion, filled with no more
  bytes than fit.
\<close>

section \<open>Provide entries\<close>

definition provided :: "sqe \<Rightarrow> nat list" where
  "provided e = (case op e of ProvideBuffers a len n g bid \<Rightarrow> [unat bid] | _ \<Rightarrow> [])"

definition provided_in :: "sqe list \<Rightarrow> nat multiset" where
  "provided_in es = mset (concat (map provided es))"

lemma provided_simps [simp]:
  "provided (send ud f a n m) = []" "provided (send_entry i f n) = []" "provided (accept_multi f) = []"
  "provided (recv_multi f ud) = []" "provided (poll_add f ud) = []" "provided (output_entry E v w i) = []"
  by (simp_all add: provided_def send_entry_def output_entry_def sqe_defs)

lemma provided_in_simps [simp]:
  "provided_in [] = {#}" "provided_in (es @ es') = provided_in es + provided_in es'"
  "provided_in (e # es) = mset (provided e) + provided_in es"
  "provided_in (replicate n (accept_multi f)) = {#}"
  "provided_in (map (output_entry E v w) is) = {#}"
  by (simp_all add: provided_in_def comp_def)

lemma provided_entry_of_buffer: "i < 2 ^ 16 \<Longrightarrow> provided (entry_of_buffer i) = [i]"
  by (simp add: provided_def entry_of_buffer_def sqe_defs unat_of_nat)

lemma provided_in_entries:
  "\<forall>i \<in> set is. i < 2 ^ 16 \<Longrightarrow> provided_in (map entry_of_buffer is) = mset is"
  by (induction "is") (simp_all add: provided_entry_of_buffer)

section \<open>The system\<close>

text \<open>Whether a completion hands a buffer to the worker.\<close>

definition delivers :: "('v, 'w, 'l, 'j, 'q) worker \<Rightarrow> cqe \<Rightarrow> bool" where
  "delivers s c \<longleftrightarrow>
     (let user = unpack_user_data (cqe_user_data c) in
      REQ_RESP_OFFSET \<le> cqe_user_data c \<and> 0 < cqe_result c \<and> uniq_id user \<noteq> SEND_EVENT \<and>
      \<not> (uniq_id user = POLL_EVENT \<and> ub_kernel_dma s))"

text \<open>The stages of the loop that process no completion, and the steps of the kernel.\<close>

inductive stage ::
  "('v, 'w, 'l, 'j, 'q) runtime \<Rightarrow> ('v, 'w, 'l, 'j, 'q) worker \<Rightarrow> ('v, 'w, 'l, 'j, 'q) worker \<Rightarrow> bool"
  for E where
  Tick: "length today = 35 \<Longrightarrow> stage E s (tick nano now today s)"
| Flush: "flush E s = Inr s' \<Longrightarrow> stage E s s'"
| Sync: "stage E s (sync_queues E s)"
| Enter: "enter_kernel E s = Inr s' \<Longrightarrow> stage E s s'"
| Count: "stage E s (s\<lparr>hz_now := hz_now s + 1\<rparr>)"
| Idle: "idle_release E s = Inr s' \<Longrightarrow> stage E s s'"
| Kernel_Ring: "sq_log (rt_ring E) q = log_of E s \<Longrightarrow> stage E s (s\<lparr>the_ring := q\<rparr>)"
| Kernel_Write: "length b = BUFFER_SIZE \<Longrightarrow> stage E s (s\<lparr>buffers := (buffers s)[i := b]\<rparr>)"

lemma stage_reactor: "stage E s s' \<Longrightarrow> reactor E s s'"
  by (erule stage.cases) (auto intro: reactor.intros)

text \<open>
  A worker together with the buffers the kernel owns and the buffers that completions not yet
  processed carry. \<open>es\<close> is what the step pushed.
\<close>

inductive owned ::
  "('v, 'w, 'l, 'j, 'q) runtime \<Rightarrow> ('v, 'w, 'l, 'j, 'q) worker \<Rightarrow> nat multiset \<Rightarrow> nat multiset \<Rightarrow> bool"
  for E where
  Setup: "fresh E s0 \<Longrightarrow> sq_poll_setup E f s0 = Inr s \<Longrightarrow> log_of E s = log_of E s0 @ es \<Longrightarrow>
    owned E s (provided_in es) {#}"
| Deliver: "owned E s (add_mset b theirs) carried \<Longrightarrow> owned E s theirs (add_mset b carried)"
| Stage: "owned E s theirs carried \<Longrightarrow> stage E s s' \<Longrightarrow> log_of E s' = log_of E s @ es \<Longrightarrow>
    owned E s' (theirs + provided_in es) carried"
| Receive: "owned E s theirs (add_mset (unat (buffer_of (cqe_flags c))) carried) \<Longrightarrow>
    cq_next (rt_ring E) (the_ring s) = Some (c, q) \<Longrightarrow> delivers s c \<Longrightarrow> cqe_result c \<le> int BUFFER_SIZE \<Longrightarrow>
    process_entry E c (s\<lparr>the_ring := q\<rparr>) = Inr s' \<Longrightarrow> log_of E s' = log_of E s @ es \<Longrightarrow>
    owned E s' (theirs + provided_in es) carried"
| Other: "owned E s theirs carried \<Longrightarrow>
    cq_next (rt_ring E) (the_ring s) = Some (c, q) \<Longrightarrow> \<not> delivers s c \<Longrightarrow>
    process_entry E c (s\<lparr>the_ring := q\<rparr>) = Inr s' \<Longrightarrow> log_of E s' = log_of E s @ es \<Longrightarrow>
    owned E s' (theirs + provided_in es) carried"

section \<open>Every operation balances\<close>

definition waiting :: "('v, 'w, 'l, 'j, 'q) worker \<Rightarrow> nat multiset" where
  "waiting s = image_mset unat (mset (released_buffers s))"

text \<open>A step that consumes the buffers \<open>taken\<close>: they are waiting afterwards or provided again.\<close>

definition balances ::
  "('v, 'w, 'l, 'j, 'q) runtime \<Rightarrow> nat multiset \<Rightarrow> ('v, 'w, 'l, 'j, 'q) worker
     \<Rightarrow> ('v, 'w, 'l, 'j, 'q) worker \<Rightarrow> bool" where
  "balances E got s s' \<longleftrightarrow>
     (\<exists>es. log_of E s' = log_of E s @ es \<and> provided_in es + waiting s' = waiting s + got)"

lemma balances_same:
  "released_buffers s' = released_buffers s \<Longrightarrow> log_of E s' = log_of E s \<Longrightarrow> balances E {#} s s'"
  by (simp add: balances_def waiting_def)

lemma balances_silent:
  "released_buffers s' = released_buffers s \<Longrightarrow> log_of E s' = log_of E s @ es \<Longrightarrow> provided_in es = {#} \<Longrightarrow>
    balances E {#} s s'"
  by (simp add: balances_def waiting_def)

lemma balances_trans:
  assumes "balances E a s s'" "balances E b s' s''"
  shows "balances E (a + b) s s''"
proof -
  obtain es es' where logs: "log_of E s' = log_of E s @ es" "log_of E s'' = log_of E s' @ es'"
    and sums: "provided_in es + waiting s' = waiting s + a" "provided_in es' + waiting s'' = waiting s' + b"
    using assms by (auto simp: balances_def)
  have "provided_in (es @ es') + waiting s'' = provided_in es + (provided_in es' + waiting s'')"
    by (simp add: add.assoc)
  also have "\<dots> = waiting s + (a + b)"
    unfolding sums(2) by (simp only: add.assoc [symmetric] sums(1))
  finally show ?thesis using logs by (auto simp: balances_def)
qed

context lawful_runtime
begin

lemma release_balances:
  assumes "release_buffers E s = Inr s'"
  shows "balances E {#} s s'"
proof -
  note r = release_buffers_Inr [OF ring.ring_axioms assms]
  have "unat b < 2 ^ 16" for b :: u16 using unsigned_less [of b, where ?'a = nat] by simp
  then have "\<forall>i \<in> set (map unat (released_buffers s)). i < 2 ^ 16" by auto
  from provided_in_entries [OF this] have "provided_in (map (entry_of_buffer \<circ> unat) (released_buffers s)) = waiting s"
    by (simp add: waiting_def)
  moreover have "released_buffers s' = []" by (subst r(2)) simp
  ultimately show ?thesis using r(1) by (auto simp: balances_def waiting_def)
qed

lemma wideband_released: "wideband_send E s = Inr s' \<Longrightarrow> released_buffers s' = released_buffers s"
  by (auto simp: wideband_send_def Let_def case_prod_beta obind_eq_Inr_iff split: if_split_asm)

lemma accept_balances:
  assumes "process_entry_accept E r s = Inr s'"
  shows "balances E {#} s s'"
proof -
  obtain es where es: "log_of E s' = log_of E s @ es"
    "\<forall>e \<in> set es. (\<exists>f ud. e = poll_add f ud \<or> e = recv_multi f ud)"
    using accept_log [OF assms] by blast
  from es(2) have "provided_in es = {#}" by (induction es) auto
  moreover have "released_buffers s' = released_buffers s"
  proof (cases "0 < r")
    case False
    then show ?thesis using assms accept_refused [of r s] by simp
  next
    case True
    then have "sv_next (rt_fds E) (client_fds s) < sv_capacity (rt_outs E) (client_out_buffers s)"
      using accept_full [OF True, of s] assms by force
    from accept_in [OF True this] assms obtain v w q l where
      "s' = s\<lparr>client_fds := v, client_out_buffers := w, the_ring := q, sync_now := True, syscalls := l\<rparr>"
      by (auto simp: accepted_def Let_def)
    then show ?thesis by simp
  qed
  ultimately show ?thesis using es(1) by (intro balances_silent)
qed

lemma close_balances:
  assumes "close_connection E cid True s = Inr s'"
  shows "balances E {#} s s'"
  using close_forced [OF close_forced_Inr [OF assms]] assms by (auto intro: balances_same)

lemma ubdma_balances:
  assumes "worker_ok E s" "ubdma E user s = Inr s'"
  shows "balances E {#} s s'"
proof -
  have "released_buffers s' = released_buffers s \<and> the_ring s' = the_ring s"
  proof (cases "kernel_buf s")
    case None
    then show ?thesis using assms by (simp add: ubdma_def)
  next
    case (Some i)
    note skips = ubdma_skips [OF assms(1) Some, of user]
    have safe: "scan_safe (glimpsed s i)" using skips(1) assms(2) by force
    show ?thesis
    proof (cases "length (scanned (glimpsed s i)) \<le> 5 \<or>
        lake_of E s (unat (client_id user)) = None \<or> has_output E (client_out_buffers s) (unat (client_id user))")
      case True
      then show ?thesis using skips(2) [OF safe] assms by simp
    next
      case False
      then obtain l where l: "lake_of E s (unat (client_id user)) = Some l" "lk_bytes (rt_lake E) l = []"
        "5 < length (scanned (glimpsed s i))" by (auto simp: has_output_def)
      from ubdma_writes [OF assms(1) Some safe l(3,1,2)] assms(2) show ?thesis
        by (auto dest: replied_frame)
    qed
  qed
  then show ?thesis by (simp add: balances_same)
qed

lemma receive_balances:
  assumes "worker_ok E s" "request_reply E flags user result s = Inr s'" "result \<le> int BUFFER_SIZE"
  shows "balances E {#unat (buffer_of flags)#} s s'"
proof -
  let ?rs = "scanned (take (usize_of result) (buffers s ! unat (buffer_of flags)))"
  have sizes: "sizes_ok E s" using assms(1) by (simp add: worker_ok_def)
  obtain l' s1 where s1: "replied E (length ?rs) (s\<lparr>kernel_buf := Some (unat (buffer_of flags))\<rparr>) s1"
    and s': "(if Suc (length (released_buffers s)) = release_threshold
        then release_buffers E (reply_state E (buffer_of flags) (unat (client_id user)) (usize_of result) l' s1)
        else Inr (reply_state E (buffer_of flags) (unat (client_id user)) (usize_of result) l' s1)) = Inr s'"
    unfolding buffer_of_def by (rule request_reply_Inr [OF sizes assms(2,3)])
  let ?s2 = "reply_state E (buffer_of flags) (unat (client_id user)) (usize_of result) l' s1"
  note frame = replied_frame [OF s1]
  have "balances E {#unat (buffer_of flags)#} s ?s2"
    using frame by (simp add: balances_def waiting_def reply_state_def)
  moreover have "balances E {#} ?s2 s'"
    using s' release_balances [of ?s2 s'] balances_same [of s' ?s2 E] by (auto split: if_split_asm)
  ultimately show ?thesis using balances_trans by fastforce
qed

lemma process_entry_balances:
  assumes "worker_ok E s" "process_entry E c s = Inr s'" "delivers s c \<Longrightarrow> cqe_result c \<le> int BUFFER_SIZE"
  shows "balances E (if delivers s c then {#unat (buffer_of (cqe_flags c))#} else {#}) s s'"
proof (cases "REQ_RESP_OFFSET \<le> cqe_user_data c")
  case False
  then have "s' = s \<or> process_entry_accept E (cqe_result c) s = Inr s'"
    using assms(2) by (auto simp: process_entry_def Let_def split: if_split_asm)
  then show ?thesis
    using accept_balances balances_same [of s s E] False by (auto simp: delivers_def Let_def)
next
  case True
  let ?user = "unpack_user_data (cqe_user_data c)"
  have r: "process_entry_response E (cqe_user_data c) (cqe_result c) (cqe_flags c) s = Inr s'"
    using assms(2) True
    by (auto simp: process_entry_def Let_def CODE_ACCEPT_def BUFFER_REGISTER_CODE_def REQ_RESP_OFFSET_eq
        split: if_split_asm)
  note parts = release_balances [of s s'] close_balances [of "unat (client_id ?user)" s s']
    ubdma_balances [OF assms(1), of ?user s'] balances_same [of s s E]
    receive_balances [OF assms(1), of "cqe_flags c" ?user "cqe_result c" s']
  define closing where "closing \<longleftrightarrow> cqe_result c = 0 \<and> uniq_id ?user \<noteq> SEND_EVENT \<or> cqe_result c = - ECONNRESET"
  define polling where "polling \<longleftrightarrow> uniq_id ?user = POLL_EVENT \<and> ub_kernel_dma s"
  have "delivers s c \<longleftrightarrow> \<not> closing \<and> \<not> cqe_result c < 0 \<and> \<not> polling \<and> uniq_id ?user \<noteq> SEND_EVENT"
    using True by (auto simp: delivers_def Let_def closing_def polling_def ECONNRESET_def)
  with r parts assms(3) show ?thesis
    unfolding process_entry_response_eq Let_def closing_def [symmetric] polling_def [symmetric]
    by (auto split: if_split_asm)
qed

lemma stage_balances:
  assumes "stage E s s'" "worker_ok E s"
  shows "balances E {#} s s'"
  using assms(1)
proof cases
  case Flush
  have "clients_ok E s" using assms(2) by (simp add: worker_ok_def)
  note w = wideband_Inr [OF this, of s']
  show ?thesis
  proof (cases "cq_is_empty (rt_ring E) (the_ring s)")
    case True
    then have sent: "wideband_send E s = Inr s'" using Flush by (simp add: flush_def)
    moreover have "released_buffers s' = released_buffers s" by (rule wideband_released [OF sent])
    ultimately show ?thesis using w(3) by (auto intro: balances_silent)
  next
    case False
    then show ?thesis using Flush by (simp add: flush_def balances_same)
  qed
next
  case Enter
  then have "released_buffers s' = released_buffers s \<and> log_of E s' = log_of E s"
    by (auto simp: enter_kernel_def obind_eq_Inr_iff case_prod_beta Let_def ring.wait_log ring.submit_log
        split: if_split_asm)
  then show ?thesis by (simp add: balances_same)
next
  case Idle
  then show ?thesis
    using release_balances [of s s'] balances_same [of s s E]
    by (auto simp: idle_release_def split: if_split_asm)
qed (auto simp: tick_def sync_queues_def Let_def ring.sync_log ring.cq_sync_log intro!: balances_same)

section \<open>No buffer is lost or provided twice\<close>

lemma owned_ok: "owned E s theirs carried \<Longrightarrow> worker_ok E s"
  by (induction rule: owned.induct)
     (auto intro: setup_ok reactor_ok stage_reactor process_entry_ok worker_ok_updates)

lemma balancesD:
  "balances E got s s' \<Longrightarrow> log_of E s' = log_of E s @ es \<Longrightarrow> provided_in es + waiting s' = waiting s + got"
  by (auto simp: balances_def)

lemma taken_balances:
  assumes "worker_ok E s" "cq_next (rt_ring E) (the_ring s) = Some (c, q)"
    "process_entry E c (s\<lparr>the_ring := q\<rparr>) = Inr s'" "delivers s c \<Longrightarrow> cqe_result c \<le> int BUFFER_SIZE"
  shows "balances E (if delivers s c then {#unat (buffer_of (cqe_flags c))#} else {#}) s s'"
proof -
  have same: "delivers (s\<lparr>the_ring := q\<rparr>) c = delivers s c" by (simp add: delivers_def)
  from process_entry_balances [OF worker_ok_updates(1) [OF assms(1)] assms(3)] assms(4)
  have "balances E (if delivers s c then {#unat (buffer_of (cqe_flags c))#} else {#}) (s\<lparr>the_ring := q\<rparr>) s'"
    unfolding same by blast
  then show ?thesis using ring.next_some [OF assms(2)] by (simp add: balances_def waiting_def)
qed

lemma owned_sum:
  "owned E s theirs carried \<Longrightarrow> theirs + carried + waiting s = mset [0..<BUFFERS_COUNT]"
proof (induction rule: owned.induct)
  case (Setup s0 f s es)
  have "es = map entry_of_buffer [0..<BUFFERS_COUNT] @ replicate DEFAULT_ACCEPT_MULTIPLICATOR (accept_multi f)"
    using setup_log [OF Setup(2)] Setup(3) by simp
  moreover have "provided_in (map entry_of_buffer [0..<BUFFERS_COUNT]) = mset [0..<BUFFERS_COUNT]"
    by (rule provided_in_entries) (simp add: BUFFERS_COUNT_def)
  moreover have "waiting s = {#}"
    using setup_Inr [OF Setup(2)] Setup(1) by (auto simp: fresh_def waiting_def)
  ultimately show ?case by simp
next
  case (Deliver s b theirs carried)
  then show ?case by simp
next
  case (Stage s theirs carried s' es)
  from balancesD [OF stage_balances [OF Stage(2) owned_ok [OF Stage(1)]] Stage(3)] Stage.IH
  show ?case by (simp add: ac_simps)
next
  case (Receive s theirs c carried q s' es)
  from balancesD [OF taken_balances [OF owned_ok [OF Receive(1)] Receive(2,5)] Receive(6)] Receive(3,4) Receive.IH
  have "provided_in es + waiting s' = add_mset (unat (buffer_of (cqe_flags c))) (waiting s)" by simp
  with Receive.IH show ?case by (simp add: ac_simps)
next
  case (Other s theirs carried c q s' es)
  from balancesD [OF taken_balances [OF owned_ok [OF Other(1)] Other(2,4)] Other(5)] Other(3) Other.IH
  show ?case by (simp add: ac_simps)
qed

end

text \<open>
  C7: no receive buffer is lost and none is given away twice. In every state of a worker, for
  any interleaving with a kernel that delivers only buffers it owns, every one of the 1024
  buffers is in exactly one of three places: with the kernel, in a completion that is still to be
  processed, or among the released ones, which are therefore distinct.
\<close>

theorem buffers_conserved:
  assumes "runtime_laws E" "owned E s theirs carried"
  shows "theirs + carried + waiting s = mset [0..<BUFFERS_COUNT] \<and> distinct (released_buffers s)"
proof
  show sum: "theirs + carried + waiting s = mset [0..<BUFFERS_COUNT]"
    using lawful_runtime.owned_sum [OF lawful_runtime.intro [OF assms(1)] assms(2)] .
  obtain ks cs where "mset ks = theirs" "mset cs = carried" using ex_mset by blast
  with sum have "mset (ks @ cs @ map unat (released_buffers s)) = mset [0..<BUFFERS_COUNT]"
    by (simp add: waiting_def add.assoc)
  from mset_eq_imp_distinct_iff [OF this] show "distinct (released_buffers s)"
    by (simp add: distinct_map)
qed

theorem buffers_conserved_witness:
  "\<exists>s theirs. owned reference_runtime s theirs {#} \<and> theirs + waiting s = mset [0..<BUFFERS_COUNT]"
proof -
  obtain s where s: "sq_poll_setup reference_runtime 3 sample_fresh = Inr s" using sample_setup by blast
  from owned.Setup [OF sample_fresh s reference.setup_log [OF s]] obtain theirs where
    "owned reference_runtime s theirs {#}" by blast
  with buffers_conserved [OF reference_runtime_laws this] show ?thesis by auto
qed

end
