(* ===== verification/Packets.thy ===== *)
theory Packets
  imports Prelude
begin

text \<open>
  The packet parser of \<open>src/src/library/network/tsocket.rs\<close>: \<open>parse_ipv4_tcp_packets\<close> walks
  a buffer of Ethernet frames and returns the addresses, ports and payload of every TCP packet.
  Every index it uses is checked by Rust, so an index out of range would panic.
\<close>

section \<open>The parser\<close>

type_synonym ipv4 = "byte \<times> byte \<times> byte \<times> byte"

record parsed_packet =
  src_ip :: ipv4
  dst_ip :: ipv4
  src_port :: u16
  dst_port :: u16
  payload :: "byte list"

definition from_be_bytes :: "byte \<Rightarrow> byte \<Rightarrow> u16" where
  "from_be_bytes hi lo = push_bit 8 (ucast hi) OR ucast lo"

definition be16_at :: "byte list \<Rightarrow> nat \<Rightarrow> u16 outcome" where
  "be16_at buf i =
     obind (slice_get buf i) (\<lambda>hi. obind (slice_get buf (i + 1)) (\<lambda>lo. Inr (from_be_bytes hi lo)))"

definition ipv4_at :: "byte list \<Rightarrow> nat \<Rightarrow> ipv4 outcome" where
  "ipv4_at buf i =
     obind (slice_get buf i) (\<lambda>a. obind (slice_get buf (i + 1)) (\<lambda>b.
     obind (slice_get buf (i + 2)) (\<lambda>c. obind (slice_get buf (i + 3)) (\<lambda>d. Inr (a, b, c, d)))))"

function parse_packets_loop ::
  "byte list \<Rightarrow> nat \<Rightarrow> parsed_packet list \<Rightarrow> parsed_packet list outcome" where
  "parse_packets_loop buffer offset packets =
     (if offset + 14 + 20 \<le> length buffer
      then obind (be16_at buffer (offset + 12)) (\<lambda>ethertype.
        if ethertype \<noteq> 0x0800 then parse_packets_loop buffer (offset + 64) packets
        else
          let ip_start = offset + 14 in
          if ip_start + 20 > length buffer then Inr packets
          else obind (slice_get buffer ip_start) (\<lambda>b.
            let ihl = unat (b AND 0x0F); ip_header_len = ihl * 4 in
            obind (be16_at buffer (ip_start + 2)) (\<lambda>tl.
            let total_len = unat tl in
            if ip_start + total_len > length buffer then Inr packets
            else obind (slice_get buffer (ip_start + 9)) (\<lambda>protocol.
              if protocol \<noteq> 6 then parse_packets_loop buffer (offset + (14 + total_len)) packets
              else
                obind (ipv4_at buffer (ip_start + 12)) (\<lambda>src.
                obind (ipv4_at buffer (ip_start + 16)) (\<lambda>dst.
                let tcp_start = ip_start + ip_header_len in
                if tcp_start + 20 > length buffer then Inr packets
                else
                  obind (be16_at buffer tcp_start) (\<lambda>sport.
                  obind (be16_at buffer (tcp_start + 2)) (\<lambda>dport.
                  obind (slice_get buffer (tcp_start + 12)) (\<lambda>b.
                  let data_offset = unat (drop_bit 4 b * 4);
                      payload_start = tcp_start + data_offset in
                  if payload_start > length buffer then Inr packets
                  else
                    let payload_end = ip_start + total_len in
                    if payload_end > length buffer \<or> payload_start > payload_end then Inr packets
                    else
                      obind (slice buffer payload_start payload_end) (\<lambda>pl.
                        parse_packets_loop buffer (offset + (14 + total_len))
                          (packets @ [\<lparr>src_ip = src, dst_ip = dst, src_port = sport,
                             dst_port = dport, payload = pl\<rparr>])))))))))))
      else Inr packets)"
  by pat_completeness auto
termination
  by (relation "measure (\<lambda>(buffer, offset, packets). length buffer - offset)") auto

declare parse_packets_loop.simps [simp del]

definition parse_ipv4_tcp_packets :: "byte list \<Rightarrow> parsed_packet list outcome" where
  "parse_ipv4_tcp_packets buffer = parse_packets_loop buffer 0 []"

section \<open>One frame\<close>

text \<open>
  What the bytes from an offset on are, as a function of the buffer: the end of the walk, a frame
  to be skipped, or a packet; with the distance to the next frame.
\<close>

datatype frame = Stop | Skip nat | Packet nat parsed_packet

definition be_at :: "byte list \<Rightarrow> nat \<Rightarrow> u16" where
  "be_at buf i = from_be_bytes (buf ! i) (buf ! (i + 1))"

definition addr_at :: "byte list \<Rightarrow> nat \<Rightarrow> ipv4" where
  "addr_at buf i = (buf ! i, buf ! (i + 1), buf ! (i + 2), buf ! (i + 3))"

definition frame_at :: "byte list \<Rightarrow> nat \<Rightarrow> frame" where
  "frame_at buf off =
     (let ip = off + 14; total_len = unat (be_at buf (ip + 2));
          tcp = ip + unat (buf ! ip AND 0x0F) * 4;
          start = tcp + unat (drop_bit 4 (buf ! (tcp + 12)) * 4) in
      if length buf < off + 34 then Stop
      else if be_at buf (off + 12) \<noteq> 0x0800 then Skip 64
      else if length buf < ip + total_len then Stop
      else if buf ! (ip + 9) \<noteq> 6 then Skip (14 + total_len)
      else if length buf < tcp + 20 \<or> ip + total_len < start then Stop
      else Packet (14 + total_len)
        \<lparr>src_ip = addr_at buf (ip + 12), dst_ip = addr_at buf (ip + 16),
         src_port = be_at buf tcp, dst_port = be_at buf (tcp + 2),
         payload = take (ip + total_len - start) (drop start buf)\<rparr>)"

lemma be16_at_in: "i + 2 \<le> length buf \<Longrightarrow> be16_at buf i = Inr (be_at buf i)"
  by (simp add: be16_at_def be_at_def slice_simps)

lemma ipv4_at_in: "i + 4 \<le> length buf \<Longrightarrow> ipv4_at buf i = Inr (addr_at buf i)"
  by (simp add: ipv4_at_def addr_at_def slice_simps)

lemma parse_packets_step:
  "parse_packets_loop buf off ps =
     (case frame_at buf off of
        Stop \<Rightarrow> Inr ps
      | Skip k \<Rightarrow> parse_packets_loop buf (off + k) ps
      | Packet k p \<Rightarrow> parse_packets_loop buf (off + k) (ps @ [p]))"
proof (cases "off + 34 \<le> length buf \<and> be_at buf (off + 12) = 0x0800")
  case False
  then show ?thesis
    by (subst parse_packets_loop.simps) (auto simp: frame_at_def be16_at_in Let_def)
next
  case True
  define ip where "ip = off + 14"
  define tcp where "tcp = ip + unat (buf ! ip AND 0x0F) * 4"
  define k where "k = unat (be_at buf (ip + 2))"
  have bounds: "ip + 20 \<le> length buf" "\<not> length buf < ip + 20" "\<not> length buf < off + 34"
    using True by (simp_all add: ip_def)
  have head: "be16_at buf (off + 12) = Inr 0x0800" "slice_get buf ip = Inr (buf ! ip)"
    "be16_at buf (ip + 2) = Inr (be_at buf (ip + 2))" "slice_get buf (ip + 9) = Inr (buf ! (ip + 9))"
    "ipv4_at buf (ip + 12) = Inr (addr_at buf (ip + 12))"
    "ipv4_at buf (ip + 16) = Inr (addr_at buf (ip + 16))"
    using True bounds(1) by (simp_all add: be16_at_in ipv4_at_in slice_simps)
  have in_tcp: "be16_at buf tcp = Inr (be_at buf tcp)" "be16_at buf (tcp + 2) = Inr (be_at buf (tcp + 2))"
    "slice_get buf (tcp + 12) = Inr (buf ! (tcp + 12))" if "tcp + 20 \<le> length buf"
    using that by (simp_all add: be16_at_in slice_simps)
  note fold = ip_def [symmetric] tcp_def [symmetric] k_def [symmetric]
  have "ip + k \<le> length buf \<Longrightarrow> tcp + unat (drop_bit 4 (buf ! (tcp + 12)) * 4) > length buf \<Longrightarrow>
      ip + k < tcp + unat (drop_bit 4 (buf ! (tcp + 12)) * 4)" by simp
  then show ?thesis
    using True bounds in_tcp
    by (subst parse_packets_loop.simps)
       (cases "tcp + 20 \<le> length buf"; simp add: frame_at_def Let_def head fold slice_def
         del: add_2_eq_Suc add_2_eq_Suc')
qed

lemma frame_at_positive: "frame_at buf off = Skip k \<or> frame_at buf off = Packet k p \<Longrightarrow>
    0 < k \<and> off < length buf"
  by (auto simp: frame_at_def Let_def split: if_split_asm)

section \<open>Every buffer can be parsed\<close>

lemma frame_at_Packet:
  assumes "frame_at buf off = Packet k p"
  shows "14 \<le> k" "off + k \<le> length buf" "\<exists>i n. i + n \<le> length buf \<and> payload p = take n (drop i buf)"
proof -
  define start where "start = off + 14 + unat (buf ! (off + 14) AND 0x0F) * 4 +
    unat (drop_bit 4 (buf ! (off + 14 + unat (buf ! (off + 14) AND 0x0F) * 4 + 12)) * 4)"
  have le: "start \<le> off + k" "14 \<le> k" "off + k \<le> length buf" "off \<le> start"
    "payload p = take (off + k - start) (drop start buf)"
    using assms by (auto simp: frame_at_def Let_def start_def split: if_split_asm)
  then show "14 \<le> k" "off + k \<le> length buf" by auto
  show "\<exists>i n. i + n \<le> length buf \<and> payload p = take n (drop i buf)"
    using le by (intro exI [of _ start] exI [of _ "off + k - start"]) simp
qed

lemma parse_packets_loop_total:
  "\<exists>qs. parse_packets_loop buf off ps = Inr (ps @ qs) \<and> 14 * length qs \<le> length buf - off \<and>
     (\<forall>q \<in> set qs. \<exists>i n. i + n \<le> length buf \<and> payload q = take n (drop i buf))"
proof (induction "length buf - off" arbitrary: off ps rule: less_induct)
  case less
  show ?case
  proof (cases "frame_at buf off")
    case Stop
    then show ?thesis by (subst parse_packets_step) simp
  next
    case (Skip k)
    then have "length buf - (off + k) < length buf - off"
      using frame_at_positive [of buf off k undefined] by auto
    from less.hyps [OF this, of ps] Skip show ?thesis
      by (subst parse_packets_step) fastforce
  next
    case (Packet k p)
    note pk = frame_at_Packet [OF Packet]
    have "length buf - (off + k) < length buf - off"
      using frame_at_positive [of buf off k p] Packet by auto
    from less.hyps [OF this, of "ps @ [p]"] obtain qs where
      qs: "parse_packets_loop buf (off + k) (ps @ [p]) = Inr ((ps @ [p]) @ qs)"
      "14 * length qs \<le> length buf - (off + k)"
      "\<forall>q \<in> set qs. \<exists>i n. i + n \<le> length buf \<and> payload q = take n (drop i buf)" by blast
    then show ?thesis
      using Packet pk by (subst parse_packets_step) (auto intro!: exI [of _ "p # qs"])
  qed
qed

text \<open>
  C30: the packet parser returns on every buffer and never panics; it returns at most one packet
  per fourteen bytes, and every payload is a contiguous part of the buffer.
\<close>

theorem parse_ipv4_tcp_packets_total:
  "\<exists>ps. parse_ipv4_tcp_packets buffer = Inr ps \<and> 14 * length ps \<le> length buffer \<and>
     (\<forall>p \<in> set ps. \<exists>i n. i + n \<le> length buffer \<and> payload p = take n (drop i buffer))"
  using parse_packets_loop_total [of buffer 0 "[]"] by (simp add: parse_ipv4_tcp_packets_def)

theorem parse_ipv4_tcp_packets_total_witness:
  "\<exists>ps. parse_ipv4_tcp_packets [1, 2, 3] = Inr ps \<and> 14 * length ps \<le> 3"
  using parse_ipv4_tcp_packets_total [of "[1, 2, 3]"] by auto

section \<open>Frames and back\<close>

definition be_bytes :: "u16 \<Rightarrow> byte list" where
  "be_bytes w = [ucast (drop_bit 8 w), ucast w]"

definition ip_bytes :: "ipv4 \<Rightarrow> byte list" where
  "ip_bytes a = (case a of (w, x, y, z) \<Rightarrow> [w, x, y, z])"

text \<open>A TCP packet without options in an IPv4 packet without options in an Ethernet frame.\<close>

definition encode_frame :: "byte list \<Rightarrow> parsed_packet \<Rightarrow> byte list" where
  "encode_frame macs p = macs @ [8, 0] @
     [0x45, 0] @ be_bytes (of_nat (40 + length (payload p))) @ [0, 0, 0, 0, 64, 6, 0, 0]
       @ ip_bytes (src_ip p) @ ip_bytes (dst_ip p) @
     be_bytes (src_port p) @ be_bytes (dst_port p) @ [0, 0, 0, 0, 0, 0, 0, 0, 0x50, 0x10, 0, 0, 0, 0, 0, 0]
       @ payload p"

definition encodable :: "byte list \<times> parsed_packet \<Rightarrow> bool" where
  "encodable f \<longleftrightarrow> length (fst f) = 12 \<and> length (payload (snd f)) + 40 < 2 ^ 16"

lemma from_be_bytes_be: "from_be_bytes (ucast (drop_bit 8 w)) (ucast w) = w"
  by (rule bit_word_eqI)
     (auto simp: from_be_bytes_def bit_or_iff bit_push_bit_iff bit_ucast_iff bit_drop_bit_eq
       dest: bit_imp_le_length)

lemma shift_simps:
  "(pre @ x) ! (length pre + i) = x ! i" "be_at (pre @ x) (length pre + i) = be_at x i"
  "addr_at (pre @ x) (length pre + i) = addr_at x i" "drop (length pre + i) (pre @ x) = drop i x"
  by (simp_all only: be_at_def addr_at_def nth_append_length_plus add.assoc drop_append diff_add_inverse
      drop_all le_add1 append_Nil)

lemma frame_at_shift: "frame_at (pre @ x) (length pre + off) = frame_at x off"
  unfolding frame_at_def Let_def add.assoc shift_simps length_append
  by (simp only: nat_add_left_cancel_less add_diff_cancel_left add.assoc)

lemma encode_frame_start:
  assumes "encodable (macs, p)"
  shows "frame_at (encode_frame macs p @ post) 0 = Packet (length (encode_frame macs p)) p"
proof -
  obtain a b c d where src: "src_ip p = (a, b, c, d)" by (metis prod_cases4)
  obtain e f g h where dst: "dst_ip p = (e, f, g, h)" by (metis prod_cases4)
  have macs: "length macs = 12" and len: "length (payload p) + 40 < 65536"
    using assms by (simp_all add: encodable_def)
  have k: "unat (of_nat (40 + length (payload p)) :: u16) = 40 + length (payload p)"
    using len by (simp only: unat_of_nat) simp
  let ?x = "encode_frame macs p @ post"
  have fields: "be_at ?x 12 = 0x0800" "?x ! 14 = 0x45" "?x ! 23 = 6" "?x ! 46 = 0x50"
    "be_at ?x 16 = of_nat (40 + length (payload p))" "be_at ?x 34 = src_port p" "be_at ?x 36 = dst_port p"
    "addr_at ?x 26 = src_ip p" "addr_at ?x 30 = dst_ip p"
    "drop 54 ?x = payload p @ post" "length ?x = 54 + length (payload p) + length post"
    using macs
    by (simp_all add: encode_frame_def be_at_def addr_at_def be_bytes_def ip_bytes_def src dst
        nth_append from_be_bytes_be del: of_nat_add)
       (simp_all add: from_be_bytes_def)
  show ?thesis
    unfolding frame_at_def Let_def
    by (simp add: fields k del: of_nat_add) (simp add: encode_frame_def macs be_bytes_def ip_bytes_def src dst)
qed

lemma parse_packets_encoded:
  assumes "\<forall>f \<in> set fs. encodable f"
  shows "parse_packets_loop (pre @ concat (map (\<lambda>f. encode_frame (fst f) (snd f)) fs)) (length pre) acc
    = Inr (acc @ map snd fs)"
  using assms
proof (induction fs arbitrary: pre acc)
  case Nil
  then show ?case by (subst parse_packets_step) (simp add: frame_at_def)
next
  case (Cons f fs)
  let ?x = "encode_frame (fst f) (snd f)" and ?rest = "concat (map (\<lambda>f. encode_frame (fst f) (snd f)) fs)"
  have "frame_at (pre @ ?x @ ?rest) (length pre) = Packet (length ?x) (snd f)"
    using frame_at_shift [of pre "?x @ ?rest" 0] encode_frame_start [of "fst f" "snd f"] Cons.prems by simp
  moreover have "parse_packets_loop ((pre @ ?x) @ ?rest) (length (pre @ ?x)) (acc @ [snd f])
      = Inr ((acc @ [snd f]) @ map snd fs)"
    using Cons.prems by (intro Cons.IH) simp
  ultimately show ?case by (subst parse_packets_step) simp
qed

text \<open>
  C29: frames in, packets out. A buffer of TCP packets, encoded as Ethernet frames back to back, is
  parsed into exactly these packets, in order: addresses, ports and payload, whatever the hardware
  addresses are.
\<close>

theorem parse_encoded_frames:
  assumes "\<forall>f \<in> set fs. encodable f"
  shows "parse_ipv4_tcp_packets (concat (map (\<lambda>f. encode_frame (fst f) (snd f)) fs)) = Inr (map snd fs)"
  using parse_packets_encoded [OF assms, of "[]" "[]"] by (simp add: parse_ipv4_tcp_packets_def)

theorem parse_encoded_frames_witness:
  "parse_ipv4_tcp_packets (encode_frame (replicate 12 7)
      \<lparr>src_ip = (10, 0, 0, 1), dst_ip = (10, 0, 0, 2), src_port = 443, dst_port = 8080, payload = [1, 2]\<rparr>)
    = Inr [\<lparr>src_ip = (10, 0, 0, 1), dst_ip = (10, 0, 0, 2), src_port = 443, dst_port = 8080,
        payload = [1, 2]\<rparr>]"
  using parse_encoded_frames [of "[(replicate 12 7, \<lparr>src_ip = (10, 0, 0, 1), dst_ip = (10, 0, 0, 2),
      src_port = 443, dst_port = 8080, payload = [1, 2]\<rparr>)]"]
  by (simp add: encodable_def)

end
