(* ===== verification/Packet_Ring.thy ===== *)
theory Packet_Ring
  imports Packets Bpf
begin

text \<open>
  The memory-mapped packet ring of \<open>src/src/library/network/tsocket.rs\<close>: \<open>read_packets\<close> walks
  the packets of the one block that the kernel shares, \<open>get_ipv4_addr\<close> looks up the address of
  an interface, \<open>setup_packet_socket\<close> creates the socket and maps the ring. The ring is a
  byte list; headers are read at the offsets of their \<open>repr(C)\<close> layout, little-endian.
\<close>

section \<open>Addresses\<close>

definition htons :: "u16 \<Rightarrow> u16" where
  "htons value = push_bit 8 value OR drop_bit 8 value"

text \<open>\<open>u32::from_be\<close> on a little-endian machine and the octets of \<open>Ipv4Addr::from(u32)\<close>.\<close>

definition from_be_u32 :: "u32 \<Rightarrow> u32" where
  "from_be_u32 w = (push_bit 24 w OR (push_bit 8 w AND 0xFF0000)) OR
     ((drop_bit 8 w AND 0xFF00) OR drop_bit 24 w)"

definition ipv4_from :: "u32 \<Rightarrow> ipv4" where
  "ipv4_from w = (ucast (drop_bit 24 w), ucast (drop_bit 16 w), ucast (drop_bit 8 w), ucast w)"

record ifaddrs =
  ifa_name :: string
  ifa_family :: "int option"
  ifa_s_addr :: u32

definition AF_INET :: int where "AF_INET = 2"

fun find_ifaddr :: "string \<Rightarrow> ifaddrs list \<Rightarrow> ipv4 option" where
  "find_ifaddr iface [] = None"
| "find_ifaddr iface (cur # rest) =
     (if ifa_name cur = iface \<and> ifa_family cur \<noteq> None \<and> the (ifa_family cur) = AF_INET
      then Some (ipv4_from (from_be_u32 (ifa_s_addr cur)))
      else find_ifaddr iface rest)"

text \<open>\<open>None\<close> as the answer of \<open>getifaddrs\<close> is its failure.\<close>

definition get_ipv4_addr :: "ifaddrs list option \<Rightarrow> string \<Rightarrow> ipv4 option" where
  "get_ipv4_addr answer iface =
     (case answer of None \<Rightarrow> None | Some ifap \<Rightarrow> find_ifaddr iface ifap)"

section \<open>Reading a block\<close>

definition TP_STATUS_USER :: u32 where "TP_STATUS_USER = 1"
definition TP_STATUS_KERNEL :: u32 where "TP_STATUS_KERNEL = 0"

definition read_u32 :: "byte list \<Rightarrow> nat \<Rightarrow> u32 outcome" where
  "read_u32 mem off = obind (slice_raw mem off 4) (\<lambda>bs. Inr (ucast (from_le_bytes bs)))"

definition write_u32 :: "byte list \<Rightarrow> nat \<Rightarrow> u32 \<Rightarrow> byte list outcome" where
  "write_u32 mem off w = ptr_copy mem off [ucast w, ucast (drop_bit 8 w), ucast (drop_bit 16 w), ucast (drop_bit 24 w)]"

text \<open>
  The offsets of the fields of \<open>TpacketBlockDesc\<close> that the code uses (its header begins after
  two words), and the whole of \<open>Tpacket3Hdr\<close>.
\<close>

definition BLOCK_STATUS :: nat where "BLOCK_STATUS = 8"
definition NUM_PKTS :: nat where "NUM_PKTS = 12"
definition OFFSET_TO_FIRST_PKT :: nat where "OFFSET_TO_FIRST_PKT = 16"

record tpacket3_hdr =
  tp_next_offset :: u32
  tp_sec :: u32
  tp_nsec :: u32
  tp_snaplen :: u32
  tp_len :: u32
  tp_status :: u32
  tp_mac :: u16
  tp_net :: u16

definition tpacket3_hdr_at :: "byte list \<Rightarrow> nat \<Rightarrow> tpacket3_hdr outcome" where
  "tpacket3_hdr_at mem base =
     obind (slice_raw mem base 28) (\<lambda>h.
       Inr \<lparr>tp_next_offset = ucast (from_le_bytes (take 4 h)),
            tp_sec = ucast (from_le_bytes (take 4 (drop 4 h))),
            tp_nsec = ucast (from_le_bytes (take 4 (drop 8 h))),
            tp_snaplen = ucast (from_le_bytes (take 4 (drop 12 h))),
            tp_len = ucast (from_le_bytes (take 4 (drop 16 h))),
            tp_status = ucast (from_le_bytes (take 4 (drop 20 h))),
            tp_mac = ucast (from_le_bytes (take 2 (drop 24 h))),
            tp_net = ucast (from_le_bytes (take 2 (drop 26 h)))\<rparr>)"

text \<open>Whether the packet at \<open>base\<close> is one of those that the loop skips with \<open>continue\<close>.\<close>

definition skips_packet :: "ipv4 \<Rightarrow> byte list \<Rightarrow> nat \<Rightarrow> nat \<Rightarrow> bool outcome" where
  "skips_packet server_ip mem data_ptr data_len =
     (if data_len < 14 then Inr True
      else obind (ptr_read mem (data_ptr + 12)) (\<lambda>hi.
           obind (ptr_read mem (data_ptr + 13)) (\<lambda>lo.
           if from_be_bytes hi lo \<noteq> 0x0800 then Inr True
           else if data_len < 14 + 20 then Inr True
           else let ip_start = data_ptr + 14 in
             obind (ptr_read mem (ip_start + 12)) (\<lambda>a.
             obind (ptr_read mem (ip_start + 13)) (\<lambda>b.
             obind (ptr_read mem (ip_start + 14)) (\<lambda>c.
             obind (ptr_read mem (ip_start + 15)) (\<lambda>d.
               Inr ((a, b, c, d) = server_ip))))))))"

fun read_packets_loop ::
  "ipv4 \<Rightarrow> byte list \<Rightarrow> nat \<Rightarrow> nat \<Rightarrow> nat option \<Rightarrow> nat \<Rightarrow> (nat option \<times> nat) outcome" where
  "read_packets_loop server_ip mem 0 base first_offset last_offset = Inr (first_offset, last_offset)"
| "read_packets_loop server_ip mem (Suc n) base first_offset last_offset =
     obind (tpacket3_hdr_at mem base) (\<lambda>hdr.
     let data_ptr = base + unat (tp_mac hdr);
         data_len = unat (tp_snaplen hdr);
         data_offset = data_ptr in
     obind (skips_packet server_ip mem data_ptr data_len) (\<lambda>skip.
     if skip then read_packets_loop server_ip mem n base first_offset last_offset
     else
       let first_offset = (case first_offset of None \<Rightarrow> Some data_offset | Some f \<Rightarrow> Some f);
           last_offset = data_offset + data_len in
       if tp_next_offset hdr = 0 then Inr (first_offset, last_offset)
       else read_packets_loop server_ip mem n (base + unat (tp_next_offset hdr)) first_offset last_offset))"

text \<open>\<open>read_packets\<close> with the memory it leaves behind.\<close>

definition read_packets ::
  "ifaddrs list option \<Rightarrow> byte list \<Rightarrow> ((nat \<times> nat) option \<times> byte list) outcome" where
  "read_packets ifs mem =
     obind (read_u32 mem BLOCK_STATUS) (\<lambda>block_status.
     if block_status AND TP_STATUS_USER = 0 then Inr (None, mem)
     else
       obind (read_u32 mem NUM_PKTS) (\<lambda>num_pkts.
       obind (read_u32 mem OFFSET_TO_FIRST_PKT) (\<lambda>off.
       obind (or_fault Panic (get_ipv4_addr ifs ''eth0'')) (\<lambda>server_ip.
       obind (read_packets_loop server_ip mem (unat num_pkts) (unat off) None 0) (\<lambda>(first_offset, last_offset).
       obind (write_u32 mem BLOCK_STATUS TP_STATUS_KERNEL) (\<lambda>mem.
         Inr (case first_offset of Some start \<Rightarrow> Some (start, last_offset) | None \<Rightarrow> None, mem)))))))"

section \<open>What is read\<close>

lemma write_kernel_status [simp]:
  "write_u32 mem off TP_STATUS_KERNEL = ptr_copy mem off [0, 0, 0, 0]"
  by (simp add: write_u32_def TP_STATUS_KERNEL_def)

lemma read_loop_stuck:
  assumes "tpacket3_hdr_at mem base = Inr hdr"
    and "skips_packet ip mem (base + unat (tp_mac hdr)) (unat (tp_snaplen hdr)) = Inr True"
  shows "read_packets_loop ip mem n base f l = Inr (f, l)"
  using assms by (induction n) simp_all

text \<open>
  C36: the loop does not advance past a packet it skips. If the first packet of a block is too
  short, not IPv4 or sent by the server itself, no packet of the block is returned, however many
  there are, and the block is handed back to the kernel.
\<close>

theorem read_packets_stuck:
  assumes "read_u32 mem BLOCK_STATUS = Inr st" "st AND TP_STATUS_USER \<noteq> 0"
    and "read_u32 mem NUM_PKTS = Inr n" "read_u32 mem OFFSET_TO_FIRST_PKT = Inr off"
    and "get_ipv4_addr ifs ''eth0'' = Some ip"
    and "tpacket3_hdr_at mem (unat off) = Inr hdr"
    and "skips_packet ip mem (unat off + unat (tp_mac hdr)) (unat (tp_snaplen hdr)) = Inr True"
    and "12 \<le> length mem"
  shows "read_packets ifs mem = Inr (None, take 8 mem @ [0, 0, 0, 0] @ drop 12 mem)"
  using assms read_loop_stuck [OF assms(6,7)]
  by (simp add: read_packets_def ptr_copy_def blit_def BLOCK_STATUS_def)

text \<open>A block of three packets, the first with an empty frame.\<close>

definition sample_block :: "byte list" where
  "sample_block = replicate 8 0 @ [1, 0, 0, 0] @ [3, 0, 0, 0] @ [48, 0, 0, 0] @ replicate 70 0"

definition sample_ifaddrs :: "ifaddrs list" where
  "sample_ifaddrs = [\<lparr>ifa_name = ''lo'', ifa_family = Some 2, ifa_s_addr = 0x0100007F\<rparr>,
     \<lparr>ifa_name = ''eth0'', ifa_family = Some 2, ifa_s_addr = 0x0200000A\<rparr>]"

theorem read_packets_stuck_witness:
  "read_packets (Some sample_ifaddrs) sample_block =
     Inr (None, take 8 sample_block @ [0, 0, 0, 0] @ drop 12 sample_block)"
proof -
  have "read_u32 sample_block BLOCK_STATUS = Inr 1" "read_u32 sample_block NUM_PKTS = Inr 3"
    "read_u32 sample_block OFFSET_TO_FIRST_PKT = Inr 48" "1 AND TP_STATUS_USER \<noteq> 0"
    "get_ipv4_addr (Some sample_ifaddrs) ''eth0'' = Some (10, 0, 0, 2)"
    "tpacket3_hdr_at sample_block (unat (48 :: u32)) =
       Inr \<lparr>tp_next_offset = 0, tp_sec = 0, tp_nsec = 0, tp_snaplen = 0, tp_len = 0, tp_status = 0,
         tp_mac = 0, tp_net = 0\<rparr>"
    "skips_packet (10, 0, 0, 2) sample_block (unat (48 :: u32) + unat (0 :: u16)) (unat (0 :: u32)) = Inr True"
    "12 \<le> length sample_block"
    by code_simp+
  then show ?thesis using read_packets_stuck [of sample_block 1 3 48 "Some sample_ifaddrs"] by simp
qed

lemma read_cleared:
  "12 \<le> length mem \<Longrightarrow> read_u32 (take 8 mem @ [0, 0, 0, 0] @ drop 12 mem) BLOCK_STATUS = Inr 0"
  by (simp add: read_u32_def slice_raw_def BLOCK_STATUS_def from_le_bytes_def)

text \<open>
  C37: ownership of the block. A read that returns leaves the memory as it was if the block belongs
  to the kernel, and otherwise clears the status word and nothing else; either way the next read
  finds no packets and changes nothing.
\<close>

theorem read_packets_hands_back:
  assumes "read_packets ifs mem = Inr (r, mem')"
  shows "(if \<exists>st. read_u32 mem BLOCK_STATUS = Inr st \<and> st AND TP_STATUS_USER \<noteq> 0
      then mem' = take 8 mem @ [0, 0, 0, 0] @ drop 12 mem else mem' = mem \<and> r = None) \<and>
    read_packets ifs mem' = Inr (None, mem')"
proof -
  obtain st where st: "read_u32 mem BLOCK_STATUS = Inr st"
    using assms by (auto simp: read_packets_def obind_eq_Inr_iff)
  show ?thesis
  proof (cases "st AND TP_STATUS_USER = 0")
    case True
    then show ?thesis using assms st by (simp add: read_packets_def)
  next
    case False
    then have mem': "mem' = take 8 mem @ [0, 0, 0, 0] @ drop 12 mem" "12 \<le> length mem"
      using assms st
      by (auto simp: read_packets_def obind_eq_Inr_iff ptr_copy_def blit_def BLOCK_STATUS_def
          split: if_split_asm prod.split_asm)
    then show ?thesis using st False read_cleared [OF mem'(2)] by (simp add: read_packets_def)
  qed
qed

theorem read_packets_hands_back_witness:
  "read_packets None (replicate 48 0) = Inr (None, replicate 48 0)"
proof -
  have "read_packets None (replicate 48 0) = Inr (None, replicate 48 0)" by code_simp
  from read_packets_hands_back [OF this] show ?thesis by simp
qed

section \<open>Addresses\<close>

lemma htons_bytes: "htons (from_be_bytes a b) = from_be_bytes b a"
  by (rule bit_word_eqI)
     (auto simp: htons_def from_be_bytes_def bit_or_iff bit_push_bit_iff bit_drop_bit_eq bit_ucast_iff
       dest: bit_imp_le_length)

text \<open>
  Swapping to network order exchanges the two bytes of a port or protocol number, so twice is
  the identity.
\<close>

theorem htons_involution: "htons (from_be_bytes a b) = from_be_bytes b a \<and> htons (htons v) = v"
proof -
  have "htons (htons v) = v"
    by (rule bit_word_eqI)
       (auto simp: htons_def bit_or_iff bit_push_bit_iff bit_drop_bit_eq dest: bit_imp_le_length)
  then show ?thesis by (simp add: htons_bytes)
qed

section \<open>Creating the ring\<close>

definition FRAME_SIZE :: nat where "FRAME_SIZE = 8192"
definition FRAME_COUNT :: nat where "FRAME_COUNT = 4096"
definition BLOCK_SIZE :: nat where "BLOCK_SIZE = FRAME_SIZE * FRAME_COUNT"
definition AF_PACKET :: int where "AF_PACKET = 17"
definition SOCK_RAW :: int where "SOCK_RAW = 3"
definition ETH_P_ALL :: u16 where "ETH_P_ALL = 3"
definition PROT_READ :: int where "PROT_READ = 1"
definition PROT_WRITE :: int where "PROT_WRITE = 2"
definition MAP_SHARED :: int where "MAP_SHARED = 1"
definition TPACKET_V3 :: u32 where "TPACKET_V3 = 2"

record packet_ring =
  ring_fd :: int
  mmap_ptr :: nat
  mmap_len :: nat

record tpacket_req3 =
  tp_block_size :: u32
  tp_block_nr :: u32
  tp_frame_size :: u32
  tp_frame_nr :: u32
  tp_retire_blk_tov :: u32
  tp_sizeof_priv :: u32
  tp_feature_req_word :: u32

record sockaddr_ll =
  sll_family :: u16
  sll_protocol :: u16
  sll_ifindex :: int
  sll_hatype :: u16
  sll_pkttype :: byte
  sll_halen :: byte
  sll_addr :: "byte list"

datatype packet_call =
    Socket int int int
  | Set_Packet_Version int u32
  | Set_Packet_Rx_Ring int tpacket_req3
  | If_Nametoindex string
  | Bind int sockaddr_ll
  | Set_Attach_Filter int "sock_filter list"
  | Mmap nat int int int nat

text \<open>
  What the kernel answers to each of the calls; a mapping that fails has no address, and
  \<open>errno\<close> is the error that \<open>last_os_error\<close> reports after a call.
\<close>

record packet_kernel =
  answer :: "packet_call \<Rightarrow> int"
  mapping :: "packet_call \<Rightarrow> nat option"
  errno :: "packet_call \<Rightarrow> int"

text \<open>The result and the calls made, in order.\<close>

definition setup_packet_socket ::
  "packet_kernel \<Rightarrow> string \<Rightarrow> packet_ring outcome \<times> packet_call list" where
  "setup_packet_socket K iface =
     (let c1 = Socket AF_PACKET SOCK_RAW (uint (htons ETH_P_ALL)); f = answer K c1 in
      if f < 0 then (Inl (Os_Error (errno K c1)), [c1])
      else let c2 = Set_Packet_Version f TPACKET_V3 in
      if answer K c2 < 0 then (Inl (Os_Error (errno K c2)), [c1, c2])
      else let c3 = Set_Packet_Rx_Ring f
             \<lparr>tp_block_size = of_nat BLOCK_SIZE, tp_block_nr = 1, tp_frame_size = of_nat FRAME_SIZE,
              tp_frame_nr = of_nat FRAME_COUNT, tp_retire_blk_tov = 60, tp_sizeof_priv = 0,
              tp_feature_req_word = 0\<rparr> in
      if answer K c3 < 0 then (Inl (Os_Error (errno K c3)), [c1, c2, c3])
      else if CHR 0x00 \<in> set iface then (Inl Panic, [c1, c2, c3])
      else let c4 = If_Nametoindex iface; if_index = answer K c4 in
      if if_index = 0 then (Inl (Os_Error (errno K c4)), [c1, c2, c3, c4])
      else let c5 = Bind f \<lparr>sll_family = of_int AF_PACKET, sll_protocol = htons ETH_P_ALL,
             sll_ifindex = if_index, sll_hatype = 0, sll_pkttype = 0, sll_halen = 0,
             sll_addr = replicate 8 0\<rparr> in
      if answer K c5 < 0 then (Inl (Os_Error (errno K c5)), [c1, c2, c3, c4, c5])
      else let c6 = Set_Attach_Filter f BPF_TCP_FILTER in
      if answer K c6 < 0 then (Inl (Os_Error (errno K c6)), [c1, c2, c3, c4, c5, c6])
      else let c7 = Mmap BLOCK_SIZE (PROT_READ OR PROT_WRITE) MAP_SHARED f 0 in
      case mapping K c7 of
        None \<Rightarrow> (Inl (Os_Error (errno K c7)), [c1, c2, c3, c4, c5, c6, c7])
      | Some ptr \<Rightarrow> (Inr \<lparr>ring_fd = f, mmap_ptr = ptr, mmap_len = BLOCK_SIZE\<rparr>,
          [c1, c2, c3, c4, c5, c6, c7]))"

text \<open>\<open>PacketRing::as_slice\<close>: the mapped bytes, in a memory that is read byte by byte.\<close>

definition as_slice :: "packet_ring \<Rightarrow> (nat \<Rightarrow> byte) \<Rightarrow> byte list" where
  "as_slice r mem = map mem [mmap_ptr r..<mmap_ptr r + mmap_len r]"

text \<open>The slice of a new ring has room for every frame that was asked for.\<close>

lemma length_as_slice:
  "setup_packet_socket K iface = (Inr r, calls) \<Longrightarrow> length (as_slice r mem) = FRAME_COUNT * FRAME_SIZE"
  by (auto simp: setup_packet_socket_def as_slice_def BLOCK_SIZE_def Let_def split: if_split_asm option.split_asm)

text \<open>The calls that are still accepted when a set-up ends.\<close>

definition accepted_call :: "packet_kernel \<Rightarrow> packet_call \<Rightarrow> bool" where
  "accepted_call K c =
     (case c of If_Nametoindex i \<Rightarrow> answer K c \<noteq> 0 | Mmap n prot fl f off \<Rightarrow> mapping K c \<noteq> None | _ \<Rightarrow> 0 \<le> answer K c)"

text \<open>
  C38: the set-up of the packet socket stops at the first call the kernel refuses and reports its
  error; it succeeds exactly when all seven are accepted, and then the mapping has the size of the
  ring it asked for: one block of 4096 frames of 8192 bytes, all of which fit their 32-bit fields.
\<close>

theorem setup_packet_socket_outcome:
  assumes "CHR 0x00 \<notin> set iface"
  shows "case setup_packet_socket K iface of
      (Inr r, calls) \<Rightarrow> length calls = 7 \<and> (\<forall>c \<in> set calls. accepted_call K c) \<and>
        (\<exists>req. calls ! 2 = Set_Packet_Rx_Ring (ring_fd r) req \<and>
          unat (tp_block_size req) * unat (tp_block_nr req) = mmap_len r \<and>
          unat (tp_frame_size req) * unat (tp_frame_nr req) = mmap_len r)
    | (Inl e, calls) \<Rightarrow> e = Os_Error (errno K (last calls)) \<and> \<not> accepted_call K (last calls) \<and>
        (\<forall>c \<in> set (butlast calls). accepted_call K c)"
proof -
  have sizes: "unat (of_nat BLOCK_SIZE :: u32) = BLOCK_SIZE" "unat (of_nat FRAME_SIZE :: u32) = FRAME_SIZE"
    "unat (of_nat FRAME_COUNT :: u32) = FRAME_COUNT" "FRAME_SIZE * FRAME_COUNT = BLOCK_SIZE"
    by (simp_all add: BLOCK_SIZE_def FRAME_SIZE_def FRAME_COUNT_def)
  show ?thesis
    using assms
    by (simp add: setup_packet_socket_def Let_def accepted_call_def sizes not_less split: option.split)
qed

theorem setup_packet_socket_outcome_witness:
  "case setup_packet_socket \<lparr>answer = (\<lambda>c. case c of Bind f a \<Rightarrow> - 1 | _ \<Rightarrow> 5), mapping = (\<lambda>_. None),
      errno = (\<lambda>_. 13)\<rparr> ''eth0'' of (Inr r, calls) \<Rightarrow> False | (Inl e, calls) \<Rightarrow> e = Os_Error 13"
  using setup_packet_socket_outcome [of "''eth0''" "\<lparr>answer = (\<lambda>c. case c of Bind f a \<Rightarrow> - 1 | _ \<Rightarrow> 5),
      mapping = (\<lambda>_. None), errno = (\<lambda>_. 13)\<rparr>"]
  by (simp add: setup_packet_socket_def Let_def)

end
