(* ===== verification/Const_Printer.thy ===== *)
theory Const_Printer
  imports Prelude
begin

text \<open>
  \<open>print_as_const\<close> of \<open>src/src/library/utils/mod.rs\<close>: a byte string written out as a Rust
  constant, as the text it prints.
\<close>

definition newline :: string where "newline = [CHR 0x0A]"

definition digit :: "nat \<Rightarrow> char" where
  "digit n = char_of (48 + n mod 10)"

text \<open>The format \<open>{:3}\<close> of a byte: decimal, right-aligned in three columns.\<close>

definition show3 :: "byte \<Rightarrow> string" where
  "show3 b = (let n = unat b in
     if n < 10 then [CHR '' '', CHR '' '', digit n]
     else if n < 100 then [CHR '' '', digit (n div 10), digit n]
     else [digit (n div 100), digit (n div 10), digit n])"

fun print_bytes :: "nat \<Rightarrow> byte list \<Rightarrow> string" where
  "print_bytes i [] = []"
| "print_bytes i (b # bs) =
     show3 b @ '','' @ (if (i + 1) mod 16 = 0 then newline @ ''    '' else []) @ print_bytes (i + 1) bs"

definition print_as_const :: "byte list \<Rightarrow> string \<Rightarrow> string" where
  "print_as_const bytes name =
     ''const '' @ name @ '': &[u8] = &['' @ newline @ ''    '' @ print_bytes 0 bytes @
     newline @ ''];'' @ newline"

section \<open>Reading the bytes back\<close>

text \<open>The value of the last run of digits before each comma.\<close>

fun read_bytes :: "nat \<Rightarrow> string \<Rightarrow> byte list" where
  "read_bytes acc [] = []"
| "read_bytes acc (c # cs) =
     (if c = CHR '','' then of_nat acc # read_bytes 0 cs
      else if 48 \<le> (of_char c :: nat) \<and> (of_char c :: nat) < 58
      then read_bytes (10 * acc + (of_char c - 48)) cs
      else read_bytes 0 cs)"

lemma digit_simps [simp]:
  "(of_char (digit n) :: nat) = 48 + n mod 10" "digit n \<noteq> CHR '',''"
proof -
  show code: "(of_char (digit n) :: nat) = 48 + n mod 10"
    by (simp add: digit_def)
  show "digit n \<noteq> CHR '',''"
  proof
    assume "digit n = CHR '',''"
    then have "(of_char (digit n) :: nat) = of_char CHR '',''" by simp
    then show False unfolding code by simp
  qed
qed

lemma two_digits: "(n :: nat) < 100 \<Longrightarrow> 10 * (n div 10 mod 10) + n mod 10 = n"
proof -
  assume "n < 100"
  then have "n div 10 mod 10 = n div 10" by (simp add: div_less_iff_less_mult)
  then show ?thesis by simp
qed

lemma decimal_digits:
  assumes "(n :: nat) < 1000"
  shows "10 * (10 * (n div 100 mod 10) + n div 10 mod 10) + n mod 10 = n"
proof -
  have "n div 10 < 100" using assms by (simp add: div_less_iff_less_mult)
  moreover have "n div 100 = n div 10 div 10" by (simp add: div_mult2_eq [symmetric])
  ultimately have "10 * (n div 100 mod 10) + n div 10 mod 10 = n div 10"
    using two_digits [of "n div 10"] by (simp only:)
  then show ?thesis by (simp only: mult_div_mod_eq)
qed

lemma read_show3: "read_bytes 0 (show3 b @ '','' @ cs) = b # read_bytes 0 cs"
proof -
  define n where "n = unat b"
  have n: "n < 256" "of_nat n = b" using unsigned_less [of b] by (simp_all add: n_def)
  consider "n < 10" | "10 \<le> n" "n < 100" | "100 \<le> n" by linarith
  then show ?thesis
  proof cases
    case 1
    then show ?thesis using n(2) by (simp add: show3_def n_def [symmetric])
  next
    case 2
    then have "n div 10 < 10" by (simp add: div_less_iff_less_mult)
    then show ?thesis using 2 two_digits [of n] n(2) by (simp add: show3_def n_def [symmetric] del: of_nat_add of_nat_mult)
  next
    case 3
    then show ?thesis using decimal_digits [of n] n
      by (simp add: show3_def n_def [symmetric] del: of_nat_add of_nat_mult)
  qed
qed

lemma read_print_bytes: "read_bytes 0 (print_bytes i bs @ newline @ ''];'' @ newline) = bs"
proof (induction bs arbitrary: i)
  case Nil
  then show ?case by (simp add: newline_def)
next
  case (Cons b bs)
  then show ?case using read_show3 [of b] by (simp add: newline_def)
qed

text \<open>
  What \<open>print_as_const\<close> prints denotes the bytes it was given: after the opening bracket,
  reading the decimal numbers before the commas gives back exactly the byte string.
\<close>

theorem print_as_const_roundtrip:
  "\<exists>pre. print_as_const bytes name = pre @ print_bytes 0 bytes @ newline @ ''];'' @ newline \<and>
    pre = ''const '' @ name @ '': &[u8] = &['' @ newline @ ''    '' \<and>
    read_bytes 0 (print_bytes 0 bytes @ newline @ ''];'' @ newline) = bytes"
  using read_print_bytes [of 0 bytes] by (simp add: print_as_const_def)

end
