(* ===== verification/Spec2Isabelle.thy ===== *)
theory Spec2Isabelle
  imports Startup Ownership Packet_Ring Const_Printer
begin

text \<open>
  A verification library for Tachyon, the \<open>io_uring\<close> HTTP server under \<open>src/\<close>.

  \<^bold>\<open>The program.\<close> \<open>main\<close> configures a \<open>Server\<close> and \<open>run\<close> starts one pinned thread per
  configured worker. Each worker owns a listener, a ring, 1024 receive buffers of 7168 bytes and
  two stable vectors indexed by client number: the descriptors and the output lakes. \<open>sq_poll\<close>
  hands the buffers to the kernel, queues accepts and loops: flush the output of all clients when
  the completion queue is empty, sync and enter the kernel, and dispatch every completion by the
  user datum of its entry. An accept creates a client; a receive is scanned for requests by a
  vectorised scanner, every request is answered by \<open>handler\<close> and the answers go to the output
  lake of the client; an empty receive or a reset closes the client; a poll event, in UBDMA mode,
  looks into the last receive buffer directly. Consumed buffers are collected and handed back in
  batches of 682 or when the worker is idle. Beside the server the repository has a packet socket
  with a memory-mapped ring, a packet parser and a few memory routines.

  \<^bold>\<open>The theories.\<close>
  \<^item> \<open>Prelude\<close>: machine types; \<open>outcome\<close>, a fault (\<open>Panic\<close>, \<open>Undefined_Behaviour\<close>,
    \<open>Diverges\<close>, an error of the operating system) or a value; checked slices and raw pointers into
    one object; shared lemmas. \<open>Simd\<close>: the AVX2 intrinsics and bit counts, and the theory of
    comparison masks.
  \<^item> \<open>Trim\<close>, \<open>Shift\<close>, \<open>Memory\<close>, \<open>Http\<close>, \<open>Const_Printer\<close>: the files \<open>trim.rs\<close>, \<open>shift.rs\<close>,
    \<open>memory.rs\<close> with the assembly of \<open>kernel.rs\<close>, \<open>http.rs\<close> and \<open>mod.rs\<close> of
    \<open>src/src/library/utils\<close>. Every loop is a recursive function with its termination proof, every
    raw read is checked against the object it reads. The routines are shown equal to list
    functions; the scanner is shown equal to a reference reading on every buffer, including when
    it leaves the buffer, and to invert the rendering of plain requests.
  \<^item> \<open>User_Data\<close> (\<open>server_internals.rs\<close>) and \<open>Kernel_Cmds\<close> (\<open>uring/kernel_cmds.rs\<close>): the tags and
    the submission entries. What unpacking returns for every packed tag.
  \<^item> \<open>Runtime\<close>: the crates that are not part of the repository (\<open>stable-vec\<close>, \<open>lake\<close>,
    \<open>tachyon_json\<close>, \<open>io-uring\<close>), each a record of operations and a locale with what the server
    relies on; \<open>runtime_laws\<close> collects them. \<open>Reference_Runtime\<close> implements all of them by
    executable definitions and interprets the locales; the concrete runs evaluate on it.
  \<^item> \<open>Handler\<close> (\<open>main.rs\<close>): the router and the answers.
  \<^item> \<open>Server_State\<close>, \<open>Buffer_Pool\<close>, \<open>Connections\<close>, \<open>Replies\<close>, \<open>Dispatch\<close>, \<open>Reactor\<close>: \<open>server.rs\<close>,
    one definition per method, over the record \<open>worker\<close>, which is the \<open>Server\<close> struct with the ring,
    the thread-local pointer and the system calls made. For every operation: its outcome on every
    branch. \<open>worker_ok\<close> is the invariant; every operation keeps it (locale \<open>keeps\<close>), so do all
    reachable states of the step relation \<open>reactor\<close>, which interleaves the stages of the loop with
    a kernel that consumes submissions, posts arbitrary completions and overwrites buffers; \<open>turn\<close>,
    one pass of the loop, always ends and is a run of that relation.
  \<^item> \<open>Client_Table\<close>: the abstract specification of a worker, a table of clients with their
    descriptors and waiting output that is changed by connecting, answering, flushing and closing.
    Every completion and every run of the reactor refines it; what is sent to a client is a prefix
    of the answers to it, and waiting output is submitted in the next pass.
  \<^item> \<open>Ownership\<close>: with a kernel that delivers only buffers it owns, every receive buffer is always in
    exactly one place.
  \<^item> \<open>Startup\<close>: \<open>uring/mod.rs\<close>, the rest of \<open>server_internals.rs\<close>, \<open>run\<close> and \<open>main\<close>: what is started,
    and that the instance a worker starts is in a reachable state.
  \<^item> \<open>Bpf\<close>, \<open>Packets\<close>, \<open>Packet_Ring\<close>: the BPF programs of \<open>utils/faf_helpers.rs\<close> and
    \<open>network/tsocket.rs\<close> on the documented instruction set, the packet parser (total, and inverse
    to an encoder of frames) and the ring (hand-over of a block, set-up of the socket).

  \<^item> This theory: the path of a request through the components, from the completion of a receive
    over the scan, the handler and the lake to the send entry.

  \<^bold>\<open>Conventions.\<close> Integer arithmetic is that of a release build: it wraps, and shift amounts are
  taken modulo the width. Words that the code computes with are words; lengths and indices are
  \<open>nat\<close>, with wrap-around written out where a value can reach \<open>2 ^ 64\<close>. No definition uses fuel:
  loops are total functions, except the retry loop \<open>push_retry\<close> and the completion loop \<open>drain\<close>,
  which are \<open>partial_function\<close>s with \<open>None\<close> for a run that does not end; when they end is a
  theorem for both. Pointers into client lakes and buffers are symbolic in submission entries, so
  when the kernel reads them is not fixed.

  \<^bold>\<open>Not modelled.\<close> \<open>bootstrap_logs\<close> and all \<open>tracing\<close> output; the number of connections that is
  computed for the log only; scheduling and priorities of the threads, which share no state; what
  the thread-local pointer means after an instance has ended with an error and the thread starts
  another one, since it then points into memory that was freed; the kernel's writes to the mapped
  memory of the packet ring while it is read; alignment of raw reads; the \<open>syscall\<close> instruction of
  \<open>sys_call5\<close>, which is recorded as a call; messages to \<open>syslog\<close> and \<open>/dev/kmsg\<close>.
\<close>

section \<open>From a request to its answer on the wire\<close>

lemma replies_nonempty:
  assumes "rs \<noteq> []"
  shows "replies today rs \<noteq> []"
proof -
  obtain m p rs' where "rs = (m, p) # rs'" using assms by (cases rs) auto
  moreover have "response today (m, p) \<noteq> []" by (simp add: response_def CRLF_def split: prod.split)
  ultimately show ?thesis by simp
qed

text \<open>
  C2: a request is answered to its sender. The kernel completes a receive of a client with up to
  50 plain requests; the worker scans the buffer, runs the handler and, with room in its
  submission queue for one entry more than there are clients with output, the flush that follows
  submits an entry that sends exactly as many bytes as the answers have, from the lake of that
  client that holds the answers in the order of the requests, to the descriptor of that client.
\<close>

theorem request_answered_on_wire:
  assumes "runtime_laws E" "worker_ok E s" "c \<noteq> 0"
    and "0 < r" "r \<le> int BUFFER_SIZE" "unat (buffer_of flags) < BUFFERS_COUNT"
    and "Suc (length (released_buffers s)) \<noteq> release_threshold"
    and "\<forall>q \<in> set rs. plain_request q" "rs \<noteq> []" "length rs \<le> 50"
    and "received s (buffer_of flags) r = concat (map render rs)"
    and "fd_of E s (unat c) = Some f" "lake_of E s (unat c) = Some l" "lk_bytes (rt_lake E) l = []"
    and "sq_len (rt_ring E) (the_ring s) + Suc (length (pending E s)) \<le> sq_capacity (rt_ring E) (the_ring s)"
  shows "\<exists>s1 s2 l1 es es'.
    process_entry E (completion (recv_multi f (tag c INIT_REQUEST)) r flags) s = Inr s1 \<and>
    lake_of E s1 (unat c) = Some l1 \<and>
    lk_bytes (rt_lake E) l1 = concat (map (\<lambda>q. response (date s) (req_method q, req_path q)) rs) \<and>
    wideband_send E s1 = Inr s2 \<and>
    log_of E s2 = log_of E s @ es @ send_entry (unat c) f (length (lk_bytes (rt_lake E) l1)) # es'"
proof -
  have E: "lawful_runtime E" using assms(1) by (rule lawful_runtime.intro)
  let ?user = "\<lparr>client_id = c, buffer_id = 0, uniq_id = INIT_REQUEST\<rparr>" and ?cid = "unat c"
  let ?out = "replies (date s) (map request_line rs)"
  note scan = scanned_plain [OF assms(8,10)]
  have "length (date s) = 35" using assms(2) by (simp add: worker_ok_defs)
  from length_replies_le [OF this, of "map request_line rs"] assms(10,14)
  have room: "length (lk_bytes (rt_lake E) l) + length ?out \<le> DATA_LAKE_SIZE"
    by (simp add: DATA_LAKE_SIZE_def BUFFER_SIZE_def)
  obtain s1 where s1: "answered E (buffer_of flags) ?cid (map request_line rs) s s1"
    "request_reply E flags ?user r s = Inr s1"
    using lawful_runtime.request_reply_written(2) [OF E assms(2) _ assms(5,6), of ?user l] assms(4,7,13) scan room
    unfolding assms(11) by auto
  from s1(1) assms(13,14) obtain l1 where l1: "lake_of E s1 = (lake_of E s)(?cid \<mapsto> l1)"
    "lk_bytes (rt_lake E) l1 = ?out" by (auto simp: answered_def)
  have same: "client_fds s1 = client_fds s" "the_ring s1 = the_ring s" using s1(1) by (simp_all add: answered_def)
  have handled: "process_entry E (completion (recv_multi f (tag c INIT_REQUEST)) r flags) s = Inr s1"
    using assms(4) s1(2) by (simp add: receive_routed [OF assms(3)])
  have ok: "clients_ok E s1"
    using lawful_runtime.process_entry_ok [OF E assms(2) handled] by (simp add: worker_ok_def)
  have full: "lk_bytes (rt_lake E) l1 \<noteq> []" using l1(2) replies_nonempty assms(9) by simp
  note pend = lawful_runtime.pending_insert [OF E l1(1)]
  obtain s2 where s2: "wideband_send E s1 = Inr s2"
    using lawful_runtime.wideband_returns [OF E ok] pend(1) same(2) assms(15) by fastforce
  obtain xs ys where "pending E s1 = xs @ ?cid # ys" using pend(2) [OF full] by (meson split_list)
  moreover have "output_entry E (client_fds s1) (client_out_buffers s1) ?cid =
      send_entry ?cid f (length (lk_bytes (rt_lake E) l1))"
    using l1(1) same(1) assms(12) by (simp add: output_entry_def)
  ultimately have "\<exists>es es'. log_of E s2 = log_of E s @ es @ send_entry ?cid f (length (lk_bytes (rt_lake E) l1)) # es'"
    using lawful_runtime.wideband_Inr(3) [OF E ok s2] same(2) by auto
  then show ?thesis
    using handled s2 l1 by (fastforce simp: replies_def request_line_def comp_def)
qed

theorem request_answered_on_wire_witness:
  "\<exists>s1 s2 es es'. process_entry reference_runtime (completion (recv_multi 9 (tag 100 INIT_REQUEST)) 88 0x30000)
      sample_reader = Inr s1 \<and> wideband_send reference_runtime s1 = Inr s2 \<and>
    log_of reference_runtime s2 = es @ send_entry 100 9 408 # es'"
proof -
  have "buffer_of 0x30000 = 3" by (simp add: buffer_of_def)
  moreover have "fd_of reference_runtime sample_reader 100 = Some 9" "log_of reference_runtime sample_reader = []"
    "date sample_reader = replicate 35 0" "released_buffers sample_reader = []"
    by (simp_all add: sample_reader_def sample_simps)
  moreover have "sq_len (rt_ring reference_runtime) (the_ring sample_reader) = 0"
    "sq_capacity (rt_ring reference_runtime) (the_ring sample_reader) = 4"
    "pending reference_runtime sample_reader = []"
    by (simp_all add: sample_reader_def sample_simps pending_def has_output_def slots_indices_def upt_conv_Cons)
  moreover have "length (response (replicate 35 0) (req_method sample_request, req_path sample_request)) = 204"
    by code_simp
  ultimately show ?thesis
    using request_answered_on_wire [OF reference_runtime_laws sample_reader_ok, of 100 88 "0x30000"
        "[sample_request, sample_request]" 9 "(DATA_LAKE_SIZE, [])"]
      sample_received sample_plain sample_reader_lake
    by (auto simp: BUFFER_SIZE_def BUFFERS_COUNT_def release_threshold_eq reference_runtime_def bounded_lake_def)
qed

end
